(* ===== verification/Prelude.thy ===== *)
theory Prelude
  imports Main
begin

text \<open>
  Shared vocabulary of the development.

  \<^item> Python text is \<open>pystr\<close>, the list of its code points, so that \<open>len\<close>, slicing and
    comparison are those of Python; \<open>py\<close> turns an ASCII literal into one.
  \<^item> Every exception the program raises, catches or inspects is a constructor of \<open>exn\<close>,
    with the data the code reads from it; \<open>is_Exception\<close> is membership in Python's
    \<open>Exception\<close> (what \<open>except Exception\<close> catches).
  \<^item> A fallible pure function returns \<open>exn + 'a\<close>; effectful code is a \<open>prog\<close>, which passes
    an explicit state and returns its result or exception beside the new state.
  \<^item> \<open>model_group\<close> (\<open>ModelGroup\<close> of app/agent/llm.py) is declared here because one of
    the exceptions carries it.
\<close>

named_theorems guard_defs \<open>definitions of the input guardrails\<close>
named_theorems cascade_simps \<open>equations of the sovereignty cascade\<close>
named_theorems sse_simps \<open>equations of the SSE encoder\<close>
named_theorems prog_simps \<open>equations of the state-passing combinators\<close>

section \<open>Text\<close>

type_synonym pychar = int
type_synonym pystr = "pychar list"

definition py :: "string \<Rightarrow> pystr" where
  "py s = map of_char s"

lemma py_simps [simp]:
  "py [] = []"
  "py (c # cs) = of_char c # py cs"
  "py (cs @ ds) = py cs @ py ds"
  "length (py cs) = length cs"
  by (simp_all add: py_def)

lemma py_eq_Nil_iff [simp]: "py s = [] \<longleftrightarrow> s = []"
  by (simp add: py_def)

lemma py_inj: "py s = py t \<longleftrightarrow> s = t"
  by (simp add: py_def inj_on_def inj_map_eq_map)

definition startswith :: "'a list \<Rightarrow> 'a list \<Rightarrow> bool" where
  "startswith s p = (take (length p) s = p)"

lemma startswith_append [simp]: "startswith (p @ s) p"
  by (simp add: startswith_def)

lemma startswith_iff: "startswith s p \<longleftrightarrow> (\<exists>r. s = p @ r)"
  by (metis append_take_drop_id append_eq_conv_conj startswith_def)

lemma startswith_simps [simp]:
  "startswith s []"
  "startswith [] (x # p) = False"
  "startswith (y # s) (x # p) \<longleftrightarrow> x = y \<and> startswith s p"
  by (auto simp: startswith_def)

section \<open>Sovereignty groups\<close>

text \<open>\<open>class ModelGroup(StrEnum)\<close>; \<open>group_value\<close> is the alias sent to the gateway.\<close>

datatype model_group = SOVEREIGN_CHEAP | SOVEREIGN_PREMIUM | FRONTIER | SOVEREIGN_EMBED

fun group_value :: "model_group \<Rightarrow> pystr" where
  "group_value SOVEREIGN_CHEAP = py ''sovereign-cheap''"
| "group_value SOVEREIGN_PREMIUM = py ''sovereign-premium''"
| "group_value FRONTIER = py ''frontier''"
| "group_value SOVEREIGN_EMBED = py ''sovereign-embed''"

text \<open>
  The groups are ordered by how sovereign their compute is (declaration order), so that
  "the cascade only ever moves away from sovereign compute" is \<open>sorted\<close>.
\<close>

fun group_rank :: "model_group \<Rightarrow> nat" where
  "group_rank SOVEREIGN_CHEAP = 0"
| "group_rank SOVEREIGN_PREMIUM = 1"
| "group_rank FRONTIER = 2"
| "group_rank SOVEREIGN_EMBED = 3"

lemma group_rank_inj: "group_rank g = group_rank h \<longleftrightarrow> g = h"
  by (cases g; cases h) simp_all

lemma group_value_inject: "group_value g = group_value h \<longleftrightarrow> g = h"
  by (cases g; cases h) simp_all

instantiation model_group :: linorder
begin

definition less_eq_model_group :: "model_group \<Rightarrow> model_group \<Rightarrow> bool" where
  "less_eq_model_group g h = (group_rank g \<le> group_rank h)"

definition less_model_group :: "model_group \<Rightarrow> model_group \<Rightarrow> bool" where
  "less_model_group g h = (group_rank g < group_rank h)"

instance
  by standard
    (auto simp: less_eq_model_group_def less_model_group_def group_rank_inj)

end

lemmas group_order_simps = less_eq_model_group_def less_model_group_def

section \<open>Exceptions\<close>

datatype exn =
    ValueError pystr
  | TypeError pystr
  | TimeoutError pystr
  | APIConnectionError pystr
  | APITimeoutError pystr
  | APIStatusError pystr int pystr
  | LLMCascadeExhaustedError "model_group list" exn
  | HTTPException int pystr
  | GraphRecursionError
  | OtherException pystr pystr
  | OtherBaseException pystr pystr

text \<open>
  \<open>APIStatusError n c m\<close> stands for an instance of \<open>openai.APIStatusError\<close> or of one of its
  subclasses (class name \<open>n\<close>) with \<open>status_code = c\<close> and text \<open>m\<close>; \<open>OtherException n m\<close> is
  any further \<open>Exception\<close> of class \<open>n\<close>, \<open>OtherBaseException n m\<close> a \<open>BaseException\<close> outside
  \<open>Exception\<close> (\<open>CancelledError\<close>, \<open>KeyboardInterrupt\<close>, ...).
\<close>

fun is_Exception :: "exn \<Rightarrow> bool" where
  "is_Exception (OtherBaseException n m) = False"
| "is_Exception e = True"

text \<open>\<open>type(exc).__name__\<close>\<close>

fun type_name :: "exn \<Rightarrow> pystr" where
  "type_name (ValueError m) = py ''ValueError''"
| "type_name (TypeError m) = py ''TypeError''"
| "type_name (TimeoutError m) = py ''TimeoutError''"
| "type_name (APIConnectionError m) = py ''APIConnectionError''"
| "type_name (APITimeoutError m) = py ''APITimeoutError''"
| "type_name (APIStatusError n c m) = n"
| "type_name (LLMCascadeExhaustedError gs e) = py ''LLMCascadeExhaustedError''"
| "type_name (HTTPException c m) = py ''HTTPException''"
| "type_name GraphRecursionError = py ''GraphRecursionError''"
| "type_name (OtherException n m) = n"
| "type_name (OtherBaseException n m) = n"

section \<open>Results and state passing\<close>

definition bindE :: "exn + 'a \<Rightarrow> ('a \<Rightarrow> exn + 'b) \<Rightarrow> exn + 'b" where
  "bindE r f = (case r of Inl e \<Rightarrow> Inl e | Inr a \<Rightarrow> f a)"

lemma bindE_simps [simp]:
  "bindE (Inl e) f = Inl e"
  "bindE (Inr a) f = f a"
  by (simp_all add: bindE_def)

lemma bindE_eq_Inr_iff: "bindE r f = Inr b \<longleftrightarrow> (\<exists>a. r = Inr a \<and> f a = Inr b)"
  by (cases r) simp_all

lemma bindE_eq_Inl_iff: "bindE r f = Inl e \<longleftrightarrow> r = Inl e \<or> (\<exists>a. r = Inr a \<and> f a = Inl e)"
  by (cases r) simp_all

lemma sum_case_Inr: "(case r of Inl e \<Rightarrow> False | Inr a \<Rightarrow> P a) \<Longrightarrow> \<exists>a. r = Inr a \<and> P a"
  by (cases r) simp_all

type_synonym ('s, 'a) prog = "'s \<Rightarrow> (exn + 'a) \<times> 's"

definition return_p :: "'a \<Rightarrow> ('s, 'a) prog" where
  "return_p a s = (Inr a, s)"

definition raise_p :: "exn \<Rightarrow> ('s, 'a) prog" where
  "raise_p e s = (Inl e, s)"

definition bind_p :: "('s, 'a) prog \<Rightarrow> ('a \<Rightarrow> ('s, 'b) prog) \<Rightarrow> ('s, 'b) prog" where
  "bind_p m f s = (case m s of (Inl e, s') \<Rightarrow> (Inl e, s') | (Inr a, s') \<Rightarrow> f a s')"

lemma bind_p_simps [prog_simps]:
  "m s = (Inl e, s') \<Longrightarrow> bind_p m f s = (Inl e, s')"
  "m s = (Inr a, s') \<Longrightarrow> bind_p m f s = f a s'"
  by (simp_all add: bind_p_def)

declare return_p_def [prog_simps] raise_p_def [prog_simps]

section \<open>Lists\<close>

lemma find_eq_None_iff: "find P xs = None \<longleftrightarrow> (\<forall>x \<in> set xs. \<not> P x)"
  by (auto simp: find_None_iff)

end
