(* ===== verification/PyText.thy ===== *)
theory PyText
  imports Prelude
begin

text \<open>
  The part of Python's text handling the program relies on: whitespace, the character
  database behind \<open>\w\<close>, \<open>\d\<close>, \<open>str.lower\<close> and \<open>unicodedata\<close>, \<open>int(str)\<close>, decimal
  printing and \<open>repr\<close>.

  The Unicode character database belongs to the interpreter and changes with its version,
  so it is a parameter: a record \<open>unidb\<close> of the lookups the program makes. The locale
  \<open>unicode_db\<close> states what every version guarantees of it (its ASCII part, and that decimal
  digits and white space are what their categories say). \<open>latin1_db\<close> is the database of the
  code points below 256, which every Unicode version has in this form, with the combining
  marks their decompositions produce.
\<close>

section \<open>Whitespace\<close>

text \<open>\<open>str.isspace\<close> on one code point; also the class \<open>\s\<close> of \<open>re\<close>.\<close>

definition is_space :: "pychar \<Rightarrow> bool" where
  "is_space c \<longleftrightarrow> (9 \<le> c \<and> c \<le> 13) \<or> (28 \<le> c \<and> c \<le> 32) \<or> c = 133 \<or> c = 160 \<or> c = 5760 \<or>
     (8192 \<le> c \<and> c \<le> 8202) \<or> c = 8232 \<or> c = 8233 \<or> c = 8239 \<or> c = 8287 \<or> c = 12288"

definition py_lstrip :: "pystr \<Rightarrow> pystr" where
  "py_lstrip s = dropWhile is_space s"

definition py_rstrip :: "pystr \<Rightarrow> pystr" where
  "py_rstrip s = rev (dropWhile is_space (rev s))"

definition py_strip :: "pystr \<Rightarrow> pystr" where
  "py_strip s = py_rstrip (py_lstrip s)"

lemma py_rstrip_prefix: "\<exists>t. s = py_rstrip s @ t \<and> (\<forall>c \<in> set t. is_space c)"
proof -
  have "rev s = takeWhile is_space (rev s) @ dropWhile is_space (rev s)" by simp
  then have "s = rev (dropWhile is_space (rev s)) @ rev (takeWhile is_space (rev s))"
    by (metis rev_append rev_rev_ident)
  then show ?thesis
    by (auto simp: py_rstrip_def dest: set_takeWhileD intro!: exI [of _ "rev (takeWhile is_space (rev s))"])
qed

lemma py_rstrip_length: "length (py_rstrip s) \<le> length s"
  using length_dropWhile_le [of is_space "rev s"] by (simp add: py_rstrip_def)

lemma dropWhile_none: "\<forall>c \<in> set s. \<not> P c \<Longrightarrow> dropWhile P s = s"
  by (cases s) auto

lemma py_strip_length: "length (py_strip s) \<le> length s"
  using py_rstrip_length [of "py_lstrip s"] length_dropWhile_le [of is_space s]
  by (simp add: py_strip_def py_lstrip_def)

lemma py_strip_ends:
  assumes "s \<noteq> []" and "\<not> is_space (hd s)" and "\<not> is_space (last s)"
  shows "py_strip s = s"
proof -
  have l: "py_lstrip s = s" using assms by (cases s) (auto simp: py_lstrip_def)
  have "rev s \<noteq> []" and "\<not> is_space (hd (rev s))" using assms by (simp_all add: hd_rev)
  then have "dropWhile is_space (rev s) = rev s" by (cases "rev s") auto
  with l show ?thesis by (simp add: py_strip_def py_rstrip_def)
qed

lemma py_strip_no_space: "\<forall>c \<in> set s. \<not> is_space c \<Longrightarrow> py_strip s = s"
proof -
  assume "\<forall>c \<in> set s. \<not> is_space c"
  then have "dropWhile is_space s = s" and "dropWhile is_space (rev s) = rev s"
    by (simp_all add: dropWhile_none)
  then show ?thesis by (simp add: py_strip_def py_lstrip_def py_rstrip_def)
qed

text \<open>\<open>sep.join(parts)\<close>\<close>

fun join :: "pystr \<Rightarrow> pystr list \<Rightarrow> pystr" where
  "join sep [] = []"
| "join sep [s] = s"
| "join sep (s # ss) = s @ sep @ join sep ss"

section \<open>The character database\<close>

record unidb =
  u_alnum :: "pychar \<Rightarrow> bool"            \<comment> \<open>\<open>str.isalnum\<close>\<close>
  u_decimal :: "pychar \<Rightarrow> int option"    \<comment> \<open>\<open>unicodedata.decimal\<close>, category Nd\<close>
  u_tolower :: "pychar \<Rightarrow> pychar"        \<comment> \<open>simple lower case, used by \<open>re.IGNORECASE\<close>\<close>
  u_toupper :: "pychar \<Rightarrow> pychar"        \<comment> \<open>simple upper case, used by \<open>re.IGNORECASE\<close>\<close>
  u_lower :: "pystr \<Rightarrow> pystr"            \<comment> \<open>\<open>str.lower\<close>\<close>
  u_nfkd :: "pystr \<Rightarrow> pystr"             \<comment> \<open>\<open>unicodedata.normalize("NFKD", _)\<close>\<close>
  u_combining :: "pychar \<Rightarrow> bool"        \<comment> \<open>\<open>unicodedata.combining(_) != 0\<close>\<close>

definition is_decimal :: "unidb \<Rightarrow> pychar \<Rightarrow> bool" where
  "is_decimal U c \<longleftrightarrow> u_decimal U c \<noteq> None"

definition is_ascii :: "pychar \<Rightarrow> bool" where
  "is_ascii c \<longleftrightarrow> 0 \<le> c \<and> c < 128"

definition ascii_upper :: "pychar \<Rightarrow> bool" where
  "ascii_upper c \<longleftrightarrow> 65 \<le> c \<and> c \<le> 90"

definition ascii_lower :: "pychar \<Rightarrow> bool" where
  "ascii_lower c \<longleftrightarrow> 97 \<le> c \<and> c \<le> 122"

definition ascii_digit :: "pychar \<Rightarrow> bool" where
  "ascii_digit c \<longleftrightarrow> 48 \<le> c \<and> c \<le> 57"

definition ascii_to_lower :: "pychar \<Rightarrow> pychar" where
  "ascii_to_lower c = (if ascii_upper c then c + 32 else c)"

definition ascii_to_upper :: "pychar \<Rightarrow> pychar" where
  "ascii_to_upper c = (if ascii_lower c then c - 32 else c)"

lemmas ascii_defs = is_ascii_def ascii_upper_def ascii_lower_def ascii_digit_def ascii_to_lower_def
  ascii_to_upper_def

locale unicode_db =
  fixes U :: unidb
  assumes alnum_ascii: "is_ascii c \<Longrightarrow>
      u_alnum U c \<longleftrightarrow> ascii_upper c \<or> ascii_lower c \<or> ascii_digit c"
    and decimal_ascii: "is_ascii c \<Longrightarrow>
      u_decimal U c = (if ascii_digit c then Some (c - 48) else None)"
    and decimal_range: "u_decimal U c = Some d \<Longrightarrow> 0 \<le> d \<and> d < 10"
    and decimal_alnum: "u_decimal U c = Some d \<Longrightarrow> u_alnum U c"
    and space_not_alnum: "is_space c \<Longrightarrow> \<not> u_alnum U c"
    and tolower_ascii: "is_ascii c \<Longrightarrow> u_tolower U c = ascii_to_lower c"
    and toupper_ascii: "is_ascii c \<Longrightarrow> u_toupper U c = ascii_to_upper c"
    and lower_ascii: "\<forall>c \<in> set s. is_ascii c \<Longrightarrow> u_lower U s = map ascii_to_lower s"
    and nfkd_ascii: "\<forall>c \<in> set s. is_ascii c \<Longrightarrow> u_nfkd U s = s"
    and combining_ascii: "is_ascii c \<Longrightarrow> \<not> u_combining U c"
begin

lemma decimal_not_space: "is_decimal U c \<Longrightarrow> \<not> is_space c"
  using decimal_alnum space_not_alnum by (auto simp: is_decimal_def)

lemma ascii_digit_decimal: "0 \<le> k \<Longrightarrow> k < 10 \<Longrightarrow> u_decimal U (48 + k) = Some k"
  by (simp add: decimal_ascii ascii_digit_def is_ascii_def)

lemma decimal_not_underscore: "u_decimal U 95 = None"
  by (simp add: decimal_ascii ascii_digit_def is_ascii_def)

end

section \<open>The Latin-1 part of the database\<close>

fun assoc :: "(pychar \<times> 'a) list \<Rightarrow> pychar \<Rightarrow> 'a option" where
  "assoc [] c = None"
| "assoc ((k, v) # kvs) c = (if c = k then Some v else assoc kvs c)"

definition latin1_decompositions :: "(pychar \<times> pystr) list" where
  "latin1_decompositions =
    [(160, [32]), (168, [32, 776]), (170, [97]), (175, [32, 772]), (178, [50]), (179, [51]),
     (180, [32, 769]), (181, [956]), (184, [32, 807]), (185, [49]), (186, [111]),
     (188, [49, 8260, 52]), (189, [49, 8260, 50]), (190, [51, 8260, 52]), (192, [65, 768]),
     (193, [65, 769]), (194, [65, 770]), (195, [65, 771]), (196, [65, 776]), (197, [65, 778]),
     (199, [67, 807]), (200, [69, 768]), (201, [69, 769]), (202, [69, 770]), (203, [69, 776]),
     (204, [73, 768]), (205, [73, 769]), (206, [73, 770]), (207, [73, 776]), (209, [78, 771]),
     (210, [79, 768]), (211, [79, 769]), (212, [79, 770]), (213, [79, 771]), (214, [79, 776]),
     (217, [85, 768]), (218, [85, 769]), (219, [85, 770]), (220, [85, 776]), (221, [89, 769]),
     (224, [97, 768]), (225, [97, 769]), (226, [97, 770]), (227, [97, 771]), (228, [97, 776]),
     (229, [97, 778]), (231, [99, 807]), (232, [101, 768]), (233, [101, 769]),
     (234, [101, 770]), (235, [101, 776]), (236, [105, 768]), (237, [105, 769]),
     (238, [105, 770]), (239, [105, 776]), (241, [110, 771]), (242, [111, 768]),
     (243, [111, 769]), (244, [111, 770]), (245, [111, 771]), (246, [111, 776]),
     (249, [117, 768]), (250, [117, 769]), (251, [117, 770]), (252, [117, 776]),
     (253, [121, 769]), (255, [121, 776])]"

definition latin1_decompose :: "pychar \<Rightarrow> pystr" where
  "latin1_decompose c =
     (if is_ascii c then [c]
      else case assoc latin1_decompositions c of Some d \<Rightarrow> d | None \<Rightarrow> [c])"

definition latin1_alnum :: "pychar \<Rightarrow> bool" where
  "latin1_alnum c \<longleftrightarrow> ascii_upper c \<or> ascii_lower c \<or> ascii_digit c \<or> c = 170 \<or> c = 178 \<or> c = 179 \<or>
     c = 181 \<or> c = 185 \<or> c = 186 \<or> (188 \<le> c \<and> c \<le> 190) \<or>
     (192 \<le> c \<and> c \<le> 255 \<and> c \<noteq> 215 \<and> c \<noteq> 247)"

definition latin1_tolower :: "pychar \<Rightarrow> pychar" where
  "latin1_tolower c =
     (if ascii_upper c \<or> (192 \<le> c \<and> c \<le> 222 \<and> c \<noteq> 215) then c + 32 else c)"

definition latin1_toupper :: "pychar \<Rightarrow> pychar" where
  "latin1_toupper c =
     (if ascii_lower c \<or> (224 \<le> c \<and> c \<le> 254 \<and> c \<noteq> 247) then c - 32
      else if c = 181 then 924 else if c = 255 then 376 else c)"

definition latin1_db :: unidb where
  "latin1_db = \<lparr>
     u_alnum = latin1_alnum,
     u_decimal = (\<lambda>c. if ascii_digit c then Some (c - 48) else None),
     u_tolower = latin1_tolower,
     u_toupper = latin1_toupper,
     u_lower = map latin1_tolower,
     u_nfkd = (\<lambda>s. concat (map latin1_decompose s)),
     u_combining = (\<lambda>c. 768 \<le> c \<and> c \<le> 879 \<and> c \<noteq> 847)\<rparr>"

lemma concat_map_single: "\<forall>c \<in> set s. f c = [c] \<Longrightarrow> concat (map f s) = s"
  by (induction s) auto

interpretation latin1: unicode_db latin1_db
proof unfold_locales
  fix s :: pystr
  assume "\<forall>c \<in> set s. is_ascii c"
  then show "u_nfkd latin1_db s = s"
    by (simp add: latin1_db_def latin1_decompose_def concat_map_single)
qed (auto simp: latin1_db_def latin1_alnum_def latin1_tolower_def latin1_toupper_def
      is_space_def ascii_defs split: if_splits)

section \<open>Integers as text\<close>

text \<open>
  \<open>int(s)\<close> for base 10: surrounding whitespace is dropped, an optional sign follows, then
  decimal digits of any script with single underscores between them; anything else is a
  \<open>ValueError\<close>.
\<close>

fun int_body :: "unidb \<Rightarrow> int \<Rightarrow> bool \<Rightarrow> pystr \<Rightarrow> int option" where
  "int_body U acc ok [] = (if ok then Some acc else None)"
| "int_body U acc ok (c # cs) =
     (case u_decimal U c of
        Some d \<Rightarrow> int_body U (10 * acc + d) True cs
      | None \<Rightarrow> if c = 95 \<and> ok then int_body U acc False cs else None)"

definition int_value_error :: exn where
  "int_value_error = ValueError (py ''invalid literal for int() with base 10'')"

definition py_int :: "unidb \<Rightarrow> pystr \<Rightarrow> exn + int" where
  "py_int U s =
     (let t = py_strip s;
          (neg, body) = (case t of
             [] \<Rightarrow> (False, [])
           | c # cs \<Rightarrow> if c = 45 then (True, cs) else if c = 43 then (False, cs) else (False, t))
      in case int_body U 0 False body of
           None \<Rightarrow> Inl int_value_error
         | Some n \<Rightarrow> Inr (if neg then - n else n))"

text \<open>The number a digit string denotes.\<close>

definition digits_value :: "unidb \<Rightarrow> pystr \<Rightarrow> int" where
  "digits_value U s = foldl (\<lambda>acc c. 10 * acc + the (u_decimal U c)) 0 s"

definition all_decimal :: "unidb \<Rightarrow> pystr \<Rightarrow> bool" where
  "all_decimal U s \<longleftrightarrow> (\<forall>c \<in> set s. is_decimal U c)"

lemma all_decimal_simps [simp]:
  "all_decimal U []"
  "all_decimal U (c # s) \<longleftrightarrow> is_decimal U c \<and> all_decimal U s"
  "all_decimal U (s @ t) \<longleftrightarrow> all_decimal U s \<and> all_decimal U t"
  by (auto simp: all_decimal_def)

lemma int_body_digits:
  "all_decimal U s \<Longrightarrow> s \<noteq> [] \<or> ok \<Longrightarrow>
     int_body U acc ok s = Some (foldl (\<lambda>acc c. 10 * acc + the (u_decimal U c)) acc s)"
  by (induction s arbitrary: acc ok) (auto simp: is_decimal_def)

lemma int_body_Some_chars:
  "int_body U acc ok s = Some n \<Longrightarrow> c \<in> set s \<Longrightarrow> is_decimal U c \<or> c = 95"
  by (induction s arbitrary: acc ok) (auto simp: is_decimal_def split: option.splits if_splits)

lemma int_body_None: "c \<in> set s \<Longrightarrow> \<not> is_decimal U c \<Longrightarrow> c \<noteq> 95 \<Longrightarrow> int_body U acc ok s = None"
  using int_body_Some_chars [of U acc ok s _ c] by (cases "int_body U acc ok s") auto

context unicode_db
begin

lemma py_int_unsigned:
  assumes "s \<noteq> []" and "is_decimal U (hd s)" and "\<not> is_space (last s)"
  shows "py_int U s =
    (case int_body U 0 False s of None \<Rightarrow> Inl int_value_error | Some n \<Rightarrow> Inr n)"
proof -
  obtain c cs where s: "s = c # cs" using assms(1) by (cases s) auto
  have "u_decimal U 45 = None" and "u_decimal U 43 = None"
    by (simp_all add: decimal_ascii ascii_defs)
  with assms(2) s have "c \<noteq> 45" "c \<noteq> 43" by (auto simp: is_decimal_def)
  moreover have "py_strip s = s"
    using assms decimal_not_space by (intro py_strip_ends) auto
  ultimately show ?thesis by (simp add: py_int_def s split: option.split)
qed

lemma py_int_digits: "all_decimal U s \<Longrightarrow> s \<noteq> [] \<Longrightarrow> py_int U s = Inr (digits_value U s)"
proof -
  assume s: "all_decimal U s" "s \<noteq> []"
  then have "is_decimal U (hd s)" and "\<not> is_space (last s)"
    using decimal_not_space [of "last s"] by (simp_all add: all_decimal_def)
  with s show ?thesis by (simp add: py_int_unsigned int_body_digits digits_value_def)
qed

end

text \<open>Decimal printing of an integer, as in an f-string.\<close>

function nat_text :: "int \<Rightarrow> pystr" where
  "nat_text n = (if n < 10 then [48 + n] else nat_text (n div 10) @ [48 + n mod 10])"
  by pat_completeness auto
termination
  by (relation "measure nat") auto

declare nat_text.simps [simp del]

definition int_text :: "int \<Rightarrow> pystr" where
  "int_text i = (if i < 0 then 45 # nat_text (- i) else nat_text i)"

lemma nat_text_digits: "0 \<le> n \<Longrightarrow> c \<in> set (nat_text n) \<Longrightarrow> ascii_digit c"
proof (induction n rule: nat_text.induct)
  case (1 n)
  show ?case
  proof (cases "n < 10")
    case True
    with "1.prems" show ?thesis by (simp add: nat_text.simps [of n] ascii_digit_def)
  next
    case False
    with "1" show ?thesis by (auto simp: nat_text.simps [of n] ascii_digit_def)
  qed
qed

section \<open>repr\<close>

definition hex_digit :: "int \<Rightarrow> pychar" where
  "hex_digit d = (if d < 10 then 48 + d else 87 + d)"

text \<open>\<open>hex_pad n k\<close>: the lowest \<open>n\<close> hexadecimal digits of \<open>k\<close>, most significant first.\<close>

fun hex_pad :: "nat \<Rightarrow> int \<Rightarrow> pystr" where
  "hex_pad 0 k = []"
| "hex_pad (Suc n) k = hex_pad n (k div 16) @ [hex_digit (k mod 16)]"

text \<open>
  \<open>repr\<close> of a string, for code points below 256 (what the program applies it to: its own
  pattern sources and group names). Quotes are single unless the text holds a single quote
  and no double quote.
\<close>

definition latin1_printable :: "pychar \<Rightarrow> bool" where
  "latin1_printable c \<longleftrightarrow> (32 \<le> c \<and> c \<le> 126) \<or> (161 \<le> c \<and> c \<noteq> 173)"

definition repr_char :: "pychar \<Rightarrow> pychar \<Rightarrow> pystr" where
  "repr_char q c =
     (if c = q \<or> c = 92 then [92, c]
      else if c = 9 then py [CHR 0x5C, CHR ''t'']
      else if c = 10 then py [CHR 0x5C, CHR ''n'']
      else if c = 13 then py [CHR 0x5C, CHR ''r'']
      else if latin1_printable c then [c]
      else [92, 120] @ hex_pad 2 c)"

definition py_repr :: "pystr \<Rightarrow> pystr" where
  "py_repr s =
     (let q = (if 39 \<in> set s \<and> 34 \<notin> set s then 34 else 39)
      in [q] @ concat (map (repr_char q) s) @ [q])"

end
