(* ===== verification/PyRegex.thy ===== *)
theory PyRegex
  imports PyText
begin

text \<open>
  The fragment of Python's \<open>re\<close> the program's patterns are written in.

  \<open>re\<close> is the syntax tree of a pattern and \<open>re_source\<close> prints it back in Python's notation,
  so that each pattern of the code can be compared with its source string. \<open>rmatch\<close> is the
  backtracking matcher: it lists, in the order \<open>re\<close> tries them (leftmost alternative first,
  quantifiers greedy), every way the pattern can match at a position, with the captured
  groups; \<open>re_match\<close>, \<open>re_search\<close> and \<open>re_findall\<close> are the three entry points the code uses.

  \<open>matches\<close> is the declarative reading of the same patterns as a relation between a pattern
  and the text before, inside and after a match. \<open>rmatch_iff\<close> shows that the matcher finds
  exactly the matches of the relation, \<open>re_search_iff\<close> that \<open>search\<close> succeeds exactly on the
  texts that contain one, \<open>re_search_SomeD\<close> that it returns a leftmost one.
\<close>

section \<open>Patterns\<close>

datatype cset =
    Lit pychar
  | AnyC
  | WordC
  | SpaceC
  | DigitC
  | SetC "(pychar \<times> pychar) list"

text \<open>
  \<open>Rep r lo (Some k)\<close> is \<open>r\<close> repeated at least \<open>lo\<close> and at most \<open>lo + k\<close> times,
  \<open>Rep r lo None\<close> without an upper bound.
\<close>

datatype re =
    Chr cset
  | Bol
  | WordB
  | Eps
  | Cat re re
  | Alt re re
  | Grp re
  | Cap nat re
  | Rep re nat "nat option"

abbreviation Opt :: "re \<Rightarrow> re" where "Opt r \<equiv> Rep r 0 (Some 1)"
abbreviation Plus :: "re \<Rightarrow> re" where "Plus r \<equiv> Rep r 1 None"
abbreviation Star :: "re \<Rightarrow> re" where "Star r \<equiv> Rep r 0 None"
abbreviation Times :: "re \<Rightarrow> nat \<Rightarrow> re" where "Times r n \<equiv> Rep r n (Some 0)"

fun cats :: "re list \<Rightarrow> re" where
  "cats [] = Eps"
| "cats [r] = r"
| "cats (r # rs) = Cat r (cats rs)"

fun alts :: "re list \<Rightarrow> re" where
  "alts [] = Eps"
| "alts [r] = r"
| "alts (r # rs) = Alt r (alts rs)"

definition lits :: "pystr \<Rightarrow> re" where
  "lits s = cats (map (\<lambda>c. Chr (Lit c)) s)"

subsection \<open>Printing a pattern\<close>

definition re_meta :: "pychar \<Rightarrow> bool" where
  "re_meta c \<longleftrightarrow> c \<in> set (py ''.^$*+?{}[]|()'') \<or> c = 92"

fun cset_source :: "cset \<Rightarrow> pystr" where
  "cset_source (Lit c) = (if re_meta c then [92, c] else [c])"
| "cset_source AnyC = py ''.''"
| "cset_source WordC = 92 # py ''w''"
| "cset_source SpaceC = 92 # py ''s''"
| "cset_source DigitC = 92 # py ''d''"
| "cset_source (SetC rs) =
     py ''['' @ concat (map (\<lambda>(a, b). if a = b then [a] else [a, 45, b]) rs) @ py '']''"

fun rep_source :: "nat \<Rightarrow> nat option \<Rightarrow> pystr" where
  "rep_source lo None = (if lo = 0 then py ''*'' else if lo = 1 then py ''+''
     else py ''{'' @ nat_text (int lo) @ py '',}'')"
| "rep_source lo (Some k) = (if lo = 0 \<and> k = 1 then py ''?''
     else if k = 0 then py ''{'' @ nat_text (int lo) @ py ''}''
     else py ''{'' @ nat_text (int lo) @ py '','' @ nat_text (int (lo + k)) @ py ''}'')"

primrec re_source :: "re \<Rightarrow> pystr" where
  "re_source (Chr c) = cset_source c"
| "re_source Bol = py ''^''"
| "re_source WordB = 92 # py ''b''"
| "re_source Eps = []"
| "re_source (Cat r s) = re_source r @ re_source s"
| "re_source (Alt r s) = re_source r @ py ''|'' @ re_source s"
| "re_source (Grp r) = py ''(?:'' @ re_source r @ py '')''"
| "re_source (Cap n r) = py ''('' @ re_source r @ py '')''"
| "re_source (Rep r lo ex) = re_source r @ rep_source lo ex"

section \<open>Characters\<close>

text \<open>
  With \<open>re.IGNORECASE\<close> a cased literal matches the characters with the same simple lower
  case, and for the letters i and s also the two whose case mappings are irregular
  (dotless i, long s). A set is compared through lower case as soon as it holds a cased
  character.
\<close>

definition sre_extra_cases :: "pychar \<Rightarrow> pychar list" where
  "sre_extra_cases c =
     (if c = 105 then [305] else if c = 115 then [383]
      else if c = 305 then [105] else if c = 383 then [115] else [])"

definition cased :: "unidb \<Rightarrow> pychar \<Rightarrow> bool" where
  "cased U c \<longleftrightarrow> u_tolower U c \<noteq> c \<or> u_toupper U c \<noteq> c"

definition icase_eq :: "unidb \<Rightarrow> pychar \<Rightarrow> pychar \<Rightarrow> bool" where
  "icase_eq U c x \<longleftrightarrow>
     (let lo = u_tolower U c; y = u_tolower U x in y = lo \<or> y \<in> set (sre_extra_cases lo))"

definition is_word :: "unidb \<Rightarrow> pychar \<Rightarrow> bool" where
  "is_word U c \<longleftrightarrow> u_alnum U c \<or> c = 95"

definition range_ex :: "(pychar \<Rightarrow> bool) \<Rightarrow> (pychar \<times> pychar) list \<Rightarrow> bool" where
  "range_ex P rs = list_ex (\<lambda>(a, b). list_ex P [a..b]) rs"

fun cset_ok :: "unidb \<Rightarrow> bool \<Rightarrow> cset \<Rightarrow> pychar \<Rightarrow> bool" where
  "cset_ok U ic (Lit c) x = (if ic \<and> cased U c then icase_eq U c x else x = c)"
| "cset_ok U ic AnyC x = (x \<noteq> 10)"
| "cset_ok U ic WordC x = is_word U x"
| "cset_ok U ic SpaceC x = is_space x"
| "cset_ok U ic DigitC x = is_decimal U x"
| "cset_ok U ic (SetC rs) x =
     (if ic \<and> range_ex (cased U) rs then range_ex (\<lambda>c. icase_eq U c x) rs
      else list_ex (\<lambda>(a, b). a \<le> x \<and> x \<le> b) rs)"

definition word_opt :: "unidb \<Rightarrow> pychar option \<Rightarrow> bool" where
  "word_opt U p = (case p of None \<Rightarrow> False | Some c \<Rightarrow> is_word U c)"

definition head_opt :: "pystr \<Rightarrow> pychar option" where
  "head_opt s = (case s of [] \<Rightarrow> None | c # _ \<Rightarrow> Some c)"

definition boundary :: "unidb \<Rightarrow> pychar option \<Rightarrow> pystr \<Rightarrow> bool" where
  "boundary U p s \<longleftrightarrow> word_opt U p \<noteq> word_opt U (head_opt s)"

lemma word_opt_simps [simp]: "word_opt U None = False" "word_opt U (Some c) = is_word U c"
  by (simp_all add: word_opt_def)

lemma head_opt_simps [simp]: "head_opt [] = None" "head_opt (c # s) = Some c"
  by (simp_all add: head_opt_def)

section \<open>The backtracking matcher\<close>

text \<open>
  A position is the character before it (\<open>None\<close> at the start of the text), the text that
  is left, and the groups captured so far, newest first.
\<close>

type_synonym groups = "(nat \<times> pystr) list"
type_synonym rpos = "pychar option \<times> pystr \<times> groups"

fun char_step :: "(pychar \<Rightarrow> bool) \<Rightarrow> rpos \<Rightarrow> rpos list" where
  "char_step P (p, [], g) = []"
| "char_step P (p, x # s, g) = (if P x then [(Some x, s, g)] else [])"

text \<open>\<open>lo\<close> mandatory rep_rounds, then up to \<open>ex\<close> greedy ones, which must consume text.\<close>

fun rep_rounds :: "(rpos \<Rightarrow> rpos list) \<Rightarrow> nat \<Rightarrow> nat \<Rightarrow> rpos \<Rightarrow> rpos list" where
  "rep_rounds f (Suc lo) ex st = concat (map (rep_rounds f lo ex) (f st))"
| "rep_rounds f 0 (Suc ex) st =
     concat (map (rep_rounds f 0 ex)
       (filter (\<lambda>st'. length (fst (snd st')) < length (fst (snd st))) (f st))) @ [st]"
| "rep_rounds f 0 0 st = [st]"

definition capture :: "nat \<Rightarrow> rpos \<Rightarrow> rpos \<Rightarrow> rpos" where
  "capture n st st' =
     (case (st, st') of ((p, s, g), (p', s', g')) \<Rightarrow>
        (p', s', (n, take (length s - length s') s) # g'))"

primrec rmatch :: "unidb \<Rightarrow> bool \<Rightarrow> re \<Rightarrow> rpos \<Rightarrow> rpos list" where
  "rmatch U ic (Chr c) st = char_step (cset_ok U ic c) st"
| "rmatch U ic Bol st = (if fst st = None then [st] else [])"
| "rmatch U ic WordB st = (if boundary U (fst st) (fst (snd st)) then [st] else [])"
| "rmatch U ic Eps st = [st]"
| "rmatch U ic (Cat r s) st = concat (map (rmatch U ic s) (rmatch U ic r st))"
| "rmatch U ic (Alt r s) st = rmatch U ic r st @ rmatch U ic s st"
| "rmatch U ic (Grp r) st = rmatch U ic r st"
| "rmatch U ic (Cap n r) st = map (capture n st) (rmatch U ic r st)"
| "rmatch U ic (Rep r lo ex) st =
     rep_rounds (rmatch U ic r) lo (case ex of Some k \<Rightarrow> k | None \<Rightarrow> length (fst (snd st))) st"

text \<open>\<open>pattern.match(s)\<close> and \<open>pattern.search(s)\<close>: the position after the first match found.\<close>

definition first_match :: "rpos list \<Rightarrow> rpos option" where
  "first_match sts = (case sts of [] \<Rightarrow> None | st # _ \<Rightarrow> Some st)"

definition re_match :: "unidb \<Rightarrow> bool \<Rightarrow> re \<Rightarrow> pystr \<Rightarrow> rpos option" where
  "re_match U ic r s = first_match (rmatch U ic r (None, s, []))"

fun search_from :: "unidb \<Rightarrow> bool \<Rightarrow> re \<Rightarrow> pychar option \<Rightarrow> pystr \<Rightarrow> rpos option" where
  "search_from U ic r p [] = first_match (rmatch U ic r (p, [], []))"
| "search_from U ic r p (x # s) =
     (case first_match (rmatch U ic r (p, x # s, [])) of
        Some st \<Rightarrow> Some st
      | None \<Rightarrow> search_from U ic r (Some x) s)"

definition re_search :: "unidb \<Rightarrow> bool \<Rightarrow> re \<Rightarrow> pystr \<Rightarrow> rpos option" where
  "re_search U ic r s = search_from U ic r None s"

text \<open>\<open>match.group(n)\<close>: the last capture of group \<open>n\<close>.\<close>

definition re_group :: "rpos \<Rightarrow> nat \<Rightarrow> pystr option" where
  "re_group st n = map_of (snd (snd st)) n"

section \<open>The declarative reading\<close>

definition after :: "pychar option \<Rightarrow> pystr \<Rightarrow> pychar option" where
  "after p w = (if w = [] then p else Some (last w))"

lemma after_simps [simp]:
  "after p [] = p"
  "after p (x # w) = after (Some x) w"
  "after p (v @ w) = after (after p v) w"
  by (auto simp: after_def)

text \<open>
  \<open>matches U ic r p g w q g'\<close>: after the character \<open>p\<close>, with the groups \<open>g\<close>, the pattern
  matches the text \<open>w\<close> when the text \<open>q\<close> follows, and the groups are then \<open>g'\<close>.
\<close>

inductive matches ::
  "unidb \<Rightarrow> bool \<Rightarrow> re \<Rightarrow> pychar option \<Rightarrow> groups \<Rightarrow> pystr \<Rightarrow> pystr \<Rightarrow> groups \<Rightarrow> bool"
  for U ic where
  m_char: "cset_ok U ic c x \<Longrightarrow> matches U ic (Chr c) p g [x] q g"
| m_bol: "p = None \<Longrightarrow> matches U ic Bol p g [] q g"
| m_wordb: "boundary U p q \<Longrightarrow> matches U ic WordB p g [] q g"
| m_eps: "matches U ic Eps p g [] q g"
| m_cat: "matches U ic r p g v (w @ q) g1 \<Longrightarrow> matches U ic s (after p v) g1 w q g' \<Longrightarrow>
    u = v @ w \<Longrightarrow> matches U ic (Cat r s) p g u q g'"
| m_alt1: "matches U ic r p g w q g' \<Longrightarrow> matches U ic (Alt r s) p g w q g'"
| m_alt2: "matches U ic s p g w q g' \<Longrightarrow> matches U ic (Alt r s) p g w q g'"
| m_grp: "matches U ic r p g w q g' \<Longrightarrow> matches U ic (Grp r) p g w q g'"
| m_cap: "matches U ic r p g w q g' \<Longrightarrow> matches U ic (Cap n r) p g w q ((n, w) # g')"
| m_rep_must: "matches U ic r p g v (w @ q) g1 \<Longrightarrow>
    matches U ic (Rep r lo ex) (after p v) g1 w q g' \<Longrightarrow> u = v @ w \<Longrightarrow>
    matches U ic (Rep r (Suc lo) ex) p g u q g'"
| m_rep_done: "matches U ic (Rep r 0 ex) p g [] q g"
| m_rep_more: "matches U ic r p g v (w @ q) g1 \<Longrightarrow> v \<noteq> [] \<Longrightarrow> ex \<noteq> Some 0 \<Longrightarrow>
    matches U ic (Rep r 0 (map_option (\<lambda>k. k - 1) ex)) (after p v) g1 w q g' \<Longrightarrow> u = v @ w \<Longrightarrow>
    matches U ic (Rep r 0 ex) p g u q g'"

inductive_simps matches_simps:
  "matches U ic (Chr c) p g w q g'"
  "matches U ic Bol p g w q g'"
  "matches U ic WordB p g w q g'"
  "matches U ic Eps p g w q g'"
  "matches U ic (Cat r s) p g w q g'"
  "matches U ic (Alt r s) p g w q g'"
  "matches U ic (Grp r) p g w q g'"
  "matches U ic (Cap n r) p g w q g'"
  "matches U ic (Rep r (Suc lo) ex) p g w q g'"
  "matches U ic (Rep r 0 (Some 0)) p g w q g'"
  "matches U ic (Rep r 0 (Some (Suc k))) p g w q g'"
  "matches U ic (Rep r 0 None) p g w q g'"

text \<open>The positions a set of declarative matches ends in.\<close>

definition ends :: "unidb \<Rightarrow> bool \<Rightarrow> re \<Rightarrow> rpos \<Rightarrow> rpos \<Rightarrow> bool" where
  "ends U ic r st st' \<longleftrightarrow>
     (case st of (p, s, g) \<Rightarrow>
       \<exists>w q g'. s = w @ q \<and> st' = (after p w, q, g') \<and> matches U ic r p g w q g')"

lemma endsI:
  "matches U ic r p g w q g' \<Longrightarrow> ends U ic r (p, w @ q, g) (after p w, q, g')"
  by (auto simp: ends_def)

lemma endsE:
  assumes "ends U ic r (p, s, g) st'"
  obtains w q g' where "s = w @ q" "st' = (after p w, q, g')" "matches U ic r p g w q g'"
  using assms by (auto simp: ends_def)

subsection \<open>The matcher finds exactly the declarative matches\<close>

lemma rounds_must:
  assumes f: "\<And>st st'. st' \<in> set (f st) \<longleftrightarrow> ends U ic r st st'"
    and zero: "\<And>st st'. length (fst (snd st)) \<le> n \<Longrightarrow>
      st' \<in> set (rep_rounds f 0 m st) \<longleftrightarrow> ends U ic (Rep r 0 ex) st st'"
  shows "length s \<le> n \<Longrightarrow>
    st' \<in> set (rep_rounds f lo m (p, s, g)) \<longleftrightarrow> ends U ic (Rep r lo ex) (p, s, g) st'"
proof (induction lo arbitrary: p s g st')
  case 0
  then show ?case by (simp add: zero)
next
  case (Suc lo)
  show ?case
  proof
    assume "st' \<in> set (rep_rounds f (Suc lo) m (p, s, g))"
    then obtain st1 where "ends U ic r (p, s, g) st1" and 2: "st' \<in> set (rep_rounds f lo m st1)"
      by (auto simp: f)
    then obtain v q1 g1 where s: "s = v @ q1" and st1: "st1 = (after p v, q1, g1)"
      and 1: "matches U ic r p g v q1 g1" by (auto elim: endsE)
    from s Suc.prems have "length q1 \<le> n" by simp
    with 2 st1 Suc.IH have "ends U ic (Rep r lo ex) (after p v, q1, g1) st'" by blast
    then obtain w q g' where "q1 = w @ q" "st' = (after (after p v) w, q, g')"
      "matches U ic (Rep r lo ex) (after p v) g1 w q g'" by (auto elim: endsE)
    with s 1 endsI [OF m_rep_must [of U ic r p g v w q g1 lo ex g']]
    show "ends U ic (Rep r (Suc lo) ex) (p, s, g) st'" by auto
  next
    assume "ends U ic (Rep r (Suc lo) ex) (p, s, g) st'"
    then obtain v w q g1 g' where s: "s = v @ w @ q" and st': "st' = (after (after p v) w, q, g')"
      and 1: "matches U ic r p g v (w @ q) g1"
      and 2: "matches U ic (Rep r lo ex) (after p v) g1 w q g'"
      by (auto simp: ends_def matches_simps)
    from s 1 have a: "(after p v, w @ q, g1) \<in> set (f (p, s, g))"
      by (auto simp: f intro: endsI)
    from s Suc.prems have "length (w @ q) \<le> n" by simp
    with Suc.IH endsI [OF 2] st' have "st' \<in> set (rep_rounds f lo m (after p v, w @ q, g1))" by blast
    with a show "st' \<in> set (rep_rounds f (Suc lo) m (p, s, g))" by force
  qed
qed

lemma ends_rep_step:
  "ends U ic (Rep r 0 ex) st st' \<longleftrightarrow> st' = st \<or>
     ex \<noteq> Some 0 \<and> (\<exists>st1. ends U ic r st st1 \<and> length (fst (snd st1)) < length (fst (snd st)) \<and>
       ends U ic (Rep r 0 (map_option (\<lambda>k. k - 1) ex)) st1 st')" (is "?L \<longleftrightarrow> ?R")
proof
  assume ?L
  then obtain p s g w q g' where st: "st = (p, s, g)" "s = w @ q" "st' = (after p w, q, g')"
    and m: "matches U ic (Rep r 0 ex) p g w q g'"
    by (cases st) (auto elim: endsE)
  from m show ?R
  proof cases
    case m_rep_done
    with st show ?thesis by simp
  next
    case (m_rep_more v w' g1)
    have 1: "ends U ic r st (after p v, w' @ q, g1)"
      using endsI [OF m_rep_more(1)] m_rep_more(5) st by simp
    have 2: "ends U ic (Rep r 0 (map_option (\<lambda>k. k - 1) ex)) (after p v, w' @ q, g1) st'"
      using endsI [OF m_rep_more(4)] m_rep_more(5) st by simp
    have 3: "length (w' @ q) < length s"
      using st m_rep_more(2,5) by simp
    from 1 2 3 m_rep_more(3) st show ?thesis
      by (intro disjI2 conjI exI [of _ "(after p v, w' @ q, g1)"]) simp_all
  qed
next
  assume ?R
  then show ?L
  proof (elim disjE conjE exE)
    assume "st' = st"
    then show ?L
      by (cases st) (auto simp: ends_def intro: m_rep_done)
  next
    fix st1
    assume ex: "ex \<noteq> Some 0" and 1: "ends U ic r st st1"
      and len: "length (fst (snd st1)) < length (fst (snd st))"
      and 2: "ends U ic (Rep r 0 (map_option (\<lambda>k. k - 1) ex)) st1 st'"
    obtain p s g where st: "st = (p, s, g)" by (cases st)
    from 1 st obtain v q1 g1 where v: "s = v @ q1" "st1 = (after p v, q1, g1)"
      "matches U ic r p g v q1 g1" by (auto elim: endsE)
    from 2 v obtain w q g' where w: "q1 = w @ q" "st' = (after (after p v) w, q, g')"
      "matches U ic (Rep r 0 (map_option (\<lambda>k. k - 1) ex)) (after p v) g1 w q g'"
      by (auto elim: endsE)
    from len st v have "v \<noteq> []" by auto
    with ex v w have "matches U ic (Rep r 0 ex) p g (v @ w) q g'"
      by (auto intro: m_rep_more)
    from endsI [OF this] v w st show ?L by simp
  qed
qed

lemma rounds_bounded:
  assumes f: "\<And>st st'. st' \<in> set (f st) \<longleftrightarrow> ends U ic r st st'"
  shows "st' \<in> set (rep_rounds f 0 k st) \<longleftrightarrow> ends U ic (Rep r 0 (Some k)) st st'"
proof (induction k arbitrary: st st')
  case 0
  show ?case by (subst ends_rep_step) simp
next
  case (Suc k)
  show ?case by (subst ends_rep_step) (auto simp: f Suc)
qed

lemma rounds_unbounded:
  assumes f: "\<And>st st'. st' \<in> set (f st) \<longleftrightarrow> ends U ic r st st'"
  shows "length (fst (snd st)) \<le> n \<Longrightarrow>
    st' \<in> set (rep_rounds f 0 n st) \<longleftrightarrow> ends U ic (Rep r 0 None) st st'"
proof (induction n arbitrary: st st')
  case 0
  then show ?case by (subst ends_rep_step) simp
next
  case (Suc n)
  have IH: "st' \<in> set (rep_rounds f 0 n st1) \<longleftrightarrow> ends U ic (Rep r 0 None) st1 st'"
    if "length (fst (snd st1)) < length (fst (snd st))" for st1
    using that Suc by simp
  show ?case by (subst ends_rep_step) (auto simp: f IH)
qed

lemma ends_cat: "ends U ic (Cat r s) st st' \<longleftrightarrow> (\<exists>st1. ends U ic r st st1 \<and> ends U ic s st1 st')"
proof
  assume "ends U ic (Cat r s) st st'"
  then obtain p g v w q g1 g' where st: "st = (p, v @ w @ q, g)"
    and st': "st' = (after (after p v) w, q, g')" and 1: "matches U ic r p g v (w @ q) g1"
    and 2: "matches U ic s (after p v) g1 w q g'"
    by (cases st) (auto simp: matches_simps elim!: endsE)
  from endsI [OF 1] endsI [OF 2] st st'
  show "\<exists>st1. ends U ic r st st1 \<and> ends U ic s st1 st'" by blast
next
  assume "\<exists>st1. ends U ic r st st1 \<and> ends U ic s st1 st'"
  then obtain st1 where 1: "ends U ic r st st1" and 2: "ends U ic s st1 st'" by blast
  obtain p u g where st: "st = (p, u, g)" by (cases st)
  from 1 st obtain v q1 g1 where v: "u = v @ q1" "st1 = (after p v, q1, g1)"
    "matches U ic r p g v q1 g1" by (auto elim: endsE)
  from 2 v obtain w q g' where w: "q1 = w @ q" "st' = (after (after p v) w, q, g')"
    "matches U ic s (after p v) g1 w q g'" by (auto elim: endsE)
  from v w have "matches U ic (Cat r s) p g (v @ w) q g'" by (auto intro: m_cat)
  from endsI [OF this] v w st show "ends U ic (Cat r s) st st'" by simp
qed

lemma ends_cap: "ends U ic (Cap n r) st st' \<longleftrightarrow> (\<exists>st1. ends U ic r st st1 \<and> st' = capture n st st1)"
  by (cases st) (auto simp: ends_def matches_simps capture_def)

lemma ends_chr: "ends U ic (Chr c) st st' \<longleftrightarrow> st' \<in> set (char_step (cset_ok U ic c) st)"
  by (cases "(cset_ok U ic c, st)" rule: char_step.cases)
    (auto simp: ends_def matches_simps Cons_eq_append_conv)

theorem rmatch_iff: "st' \<in> set (rmatch U ic r st) \<longleftrightarrow> ends U ic r st st'"
proof (induction r arbitrary: st st')
  case (Rep r lo ex)
  obtain p s g where st: "st = (p, s, g)" by (cases st)
  show ?case
    using rounds_must [where n = "length s", OF Rep rounds_unbounded [OF Rep]]
      rounds_must [where n = "length s", OF Rep rounds_bounded [OF Rep]]
    by (cases ex) (simp_all add: st)
qed (auto simp: ends_cat ends_cap ends_chr, auto simp: ends_def matches_simps split: prod.splits)

section \<open>Searching\<close>

lemma first_match_simps [simp]:
  "first_match [] = None"
  "first_match (st # sts) = Some st"
  by (simp_all add: first_match_def)

lemma first_match_None_iff: "first_match sts = None \<longleftrightarrow> set sts = {}"
  by (cases sts) simp_all

lemma first_match_SomeD: "first_match sts = Some st \<Longrightarrow> st \<in> set sts"
  by (cases sts) simp_all

lemma first_rmatch_None_iff:
  "first_match (rmatch U ic r (p, s, g)) = None \<longleftrightarrow>
     (\<nexists>w q g'. s = w @ q \<and> matches U ic r p g w q g')"
proof -
  have "first_match (rmatch U ic r (p, s, g)) = None \<longleftrightarrow> (\<nexists>st'. ends U ic r (p, s, g) st')"
    unfolding first_match_None_iff rmatch_iff [symmetric] by (simp only: ex_in_conv not_not)
  then show ?thesis by (auto simp: ends_def)
qed

lemma first_rmatch_SomeD:
  assumes "first_match (rmatch U ic r (p, s, g)) = Some (p', q, g')"
  obtains w where "s = w @ q" "p' = after p w" "matches U ic r p g w q g'"
  using first_match_SomeD [OF assms] by (auto simp: rmatch_iff ends_def)

lemma search_from_SomeD:
  "search_from U ic r p s = Some (p', q, g') \<Longrightarrow>
     \<exists>a w. s = a @ w @ q \<and> p' = after p (a @ w) \<and> matches U ic r (after p a) [] w q g' \<and>
       (\<forall>a1 w1 q1 g1. s = a1 @ w1 @ q1 \<and> matches U ic r (after p a1) [] w1 q1 g1 \<longrightarrow>
          length a \<le> length a1)"
proof (induction s arbitrary: p)
  case Nil
  then show ?case by (auto elim!: first_rmatch_SomeD intro!: exI [of _ "[]"])
next
  case (Cons x s)
  show ?case
  proof (cases "first_match (rmatch U ic r (p, x # s, []))")
    case (Some st)
    with Cons.prems have "first_match (rmatch U ic r (p, x # s, [])) = Some (p', q, g')" by simp
    then obtain w where "x # s = [] @ w @ q" "p' = after p ([] @ w)"
      "matches U ic r (after p []) [] w q g'"
      by (auto elim: first_rmatch_SomeD)
    then show ?thesis
      by (intro exI [of _ "[]"] exI [of _ w]) simp
  next
    case None
    with Cons.prems have "search_from U ic r (Some x) s = Some (p', q, g')" by simp
    from Cons.IH [OF this] obtain a w where 1: "s = a @ w @ q"
      "p' = after (Some x) (a @ w)" "matches U ic r (after (Some x) a) [] w q g'"
      and least: "\<And>a1 w1 q1 g1. s = a1 @ w1 @ q1 \<Longrightarrow>
        matches U ic r (after (Some x) a1) [] w1 q1 g1 \<Longrightarrow> length a \<le> length a1"
      by metis
    have "length (x # a) \<le> length a1"
      if s1: "x # s = a1 @ w1 @ q1" and m1: "matches U ic r (after p a1) [] w1 q1 g1" for a1 w1 q1 g1
    proof (cases a1)
      case Nil
      with that None show ?thesis by (auto simp: first_rmatch_None_iff)
    next
      case (Cons y a2)
      with that least [of a2 w1 q1 g1] show ?thesis by simp
    qed
    with 1 show ?thesis by (intro exI [of _ "x # a"] exI [of _ w]) auto
  qed
qed

lemma search_from_None_iff:
  "search_from U ic r p s = None \<longleftrightarrow>
     (\<nexists>a w q g'. s = a @ w @ q \<and> matches U ic r (after p a) [] w q g')"
proof (induction s arbitrary: p)
  case Nil
  show ?case by (auto simp: first_rmatch_None_iff)
next
  case (Cons x s)
  have "(\<exists>a w q g'. x # s = a @ w @ q \<and> matches U ic r (after p a) [] w q g') \<longleftrightarrow>
     (\<exists>w q g'. x # s = w @ q \<and> matches U ic r p [] w q g') \<or>
     (\<exists>a w q g'. s = a @ w @ q \<and> matches U ic r (after (Some x) a) [] w q g')"
    (is "?L \<longleftrightarrow> ?A \<or> ?B")
  proof
    assume ?L
    then obtain a w q g' where h: "x # s = a @ w @ q" "matches U ic r (after p a) [] w q g'"
      by blast
    show "?A \<or> ?B"
    proof (cases a)
      case Nil
      with h have "x # s = w @ q \<and> matches U ic r p [] w q g'" by simp
      then show ?thesis by blast
    next
      case (Cons y a')
      with h have "s = a' @ w @ q \<and> matches U ic r (after (Some x) a') [] w q g'" by simp
      then show ?thesis by blast
    qed
  next
    assume "?A \<or> ?B"
    then show ?L
    proof
      assume ?A
      then obtain w q g' where "x # s = [] @ w @ q \<and> matches U ic r (after p []) [] w q g'" by auto
      then show ?L by blast
    next
      assume ?B
      then obtain a w q g'
        where "x # s = (x # a) @ w @ q \<and> matches U ic r (after p (x # a)) [] w q g'" by auto
      then show ?L by blast
    qed
  qed
  moreover have "search_from U ic r p (x # s) = None \<longleftrightarrow>
     first_match (rmatch U ic r (p, x # s, [])) = None \<and> search_from U ic r (Some x) s = None"
    by (simp split: option.split)
  moreover have "first_match (rmatch U ic r (p, x # s, [])) = None \<longleftrightarrow>
     \<not> (\<exists>w q g'. x # s = w @ q \<and> matches U ic r p [] w q g')"
    by (rule first_rmatch_None_iff)
  moreover note Cons [of "Some x"]
  ultimately show ?case by argo
qed

definition occurs :: "unidb \<Rightarrow> bool \<Rightarrow> re \<Rightarrow> pystr \<Rightarrow> bool" where
  "occurs U ic r s \<longleftrightarrow> (\<exists>a w q g. s = a @ w @ q \<and> matches U ic r (after None a) [] w q g)"

theorem re_search_iff: "re_search U ic r s \<noteq> None \<longleftrightarrow> occurs U ic r s"
  using search_from_None_iff [of U ic r None s] unfolding re_search_def occurs_def by argo

lemma re_search_None_iff: "re_search U ic r s = None \<longleftrightarrow> \<not> occurs U ic r s"
  using re_search_iff [of U ic r s] by argo

theorem re_search_SomeD:
  assumes "re_search U ic r s = Some (p', q, g')"
  obtains a w where "s = a @ w @ q" "matches U ic r (after None a) [] w q g'"
    and "\<And>a1 w1 q1 g1. s = a1 @ w1 @ q1 \<Longrightarrow> matches U ic r (after None a1) [] w1 q1 g1 \<Longrightarrow>
      length a \<le> length a1"
proof -
  from search_from_SomeD [OF assms [unfolded re_search_def]] obtain a w
    where 1: "s = a @ w @ q" and 2: "matches U ic r (after None a) [] w q g'"
      and 3: "\<forall>a1 w1 q1 g1. s = a1 @ w1 @ q1 \<and> matches U ic r (after None a1) [] w1 q1 g1 \<longrightarrow>
        length a \<le> length a1" by (elim exE conjE)
  show thesis by (rule that [OF 1 2]) (use 3 in blast)
qed

lemma re_match_iff:
  "re_match U ic r s \<noteq> None \<longleftrightarrow> (\<exists>w q g'. s = w @ q \<and> matches U ic r None [] w q g')"
  unfolding re_match_def first_rmatch_None_iff by simp

section \<open>Derived matching rules\<close>

lemma matches_cat_chr:
  "matches U ic (Cat (Chr c) r) p g w q g' \<longleftrightarrow>
     (\<exists>z zs. w = z # zs \<and> cset_ok U ic c z \<and> matches U ic r (Some z) g zs q g')"
proof
  assume "matches U ic (Cat (Chr c) r) p g w q g'"
  then show "\<exists>z zs. w = z # zs \<and> cset_ok U ic c z \<and> matches U ic r (Some z) g zs q g'"
    by (auto simp: matches_simps simp del: cset_ok.simps)
next
  assume "\<exists>z zs. w = z # zs \<and> cset_ok U ic c z \<and> matches U ic r (Some z) g zs q g'"
  then obtain z zs where "w = [z] @ zs" "cset_ok U ic c z"
    "matches U ic r (after p [z]) g zs q g'" by auto
  then show "matches U ic (Cat (Chr c) r) p g w q g'" by (blast intro: m_cat m_char)
qed

lemma matches_lits:
  "matches U ic (lits u) p g w q g' \<longleftrightarrow> g' = g \<and> list_all2 (\<lambda>c. cset_ok U ic (Lit c)) u w"
proof (induction u arbitrary: p g w)
  case Nil
  show ?case by (auto simp: lits_def matches_simps)
next
  case (Cons c u)
  show ?case
  proof (cases u)
    case Nil
    then show ?thesis
      by (auto simp: lits_def matches_simps list_all2_Cons1 simp del: cset_ok.simps)
  next
    case (Cons d v)
    then have "lits (c # u) = Cat (Chr (Lit c)) (lits u)" by (simp add: lits_def)
    then show ?thesis
      by (auto simp: matches_cat_chr Cons.IH list_all2_Cons1 simp del: cset_ok.simps)
  qed
qed

text \<open>A pattern made of character classes only sees a text through those classes.\<close>

primrec csets :: "re \<Rightarrow> cset set" where
  "csets (Chr c) = {c}"
| "csets Bol = {}"
| "csets WordB = {WordC}"
| "csets Eps = {}"
| "csets (Cat r s) = csets r \<union> csets s"
| "csets (Alt r s) = csets r \<union> csets s"
| "csets (Grp r) = csets r"
| "csets (Cap n r) = csets r"
| "csets (Rep r lo ex) = csets r"

lemma after_rel: "rel_option R p p' \<Longrightarrow> list_all2 R w w' \<Longrightarrow> rel_option R (after p w) (after p' w')"
proof -
  assume p: "rel_option R p p'" and w: "list_all2 R w w'"
  from w p show ?thesis
    by (induction arbitrary: p p' rule: list_all2_induct) auto
qed

lemma matches_respects:
  assumes "matches U ic r p g w q g'"
    and "\<And>c x y. c \<in> csets r \<Longrightarrow> R x y \<Longrightarrow> cset_ok U ic c x = cset_ok U ic c y"
    and "rel_option R p p'" and "list_all2 R w w'" and "list_all2 R q q'"
  shows "\<exists>h'. matches U ic r p' h w' q' h'"
  using assms
proof (induction arbitrary: p' h w' q' rule: matches.induct)
  case (m_char c x p g q)
  from m_char.prems(3) obtain y where y: "w' = [y]" "R x y" by (auto simp: list_all2_Cons1)
  with m_char.prems(1) [of c x y] m_char.hyps have "cset_ok U ic c y" by simp
  with y show ?case by (auto intro: matches.m_char)
next
  case (m_wordb p q)
  have "word_opt U p = word_opt U p'"
    using m_wordb.prems(2) m_wordb.prems(1) [of WordC] by (cases p; cases p') auto
  moreover have "word_opt U (head_opt q) = word_opt U (head_opt q')"
    using m_wordb.prems(4) m_wordb.prems(1) [of WordC] by (cases q; cases q') auto
  ultimately show ?case
    using m_wordb by (auto simp: boundary_def intro!: matches.m_wordb exI)
next
  case (m_cat r p g v w q g1 s g' u)
  from m_cat.prems(3) m_cat.hyps(3) obtain v' z' where u': "w' = v' @ z'" "list_all2 R v v'"
    "list_all2 R w z'" by (auto simp: list_all2_append1)
  have "\<exists>h1. matches U ic r p' h v' (z' @ q') h1"
    using m_cat.prems u' by (intro m_cat.IH(1)) (auto intro: list_all2_appendI)
  moreover have "\<exists>h2. matches U ic s (after p' v') h1 z' q' h2" for h1
    using m_cat.prems u' by (intro m_cat.IH(2)) (auto intro: after_rel)
  ultimately show ?case using u' by (blast intro: matches.m_cat)
next
  case (m_rep_must r p g v w q g1 lo ex g' u)
  from m_rep_must.prems(3) m_rep_must.hyps(3) obtain v' z' where u': "w' = v' @ z'"
    "list_all2 R v v'" "list_all2 R w z'" by (auto simp: list_all2_append1)
  have "\<exists>h1. matches U ic r p' h v' (z' @ q') h1"
    using m_rep_must.prems u' by (intro m_rep_must.IH(1)) (auto intro: list_all2_appendI)
  moreover have "\<exists>h2. matches U ic (Rep r lo ex) (after p' v') h1 z' q' h2" for h1
    using m_rep_must.prems u' by (intro m_rep_must.IH(2)) (auto intro: after_rel)
  ultimately show ?case using u' by (blast intro: matches.m_rep_must)
next
  case (m_rep_more r p g v w q g1 ex g' u)
  from m_rep_more.prems(3) m_rep_more.hyps(5) obtain v' z' where u': "w' = v' @ z'"
    "list_all2 R v v'" "list_all2 R w z'" by (auto simp: list_all2_append1)
  with m_rep_more.hyps(2) have "v' \<noteq> []" by auto
  moreover have "\<exists>h1. matches U ic r p' h v' (z' @ q') h1"
    using m_rep_more.prems u' by (intro m_rep_more.IH(1)) (auto intro: list_all2_appendI)
  moreover have
    "\<exists>h2. matches U ic (Rep r 0 (map_option (\<lambda>k. k - 1) ex)) (after p' v') h1 z' q' h2" for h1
    using m_rep_more.prems u' by (intro m_rep_more.IH(2)) (auto intro: after_rel)
  ultimately show ?case
    using u' m_rep_more.hyps(3) by (blast intro: matches.m_rep_more)
next
  case (m_alt1 r p g w q g' s)
  from m_alt1.IH [of p' w' q' h] m_alt1.prems show ?case by (auto intro: matches.m_alt1)
next
  case (m_alt2 s p g w q g' r)
  from m_alt2.IH [of p' w' q' h] m_alt2.prems show ?case by (auto intro: matches.m_alt2)
next
  case (m_grp r p g w q g')
  from m_grp.IH [of p' w' q' h] m_grp.prems show ?case by (auto intro: matches.m_grp)
next
  case (m_cap r p g w q g' n)
  from m_cap.IH [of p' w' q' h] m_cap.prems show ?case by (auto intro: matches.m_cap)
qed (auto intro: matches.m_bol matches.m_eps matches.m_rep_done)

lemma occurs_respects:
  assumes "occurs U ic r s" and "list_all2 R s t"
    and "\<And>c x y. c \<in> csets r \<Longrightarrow> R x y \<Longrightarrow> cset_ok U ic c x = cset_ok U ic c y"
  shows "occurs U ic r t"
proof -
  from assms(1) obtain a w q g where s: "s = a @ w @ q"
    and m: "matches U ic r (after None a) [] w q g" by (auto simp: occurs_def)
  from s assms(2) obtain a' w' q' where t: "t = a' @ w' @ q'" "list_all2 R a a'"
    "list_all2 R w w'" "list_all2 R q q'" by (auto simp: list_all2_append1)
  have "rel_option R (after None a) (after None a')"
    using t by (auto intro: after_rel)
  from matches_respects [OF m assms(3) this t(3,4)] obtain h
    where "matches U ic r (after None a') [] w' q' h" by blast
  with t(1) show ?thesis unfolding occurs_def by blast
qed

subsection \<open>Patterns without context\<close>

text \<open>
  Most sub-patterns neither look at their surroundings nor capture: what they match is a
  predicate on the matched text alone.
\<close>

definition simple :: "unidb \<Rightarrow> bool \<Rightarrow> re \<Rightarrow> (pystr \<Rightarrow> bool) \<Rightarrow> bool" where
  "simple U ic r P \<longleftrightarrow> (\<forall>p g w q g'. matches U ic r p g w q g' \<longleftrightarrow> g' = g \<and> P w)"

lemma simpleD: "simple U ic r P \<Longrightarrow> matches U ic r p g w q g' \<longleftrightarrow> g' = g \<and> P w"
  by (simp add: simple_def)

lemma simple_chr: "simple U ic (Chr c) (\<lambda>w. \<exists>x. w = [x] \<and> cset_ok U ic c x)"
  by (auto simp: simple_def matches_simps simp del: cset_ok.simps)

lemma simple_lits: "simple U ic (lits u) (\<lambda>w. list_all2 (\<lambda>c. cset_ok U ic (Lit c)) u w)"
  by (simp add: simple_def matches_lits del: cset_ok.simps)

lemma simple_grp: "simple U ic r P \<Longrightarrow> simple U ic (Grp r) P"
  by (simp add: simple_def matches_simps)

lemma simple_cat:
  assumes "simple U ic r P" and "simple U ic s Q"
  shows "simple U ic (Cat r s) (\<lambda>w. \<exists>u v. w = u @ v \<and> P u \<and> Q v)"
  unfolding simple_def matches_simps(5) simpleD [OF assms(1)] simpleD [OF assms(2)] by blast

lemma matches_cat_wordb:
  "matches U ic (Cat WordB r) p g w q g' \<longleftrightarrow> boundary U p (w @ q) \<and> matches U ic r p g w q g'"
  by (auto simp: matches_simps(3,5))

lemma matches_cat_simple:
  assumes "simple U ic r P"
  shows "matches U ic (Cat r s) p g w q g' \<longleftrightarrow>
     (\<exists>u v. w = u @ v \<and> P u \<and> matches U ic s (after p u) g v q g')"
  unfolding matches_simps(5) simpleD [OF assms] by blast

lemma matches_cat_cap:
  assumes "simple U ic r P"
  shows "matches U ic (Cat (Cap n r) s) p g w q g' \<longleftrightarrow>
     (\<exists>u v. w = u @ v \<and> P u \<and> matches U ic s (after p u) ((n, u) # g) v q g')"
  unfolding matches_simps(5,8) simpleD [OF assms] by blast

lemma simple_opt:
  assumes "simple U ic r P"
  shows "simple U ic (Opt r) (\<lambda>w. w = [] \<or> P w)"
proof -
  have "matches U ic (Rep r 0 (Some (Suc 0))) p g w q g' \<longleftrightarrow> g' = g \<and> (w = [] \<or> P w)"
    for p g w q g'
    by (auto simp: matches_simps simpleD [OF assms])
  then show ?thesis by (simp add: simple_def)
qed

lemma simple_times:
  assumes "simple U ic r P"
  shows "simple U ic (Times r n) (\<lambda>w. \<exists>vs. length vs = n \<and> (\<forall>v \<in> set vs. P v) \<and> w = concat vs)"
proof (induction n)
  case 0
  show ?case by (auto simp: simple_def matches_simps)
next
  case (Suc n)
  have split: "(\<exists>vs. length vs = Suc n \<and> (\<forall>v \<in> set vs. P v) \<and> w = concat vs) \<longleftrightarrow>
    (\<exists>u v. w = u @ v \<and> P u \<and> (\<exists>vs. length vs = n \<and> (\<forall>v \<in> set vs. P v) \<and> v = concat vs))" for w
  proof
    assume "\<exists>vs. length vs = Suc n \<and> (\<forall>v \<in> set vs. P v) \<and> w = concat vs"
    then obtain v vs where "length vs = n" "P v" "\<forall>v \<in> set vs. P v" "w = v @ concat vs"
      by (auto simp: length_Suc_conv)
    then show "\<exists>u v. w = u @ v \<and> P u \<and> (\<exists>vs. length vs = n \<and> (\<forall>v \<in> set vs. P v) \<and> v = concat vs)"
      by blast
  next
    assume "\<exists>u v. w = u @ v \<and> P u \<and> (\<exists>vs. length vs = n \<and> (\<forall>v \<in> set vs. P v) \<and> v = concat vs)"
    then obtain u vs where "length vs = n" "P u" "\<forall>v \<in> set vs. P v" "w = u @ concat vs" by blast
    then show "\<exists>vs. length vs = Suc n \<and> (\<forall>v \<in> set vs. P v) \<and> w = concat vs"
      by (intro exI [of _ "u # vs"]) simp
  qed
  show ?case
    unfolding simple_def split matches_simps(9) simpleD [OF assms] simpleD [OF Suc] by blast
qed

lemma concat_singles: "(\<forall>v \<in> set vs. \<exists>x. v = [x] \<and> P x) \<Longrightarrow>
    length (concat vs) = length vs \<and> (\<forall>x \<in> set (concat vs). P x)"
  by (induction vs) auto

lemma simple_times_chr:
  "simple U ic (Times (Chr c) n) (\<lambda>w. length w = n \<and> (\<forall>x \<in> set w. cset_ok U ic c x))"
proof -
  have "(\<exists>vs. length vs = n \<and> (\<forall>v \<in> set vs. \<exists>x. v = [x] \<and> cset_ok U ic c x) \<and> w = concat vs) \<longleftrightarrow>
    length w = n \<and> (\<forall>x \<in> set w. cset_ok U ic c x)" for w
  proof
    assume "length w = n \<and> (\<forall>x \<in> set w. cset_ok U ic c x)"
    then show "\<exists>vs. length vs = n \<and> (\<forall>v \<in> set vs. \<exists>x. v = [x] \<and> cset_ok U ic c x) \<and> w = concat vs"
      by (intro exI [of _ "map (\<lambda>x. [x]) w"]) (auto simp del: cset_ok.simps)
  qed (auto dest: concat_singles simp del: cset_ok.simps)
  then show ?thesis
    using simple_times [OF simple_chr, of U ic c n] by (simp add: simple_def)
qed

lemma matches_must_chr:
  "matches U ic (Rep (Chr c) (Suc lo) ex) p g w q g' \<longleftrightarrow>
     (\<exists>z zs. w = z # zs \<and> cset_ok U ic c z \<and> matches U ic (Rep (Chr c) lo ex) (Some z) g zs q g')"
proof
  assume "matches U ic (Rep (Chr c) (Suc lo) ex) p g w q g'"
  then show "\<exists>z zs. w = z # zs \<and> cset_ok U ic c z \<and>
      matches U ic (Rep (Chr c) lo ex) (Some z) g zs q g'"
    by (auto simp: matches_simps(1,9) simp del: cset_ok.simps)
next
  assume "\<exists>z zs. w = z # zs \<and> cset_ok U ic c z \<and>
      matches U ic (Rep (Chr c) lo ex) (Some z) g zs q g'"
  then obtain z zs where "w = [z] @ zs" "cset_ok U ic c z"
    "matches U ic (Rep (Chr c) lo ex) (after p [z]) g zs q g'" by auto
  then show "matches U ic (Rep (Chr c) (Suc lo) ex) p g w q g'" by (blast intro: m_rep_must m_char)
qed

lemma matches_star_chr:
  "matches U ic (Star (Chr c)) p g w q g' \<longleftrightarrow>
     (case w of [] \<Rightarrow> g' = g
      | z # zs \<Rightarrow> cset_ok U ic c z \<and> matches U ic (Star (Chr c)) (Some z) g zs q g')"
proof
  assume "matches U ic (Star (Chr c)) p g w q g'"
  then show "case w of [] \<Rightarrow> g' = g
      | z # zs \<Rightarrow> cset_ok U ic c z \<and> matches U ic (Star (Chr c)) (Some z) g zs q g'"
    by (subst (asm) matches_simps(12)) (auto simp: matches_simps(1) simp del: cset_ok.simps)
next
  assume h: "case w of [] \<Rightarrow> g' = g
      | z # zs \<Rightarrow> cset_ok U ic c z \<and> matches U ic (Star (Chr c)) (Some z) g zs q g'"
  show "matches U ic (Star (Chr c)) p g w q g'"
  proof (cases w)
    case Nil
    with h show ?thesis by (simp add: m_rep_done)
  next
    case (Cons z zs)
    from h [unfolded Cons] have 1: "matches U ic (Chr c) p g [z] (zs @ q) g"
      and 2: "matches U ic (Rep (Chr c) 0 (map_option (\<lambda>k. k - 1) None)) (after p [z]) g zs q g'"
      by (simp_all add: m_char)
    show ?thesis
      by (rule m_rep_more [OF 1 _ _ 2]) (simp_all add: Cons)
  qed
qed

lemma simple_star_chr: "simple U ic (Star (Chr c)) (\<lambda>w. \<forall>x \<in> set w. cset_ok U ic c x)"
proof -
  have "matches U ic (Star (Chr c)) p g w q g' \<longleftrightarrow> g' = g \<and> (\<forall>x \<in> set w. cset_ok U ic c x)"
    for p g w q g'
  proof (induction w arbitrary: p)
    case Nil
    show ?case by (subst matches_star_chr) simp
  next
    case (Cons x w)
    show ?case by (subst matches_star_chr) (auto simp: Cons simp del: cset_ok.simps)
  qed
  then show ?thesis by (simp add: simple_def)
qed

lemma simple_plus_chr:
  "simple U ic (Plus (Chr c)) (\<lambda>w. w \<noteq> [] \<and> (\<forall>x \<in> set w. cset_ok U ic c x))"
proof -
  have "matches U ic (Rep (Chr c) (Suc 0) None) p g w q g' \<longleftrightarrow>
      g' = g \<and> w \<noteq> [] \<and> (\<forall>x \<in> set w. cset_ok U ic c x)" for p g w q g'
    by (cases w) (auto simp: matches_must_chr simpleD [OF simple_star_chr] simp del: cset_ok.simps)
  then show ?thesis by (simp add: simple_def)
qed

lemma simple_upto_intro:
  assumes "simple U ic r P" and "\<forall>v \<in> set vs. P v \<and> v \<noteq> []" and "length vs \<le> k"
  shows "matches U ic (Rep r 0 (Some k)) p g (concat vs) q g"
  using assms(2,3)
proof (induction vs arbitrary: k p)
  case Nil
  show ?case by (simp add: m_rep_done)
next
  case (Cons v vs)
  then obtain k' where k: "k = Suc k'" by (cases k) auto
  with Cons have 1: "matches U ic (Rep r 0 (Some k')) (after p v) g (concat vs) q g" by simp
  have 2: "matches U ic r p g v (concat vs @ q) g"
    using Cons.prems(1) by (simp add: simpleD [OF assms(1)])
  show ?case
    by (rule m_rep_more [OF 2]) (use Cons.prems 1 k in simp_all)
qed

section \<open>findall\<close>

text \<open>
  \<open>pattern.findall(s)\<close> for a pattern without groups that cannot match the empty text: the
  non-overlapping matches from left to right, each the first one the matcher finds.
\<close>

function findall_from :: "unidb \<Rightarrow> bool \<Rightarrow> re \<Rightarrow> pychar option \<Rightarrow> pystr \<Rightarrow> pystr list" where
  "findall_from U ic r p s =
     (case first_match (rmatch U ic r (p, s, [])) of
        Some (p', q, g') \<Rightarrow>
          if length q < length s
          then take (length s - length q) s # findall_from U ic r p' q
          else (case s of [] \<Rightarrow> [] | x # s' \<Rightarrow> findall_from U ic r (Some x) s')
      | None \<Rightarrow> (case s of [] \<Rightarrow> [] | x # s' \<Rightarrow> findall_from U ic r (Some x) s'))"
  by pat_completeness auto
termination
  by (relation "measure (\<lambda>(U, ic, r, p, s). length s)") auto

declare findall_from.simps [simp del]

definition re_findall :: "unidb \<Rightarrow> bool \<Rightarrow> re \<Rightarrow> pystr \<Rightarrow> pystr list" where
  "re_findall U ic r s = findall_from U ic r None s"

end
