(* ===== verification/GuardPipeline.thy ===== *)
theory GuardPipeline
  imports InputGuards
begin

text \<open>
  app/agent/guardrails/pipeline.py: \<open>run_input_guardrails\<close> chains the checks of
  \<^theory_text>\<open>InputGuards\<close>. The two blocking checks decide the verdict, the first failing
  one in the order of the code gives the reason; the reason of \<open>check_pii\<close> is only recorded.
  An exception of \<open>check_pii\<close> propagates.
\<close>

definition BLOCKED_FLAG_PREFIX :: pystr where
  "BLOCKED_FLAG_PREFIX = py ''blocked:''"

definition PII_FLAG_PREFIX :: pystr where
  "PII_FLAG_PREFIX = py ''pii:''"

record guard_result =
  gr_ok :: bool
  gr_refusal_reason :: "pystr option"
  gr_flags :: "pystr list"

text \<open>An optional string inside an f-string.\<close>

definition fmt_opt :: "pystr option \<Rightarrow> pystr" where
  "fmt_opt r = (case r of None \<Rightarrow> py ''None'' | Some s \<Rightarrow> s)"

definition run_input_guardrails :: "unidb \<Rightarrow> pystr \<Rightarrow> int \<Rightarrow> exn + guard_result" where
  "run_input_guardrails U inp max_length =
     (let blocking_results = [check_length inp max_length, check_injection U inp] in
      bindE (check_pii U inp) (\<lambda>pii_result.
      let first_failure = find (\<lambda>r. \<not> cr_ok r) blocking_results;
          blocked = (case first_failure of
              None \<Rightarrow> []
            | Some f \<Rightarrow> [BLOCKED_FLAG_PREFIX @ fmt_opt (cr_reason f)]);
          pii = (case cr_reason pii_result of
              None \<Rightarrow> []
            | Some s \<Rightarrow> if s \<noteq> [] then [PII_FLAG_PREFIX @ s] else [])
      in Inr \<lparr>gr_ok = (first_failure = None),
              gr_refusal_reason = (case first_failure of None \<Rightarrow> None | Some f \<Rightarrow> cr_reason f),
              gr_flags = blocked @ pii\<rparr>))"

lemma check_length_cases:
  "check_length inp n = (if int (length inp) \<le> n then check_passed else
     check_failed (py ''input exceeds max length of '' @ int_text n @ py '' characters''))"
  by (simp add: check_length_def)

lemma check_injection_cases:
  obtains "check_injection U inp = check_passed" "\<forall>r \<in> set injection_patterns. \<not> occurs U True r inp"
  | r where "r \<in> set injection_patterns" "occurs U True r inp"
      "check_injection U inp = check_failed (injection_reason r)"
proof (cases "find (\<lambda>r. occurs U True r inp) injection_patterns")
  case None
  with that(1) show thesis by (auto simp: check_injection_find find_eq_None_iff)
next
  case (Some r)
  then have "r \<in> set injection_patterns \<and> occurs U True r inp"
    by (auto simp: find_Some_iff)
  with Some that(2) [of r] show thesis by (simp add: check_injection_find)
qed

lemma pii_flag_not_blocked: "\<not> startswith (PII_FLAG_PREFIX @ s) BLOCKED_FLAG_PREFIX"
  by (simp add: PII_FLAG_PREFIX_def BLOCKED_FLAG_PREFIX_def)

lemma blocked_flag_blocked: "startswith (BLOCKED_FLAG_PREFIX @ s) BLOCKED_FLAG_PREFIX"
  by simp

text \<open>What the pipeline returns, by the outcome of the blocking checks.\<close>

definition refusal_of :: "unidb \<Rightarrow> pystr \<Rightarrow> int \<Rightarrow> pystr option" where
  "refusal_of U inp n =
     (if \<not> cr_ok (check_length inp n) then cr_reason (check_length inp n)
      else cr_reason (check_injection U inp))"

lemma run_input_guardrails_eq:
  "run_input_guardrails U inp n =
     bindE (check_pii U inp) (\<lambda>p. Inr
       \<lparr>gr_ok = (refusal_of U inp n = None),
        gr_refusal_reason = refusal_of U inp n,
        gr_flags =
          (case refusal_of U inp n of None \<Rightarrow> [] | Some w \<Rightarrow> [BLOCKED_FLAG_PREFIX @ w]) @
          (case cr_reason p of
             None \<Rightarrow> [] | Some s \<Rightarrow> if s \<noteq> [] then [PII_FLAG_PREFIX @ s] else [])\<rparr>)"
  by (cases inp rule: check_injection_cases [of U])
    (auto simp: run_input_guardrails_def refusal_of_def check_length_cases check_passed_def
      check_failed_def fmt_opt_def Let_def)

lemma refusal_of_None_iff:
  "refusal_of U inp n = None \<longleftrightarrow>
     int (length inp) \<le> n \<and> (\<forall>r \<in> set injection_patterns. \<not> occurs U True r inp)"
  by (cases inp rule: check_injection_cases [of U])
    (auto simp: refusal_of_def check_length_cases check_passed_def check_failed_def)

definition has_blocked_flag :: "pystr list \<Rightarrow> bool" where
  "has_blocked_flag flags = list_ex (\<lambda>f. startswith f BLOCKED_FLAG_PREFIX) flags"

lemma run_input_guardrails_flags:
  assumes "run_input_guardrails U inp n = Inr r"
  shows "has_blocked_flag (gr_flags r) \<longleftrightarrow> \<not> gr_ok r" and "length (gr_flags r) \<le> 2"
    and "gr_ok r \<longleftrightarrow> refusal_of U inp n = None" and "gr_refusal_reason r = refusal_of U inp n"
  using assms
  by (auto simp: run_input_guardrails_eq bindE_eq_Inr_iff has_blocked_flag_def
      pii_flag_not_blocked split: option.splits if_splits)

section \<open>Properties\<close>

text \<open>C21. Whenever the pipeline returns, its verdict is positive exactly for texts within the length
  bound in which no injection pattern occurs; a refusal reason is present exactly when the
  verdict is negative; a flag with the blocked prefix is among the flags exactly then. The
  personal-data check never changes the verdict, and there are at most two flags.\<close>

theorem run_input_guardrails_verdict:
  assumes "run_input_guardrails U inp n = Inr r"
  shows "(gr_ok r \<longleftrightarrow>
      int (length inp) \<le> n \<and> (\<forall>p \<in> set injection_patterns. \<not> occurs U True p inp)) \<and>
    (gr_refusal_reason r = None \<longleftrightarrow> gr_ok r) \<and>
    (has_blocked_flag (gr_flags r) \<longleftrightarrow> \<not> gr_ok r) \<and> length (gr_flags r) \<le> 2"
  using run_input_guardrails_flags [OF assms] refusal_of_None_iff [of U inp n] by auto

theorem run_input_guardrails_verdict_witness:
  "\<exists>r. run_input_guardrails latin1_db (py ''please jailbreak, IBAN FR7630006000011234567890189'') 4000 = Inr r \<and>
     \<not> gr_ok r \<and> has_blocked_flag (gr_flags r) \<and> length (gr_flags r) = 2"
proof -
  let ?t = "py ''please jailbreak, IBAN FR7630006000011234567890189''"
  have "case run_input_guardrails latin1_db ?t 4000 of Inl e \<Rightarrow> False
      | Inr r \<Rightarrow> gr_ok r = False \<and> length (gr_flags r) = 2" by code_simp
  then obtain r where r: "run_input_guardrails latin1_db ?t 4000 = Inr r"
    and "gr_ok r = False" "length (gr_flags r) = 2" by (blast dest: sum_case_Inr)
  with run_input_guardrails_verdict [OF r] show ?thesis by blast
qed

text \<open>The pipeline fails only as \<open>check_pii\<close> does: with the \<open>ValueError\<close> of \<open>int\<close>, when the first
  NIR-shaped text is spaced with white space other than U+0020. In particular a request that is
  too long or an injection attempt can end in this exception instead of a refusal.\<close>

theorem run_input_guardrails_raises_iff:
  assumes "unicode_db U"
  shows "run_input_guardrails U inp n = Inl e \<longleftrightarrow> e = int_value_error \<and>
      (\<exists>m d. re_search U False NIR_PATTERN inp = Some m \<and> re_group m 1 = Some d \<and>
         (\<exists>c \<in> set d. is_space c \<and> c \<noteq> 32))"
  using unicode_db.check_pii_error_iff [OF assms, of inp e]
  by (simp add: run_input_guardrails_eq bindE_eq_Inl_iff)

theorem run_input_guardrails_raises_iff_witness:
  "\<exists>m d. re_search latin1_db False NIR_PATTERN (py ''jailbreak 1'' @ [160] @ py ''85037611600197'') = Some m \<and>
     re_group m 1 = Some d \<and> (\<exists>c \<in> set d. is_space c \<and> c \<noteq> 32)"
proof -
  have "run_input_guardrails latin1_db (py ''jailbreak 1'' @ [160] @ py ''85037611600197'') 4000
      = Inl int_value_error" by code_simp
  then show ?thesis
    using run_input_guardrails_raises_iff [OF latin1.unicode_db_axioms] by blast
qed

end
