(* ===== verification/Messages.thy ===== *)
theory Messages
  imports PyText
begin

text \<open>
  LangChain messages as the program sees them. The \<open>content\<close> of a message is a string or
  something else, of which the code only ever takes \<open>str\<close>: \<open>OtherContent\<close> carries that text.
  A \<open>tool_call\<close> is the request of an \<open>AIMessage\<close> for one tool, with its arguments as text.
  Message ids are left out: every message the code creates has none, so the library gives it
  a fresh one.
\<close>

datatype content = StrContent pystr | OtherContent pystr

text \<open>\<open>content if isinstance(content, str) else str(content)\<close>\<close>

fun content_text :: "content \<Rightarrow> pystr" where
  "content_text (StrContent s) = s"
| "content_text (OtherContent s) = s"

record tool_call =
  tc_name :: pystr
  tc_args :: pystr
  tc_id :: pystr

datatype message =
    SystemMessage content
  | HumanMessage content
  | AIMessage content "tool_call list"
  | ToolMessage content pystr

fun msg_content :: "message \<Rightarrow> content" where
  "msg_content (SystemMessage c) = c"
| "msg_content (HumanMessage c) = c"
| "msg_content (AIMessage c tcs) = c"
| "msg_content (ToolMessage c i) = c"

fun is_ai :: "message \<Rightarrow> bool" where
  "is_ai (AIMessage c tcs) = True"
| "is_ai m = False"

fun tool_calls :: "message \<Rightarrow> tool_call list" where
  "tool_calls (AIMessage c tcs) = tcs"
| "tool_calls m = []"

definition ai_text :: "pystr \<Rightarrow> message" where
  "ai_text s = AIMessage (StrContent s) []"

lemma ai_text_simps [simp]:
  "is_ai (ai_text s)" "tool_calls (ai_text s) = []" "msg_content (ai_text s) = StrContent s"
  by (simp_all add: ai_text_def)

end
