(* ===== verification/Llm.thy ===== *)
theory Llm
  imports Config Messages
begin

text \<open>
  app/agent/llm.py: the gateway client, the classification of errors, the retries within one
  model group and the sovereignty cascade across groups.

  Parameters of the model, for code outside the repository:
  \<^item> \<open>chat\<close>, the gateway behind \<open>ChatOpenAI.ainvoke\<close>: from the client's configuration, the
    messages and the state of the outside world to a message or an exception and the new
    world. Nothing is assumed of it.
  \<^item> \<open>R\<close>, tenacity's \<open>AsyncRetrying\<close> with the options the code passes (\<open>stop_after_attempt\<close>,
    \<open>retry_if_exception\<close>, \<open>before_sleep\<close>, \<open>reraise=True\<close>). The locale \<open>retrying\<close> states its
    documented contract: the call returns the outcome of the first attempt that succeeds,
    fails with an exception the predicate rejects, or has the last attempt number; before every
    further attempt \<open>before_sleep\<close> has run. \<open>retry_ref\<close> is a runner with this contract.

  The state passed along holds the world and a trace: one \<open>Sent\<close> per request that leaves for
  the gateway, with its outcome, and the structured log lines of the
  module.

  \<open>cascade_run\<close> is the abstract contract of the cascade: which sequences of attempts may be
  made for a list of groups, and with which result. \<open>cascade_refines\<close> shows that the code keeps
  it for every gateway and every runner with tenacity's contract; the properties of the
  cascade are rule inductions over the contract.
\<close>

section \<open>Clients and errors\<close>

record chat_config =
  cc_base_url :: pystr
  cc_api_key :: pystr
  cc_model :: pystr
  cc_temperature :: rat
  cc_max_tokens :: int
  cc_timeout :: rat
  cc_max_retries :: int
  cc_tools :: "pystr list option"

definition CASCADE :: "model_group list" where
  "CASCADE = [SOVEREIGN_CHEAP, SOVEREIGN_PREMIUM, FRONTIER]"

definition DEFAULT_TEMPERATURE :: rat where "DEFAULT_TEMPERATURE = 1 / 5"
definition DEFAULT_MAX_TOKENS :: int where "DEFAULT_MAX_TOKENS = 1024"
definition DEFAULT_TIMEOUT_SECONDS :: rat where "DEFAULT_TIMEOUT_SECONDS = 20"
definition DEFAULT_MAX_ATTEMPTS_PER_GROUP :: int where "DEFAULT_MAX_ATTEMPTS_PER_GROUP = 3"

definition get_llm :: "model_group \<Rightarrow> settings \<Rightarrow> rat \<Rightarrow> int \<Rightarrow> rat \<Rightarrow> chat_config" where
  "get_llm model_group settings temperature max_tokens timeout =
     \<lparr>cc_base_url = LITELLM_BASE_URL settings,
      cc_api_key = LITELLM_API_KEY settings,
      cc_model = group_value model_group,
      cc_temperature = temperature,
      cc_max_tokens = max_tokens,
      cc_timeout = timeout,
      cc_max_retries = 0,
      cc_tools = None\<rparr>"

definition bind_tools :: "pystr list \<Rightarrow> chat_config \<Rightarrow> chat_config" where
  "bind_tools tools llm = llm\<lparr>cc_tools := Some tools\<rparr>"

fun is_transient :: "exn \<Rightarrow> bool" where
  "is_transient (APIConnectionError m) = True"
| "is_transient (APITimeoutError m) = True"
| "is_transient (APIStatusError n status_code m) = (status_code = 429 \<or> status_code \<ge> 500)"
| "is_transient e = False"

lemma is_transient_Exception: "is_transient e \<Longrightarrow> is_Exception e"
  by (cases e) simp_all

section \<open>Retries within a group\<close>

datatype llm_event =
    Sent chat_config "exn + message"
  | LogRetry pystr nat pystr
  | LogEscalation pystr pystr pystr
  | LogExhausted "pystr list" pystr

record 'w llm_state =
  world :: 'w
  trace :: "llm_event list"

definition emit :: "llm_event \<Rightarrow> 'w llm_state \<Rightarrow> 'w llm_state" where
  "emit ev s = s\<lparr>trace := trace s @ [ev]\<rparr>"

type_synonym 'w gateway = "chat_config \<Rightarrow> message list \<Rightarrow> ('w, message) prog"

text \<open>\<open>runnable.ainvoke(messages)\<close>: one request.\<close>

definition ainvoke :: "'w gateway \<Rightarrow> chat_config \<Rightarrow> message list \<Rightarrow> ('w llm_state, message) prog" where
  "ainvoke chat cfg messages s =
     (case chat cfg messages (world s) of
        (r, w) \<Rightarrow> (r, emit (Sent cfg r) (s\<lparr>world := w\<rparr>)))"

type_synonym ('s, 'a) retry_runner =
  "int \<Rightarrow> (exn \<Rightarrow> bool) \<Rightarrow> (nat \<Rightarrow> exn \<Rightarrow> 's \<Rightarrow> 's) \<Rightarrow> ('s, 'a) prog \<Rightarrow> ('s, 'a) prog"

text \<open>The state in which attempt number \<open>k + 1\<close> starts, if the attempts before it were retried.\<close>

fun attempt_state :: "(nat \<Rightarrow> exn \<Rightarrow> 's \<Rightarrow> 's) \<Rightarrow> ('s, 'a) prog \<Rightarrow> 's \<Rightarrow> nat \<Rightarrow> 's" where
  "attempt_state before_sleep f s 0 = s"
| "attempt_state before_sleep f s (Suc k) =
     (case f (attempt_state before_sleep f s k) of
        (Inl e, s') \<Rightarrow> before_sleep (Suc k) e s'
      | (Inr a, s') \<Rightarrow> s')"

text \<open>Attempt number \<open>k + 1\<close> with outcome \<open>r\<close> is the last one.\<close>

definition final_attempt :: "int \<Rightarrow> (exn \<Rightarrow> bool) \<Rightarrow> exn + 'a \<Rightarrow> nat \<Rightarrow> bool" where
  "final_attempt max_attempts retry_if r k =
     (case r of Inr a \<Rightarrow> True | Inl e \<Rightarrow> \<not> retry_if e \<or> int (Suc k) \<ge> max_attempts)"

locale retrying =
  fixes R :: "('s, 'a) retry_runner"
  assumes run:
    "(\<And>j. j < k \<Longrightarrow> \<not> final_attempt n p (fst (f (attempt_state b f s j))) j) \<Longrightarrow>
     final_attempt n p (fst (f (attempt_state b f s k))) k \<Longrightarrow>
     R n p b f s = f (attempt_state b f s k)"

text \<open>A runner with the contract: \<open>m\<close> further attempts are allowed after number \<open>k + 1\<close>.\<close>

fun retry_loop ::
  "nat \<Rightarrow> nat \<Rightarrow> (exn \<Rightarrow> bool) \<Rightarrow> (nat \<Rightarrow> exn \<Rightarrow> 's \<Rightarrow> 's) \<Rightarrow> ('s, 'a) prog \<Rightarrow> ('s, 'a) prog" where
  "retry_loop 0 k p b f s = f s"
| "retry_loop (Suc m) k p b f s =
     (case f s of
        (Inr a, s') \<Rightarrow> (Inr a, s')
      | (Inl e, s') \<Rightarrow> if p e then retry_loop m (Suc k) p b f (b (Suc k) e s') else (Inl e, s'))"

definition retry_ref :: "('s, 'a) retry_runner" where
  "retry_ref n p b f s = retry_loop (nat (n - 1)) 0 p b f s"

lemma retry_loop_final:
  assumes "\<And>j. k \<le> j \<Longrightarrow> j < i \<Longrightarrow> \<not> final_attempt n p (fst (f (attempt_state b f s j))) j"
    and "final_attempt n p (fst (f (attempt_state b f s i))) i" and "k \<le> i"
    and "int m = max 0 (n - 1 - int k)"
  shows "retry_loop m k p b f (attempt_state b f s k) = f (attempt_state b f s i)"
  using assms
proof (induction m arbitrary: k)
  case 0
  have "k = i"
  proof (rule ccontr)
    assume "k \<noteq> i"
    with 0 have "\<not> final_attempt n p (fst (f (attempt_state b f s k))) k" by simp
    with 0 show False by (auto simp: final_attempt_def split: sum.splits)
  qed
  then show ?case by simp
next
  case (Suc m)
  obtain r s' where fk: "f (attempt_state b f s k) = (r, s')" by (cases "f (attempt_state b f s k)")
  show ?case
  proof (cases "k = i")
    case True
    with Suc.prems(2,4) fk show ?thesis
      by (auto simp: final_attempt_def split: sum.splits)
  next
    case False
    with Suc.prems fk have "\<not> final_attempt n p r k" by (metis fst_conv le_neq_implies_less order_refl)
    then obtain e where e: "r = Inl e" "p e" by (auto simp: final_attempt_def split: sum.splits)
    with fk have st: "attempt_state b f s (Suc k) = b (Suc k) e s'" by simp
    have "retry_loop m (Suc k) p b f (attempt_state b f s (Suc k)) = f (attempt_state b f s i)"
      using Suc.prems False by (intro Suc.IH) auto
    with fk e st show ?thesis by simp
  qed
qed

interpretation ref: retrying "retry_ref :: ('s, 'a) retry_runner"
proof
  fix k :: nat and n p f b and s :: 's
  assume "\<And>j. j < k \<Longrightarrow> \<not> final_attempt n p (fst (f (attempt_state b f s j))) j"
    and "final_attempt n p (fst (f (attempt_state b f s k)) :: exn + 'a) k"
  then show "retry_ref n p b f s = f (attempt_state b f s k)"
    using retry_loop_final [of 0 k n p f b s "nat (n - 1)"]
    by (simp add: retry_ref_def)
qed

text \<open>\<open>_log_retry\<close>, the \<open>before_sleep\<close> callback.\<close>

definition log_retry :: "model_group \<Rightarrow> nat \<Rightarrow> exn \<Rightarrow> 'w llm_state \<Rightarrow> 'w llm_state" where
  "log_retry g attempt e s = emit (LogRetry (group_value g) attempt (type_name e)) s"

record llm_options =
  opt_temperature :: rat
  opt_max_tokens :: int
  opt_timeout :: rat
  opt_max_attempts :: int
  opt_tools :: "pystr list option"

definition default_options :: llm_options where
  "default_options =
     \<lparr>opt_temperature = DEFAULT_TEMPERATURE, opt_max_tokens = DEFAULT_MAX_TOKENS,
      opt_timeout = DEFAULT_TIMEOUT_SECONDS, opt_max_attempts = DEFAULT_MAX_ATTEMPTS_PER_GROUP,
      opt_tools = None\<rparr>"

text \<open>The client \<open>_invoke_group\<close> builds: \<open>llm.bind_tools(list(tools)) if tools else llm\<close>.\<close>

definition group_client :: "settings \<Rightarrow> llm_options \<Rightarrow> model_group \<Rightarrow> chat_config" where
  "group_client settings opts g =
     (let llm = get_llm g settings (opt_temperature opts) (opt_max_tokens opts) (opt_timeout opts)
      in case opt_tools opts of
           None \<Rightarrow> llm
         | Some tools \<Rightarrow> if tools \<noteq> [] then bind_tools tools llm else llm)"

definition invoke_group ::
  "('w llm_state, message) retry_runner \<Rightarrow> 'w gateway \<Rightarrow> settings \<Rightarrow> llm_options \<Rightarrow>
     message list \<Rightarrow> model_group \<Rightarrow> ('w llm_state, message) prog" where
  "invoke_group R chat settings opts messages g =
     R (opt_max_attempts opts) is_transient (log_retry g)
       (ainvoke chat (group_client settings opts g) messages)"

section \<open>The cascade\<close>

definition list_repr :: "pystr list \<Rightarrow> pystr" where
  "list_repr ss = py ''['' @ join (py '', '') (map py_repr ss) @ py '']''"

definition cascade_of :: "model_group list option \<Rightarrow> model_group list" where
  "cascade_of allowed =
     (let effective_allowed = (case allowed of None \<Rightarrow> CASCADE | Some gs \<Rightarrow> gs)
      in filter (\<lambda>g. g \<in> set effective_allowed) CASCADE)"

definition start_error :: "model_group \<Rightarrow> model_group list \<Rightarrow> exn" where
  "start_error g cascade = ValueError
     (py ''start_group '' @ py_repr (group_value g) @ py '' is not in the allowed cascade '' @
      list_repr (map group_value cascade))"

text \<open>
  The \<open>for position, group in enumerate(remaining)\<close> loop. \<open>tried\<close> and \<open>last\<close> are
  \<open>groups_tried\<close> and \<open>last_error\<close> before the iteration. Only exceptions in \<open>Exception\<close> reach
  the handler.
\<close>

fun cascade_loop ::
  "(model_group \<Rightarrow> ('w llm_state, message) prog) \<Rightarrow> model_group list \<Rightarrow> exn option \<Rightarrow>
     model_group list \<Rightarrow> ('w llm_state, message) prog" where
  "cascade_loop invoke tried last_error [] s =
     (case last_error of
        None \<Rightarrow> (Inl (OtherException (py ''AssertionError'') []), s)
      | Some e \<Rightarrow> (Inl (LLMCascadeExhaustedError tried e),
          emit (LogExhausted (map group_value tried) (type_name e)) s))"
| "cascade_loop invoke tried last_error (g # rest) s =
     (case invoke g s of
        (Inr m, s') \<Rightarrow> (Inr m, s')
      | (Inl e, s') \<Rightarrow>
          if \<not> is_Exception e then (Inl e, s')
          else if \<not> is_transient e then (Inl e, s')
          else cascade_loop invoke (tried @ [g]) (Some e) rest
            (case rest of
               [] \<Rightarrow> s'
             | h # _ \<Rightarrow> emit (LogEscalation (group_value g) (group_value h) (type_name e)) s'))"

text \<open>\<open>cascade[cascade.index(start_group):]\<close>\<close>

definition from_group :: "model_group \<Rightarrow> model_group list \<Rightarrow> model_group list" where
  "from_group g cascade = dropWhile (\<lambda>h. h \<noteq> g) cascade"

definition ainvoke_with_fallback ::
  "('w llm_state, message) retry_runner \<Rightarrow> 'w gateway \<Rightarrow> message list \<Rightarrow> settings \<Rightarrow>
     model_group \<Rightarrow> model_group list option \<Rightarrow> llm_options \<Rightarrow> ('w llm_state, message) prog" where
  "ainvoke_with_fallback R chat messages settings start_group allowed_groups opts s =
     (if allowed_groups = Some []
      then (Inl (ValueError (py ''allowed_groups must not be empty'')), s)
      else
        let cascade = cascade_of allowed_groups in
        if start_group \<notin> set cascade then (Inl (start_error start_group cascade), s)
        else cascade_loop (invoke_group R chat settings opts messages) [] None
               (from_group start_group cascade) s)"

text \<open>The message of \<open>LLMCascadeExhaustedError\<close>; \<open>str_exn\<close> is \<open>str\<close> on exceptions.\<close>

definition cascade_message :: "(exn \<Rightarrow> pystr) \<Rightarrow> model_group list \<Rightarrow> exn \<Rightarrow> pystr" where
  "cascade_message str_exn groups_tried last_error =
     py ''LLM sovereignty cascade exhausted after trying: '' @
     join (py '' -> '') (map group_value groups_tried) @
     py '' (last error: '' @ type_name last_error @ py '': '' @ str_exn last_error @ py '')''"

section \<open>Traces\<close>

type_synonym attempt = "chat_config \<times> (exn + message)"

definition attempts :: "llm_event list \<Rightarrow> attempt list" where
  "attempts evs = concat (map (\<lambda>ev. case ev of Sent c out \<Rightarrow> [(c, out)] | _ \<Rightarrow> []) evs)"

definition escalations :: "llm_event list \<Rightarrow> (pystr \<times> pystr) list" where
  "escalations evs = concat (map (\<lambda>ev. case ev of LogEscalation a b t \<Rightarrow> [(a, b)] | _ \<Rightarrow> []) evs)"

lemma attempts_simps [simp]:
  "attempts [] = []"
  "attempts (Sent c out # evs) = (c, out) # attempts evs"
  "attempts (LogRetry a n t # evs) = attempts evs"
  "attempts (LogEscalation a b t # evs) = attempts evs"
  "attempts (LogExhausted gs t # evs) = attempts evs"
  "attempts (evs @ evs') = attempts evs @ attempts evs'"
  by (simp_all add: attempts_def)

lemma escalations_simps [simp]:
  "escalations [] = []"
  "escalations (Sent c out # evs) = escalations evs"
  "escalations (LogRetry a n t # evs) = escalations evs"
  "escalations (LogEscalation a b t # evs) = (a, b) # escalations evs"
  "escalations (LogExhausted gs t # evs) = escalations evs"
  "escalations (evs @ evs') = escalations evs @ escalations evs'"
  by (simp_all add: escalations_def)

lemma emit_simps [simp]: "trace (emit ev s) = trace s @ [ev]" "world (emit ev s) = world s"
  by (simp_all add: emit_def)

definition failures :: "chat_config \<Rightarrow> exn list \<Rightarrow> attempt list" where
  "failures c es = map (\<lambda>e. (c, Inl e)) es"

lemma failures_simps [simp]:
  "failures c [] = []"
  "failures c (e # es) = (c, Inl e) # failures c es"
  "failures c (es @ es') = failures c es @ failures c es'"
  "length (failures c es) = length es"
  by (simp_all add: failures_def)

lemma set_failures: "set (failures c es) = (\<lambda>e. (c, Inl e)) ` set es"
  by (simp add: failures_def)

section \<open>The contract of one group\<close>

text \<open>
  What the cascade relies on: invoking a group sends requests to that group's client only,
  every attempt ends in a way the gateway may answer, the failures before the last request are transient, and a transient exception is returned
  only after the full number of attempts.
\<close>

locale group_invoker =
  fixes invoke :: "model_group \<Rightarrow> ('w llm_state, message) prog"
    and client :: "model_group \<Rightarrow> chat_config"
    and N :: int
    and possible :: "attempt \<Rightarrow> bool"
  assumes group: "invoke g s = (r, s') \<Longrightarrow>
    \<exists>evs es. trace s' = trace s @ evs \<and> escalations evs = [] \<and>
      attempts evs = failures (client g) es @ [(client g, r)] \<and>
      (\<forall>a \<in> set (attempts evs). possible a) \<and>
      (\<forall>e \<in> set es. is_transient e) \<and> int (length es) \<le> max 0 (N - 1) \<and>
      (\<forall>e. r = Inl e \<and> is_transient e \<longrightarrow> int (length es) = max 0 (N - 1))"

text \<open>The attempts a gateway can answer this way, in some state of the world.\<close>

definition gateway_answers :: "'w gateway \<Rightarrow> message list \<Rightarrow> attempt \<Rightarrow> bool" where
  "gateway_answers chat msgs a \<longleftrightarrow>
     (\<exists>w w'. chat (fst a) msgs w = (snd a, w'))"

lemma ainvoke_trace:
  assumes "ainvoke chat cfg msgs s = (r, s')"
  shows "trace s' = trace s @ [Sent cfg r]" and "gateway_answers chat msgs (cfg, r)"
  using assms by (auto simp: ainvoke_def gateway_answers_def split: prod.splits)

lemma retry_loop_trace:
  assumes "retry_loop m k is_transient (log_retry g) (ainvoke chat cfg msgs) s = (r, s')"
  shows "\<exists>evs es. trace s' = trace s @ evs \<and> escalations evs = [] \<and>
    attempts evs = failures cfg es @ [(cfg, r)] \<and>
    (\<forall>a \<in> set (attempts evs). gateway_answers chat msgs a) \<and>
    (\<forall>e \<in> set es. is_transient e) \<and> length es \<le> m \<and>
    (\<forall>e. r = Inl e \<and> is_transient e \<longrightarrow> length es = m)"
  using assms
proof (induction m arbitrary: k s)
  case 0
  then have "trace s' = trace s @ [Sent cfg r]" "gateway_answers chat msgs (cfg, r)"
    by (auto dest: ainvoke_trace)
  then show ?case by (intro exI [of _ "[Sent cfg r]"] exI [of _ "[]"]) simp
next
  case (Suc m)
  obtain r1 s1 where f: "ainvoke chat cfg msgs s = (r1, s1)"
    by (cases "ainvoke chat cfg msgs s")
  note t1 = ainvoke_trace [OF f]
  show ?case
  proof (cases "\<exists>e. r1 = Inl e \<and> is_transient e")
    case True
    then obtain e where e: "r1 = Inl e" "is_transient e" by blast
    with Suc.prems f have
      "retry_loop m (Suc k) is_transient (log_retry g) (ainvoke chat cfg msgs)
         (log_retry g (Suc k) e s1) = (r, s')" by simp
    from Suc.IH [OF this] obtain evs es where
      "trace s' = trace (log_retry g (Suc k) e s1) @ evs" "escalations evs = []"
      "attempts evs = failures cfg es @ [(cfg, r)]"
      "\<forall>a \<in> set (attempts evs). gateway_answers chat msgs a"
      "\<forall>e \<in> set es. is_transient e" "length es \<le> m"
      "\<forall>e. r = Inl e \<and> is_transient e \<longrightarrow> length es = m" by blast
    with t1 e show ?thesis
      by (intro exI [of _ "Sent cfg (Inl e) # LogRetry (group_value g) (Suc k) (type_name e) # evs"]
          exI [of _ "e # es"]) (simp add: log_retry_def)
  next
    case False
    with Suc.prems f have "r = r1" "s' = s1" by (auto split: sum.splits if_splits)
    with False t1 show ?thesis
      by (intro exI [of _ "[Sent cfg r]"] exI [of _ "[]"]) auto
  qed
qed

context retrying
begin

lemma R_eq: "R n p b f s = retry_ref n p b f s"
proof -
  let ?final = "\<lambda>k. final_attempt n p (fst (f (attempt_state b f s k))) k"
  have "?final (nat n)" by (simp add: final_attempt_def split: sum.split)
  then have 1: "?final (LEAST k. ?final k)" by (rule LeastI)
  have 2: "\<not> ?final j" if "j < (LEAST k. ?final k)" for j
    using that by (rule not_less_Least)
  from run [OF 2 1] ref.run [OF 2 1] show ?thesis by simp
qed

end

locale llm_retries = retrying R for R :: "('w llm_state, message) retry_runner"
begin

lemma invoke_group_invoker:
  "group_invoker (invoke_group R chat settings opts messages) (group_client settings opts)
     (opt_max_attempts opts) (gateway_answers chat messages)"
proof
  fix g r and s s' :: "'w llm_state"
  assume "invoke_group R chat settings opts messages g s = (r, s')"
  then have "retry_loop (nat (opt_max_attempts opts - 1)) 0 is_transient (log_retry g)
      (ainvoke chat (group_client settings opts g) messages) s = (r, s')"
    by (simp add: invoke_group_def R_eq retry_ref_def)
  from retry_loop_trace [OF this] show "\<exists>evs es. trace s' = trace s @ evs \<and> escalations evs = [] \<and>
      attempts evs = failures (group_client settings opts g) es @
        [(group_client settings opts g, r)] \<and>
      (\<forall>a \<in> set (attempts evs). gateway_answers chat messages a) \<and>
      (\<forall>e \<in> set es. is_transient e) \<and> int (length es) \<le> max 0 (opt_max_attempts opts - 1) \<and>
      (\<forall>e. r = Inl e \<and> is_transient e \<longrightarrow> int (length es) = max 0 (opt_max_attempts opts - 1))"
    by (fastforce simp: max_def)
qed

end

sublocale llm_retries \<subseteq> grp: group_invoker
  "invoke_group R chat settings opts messages" "group_client settings opts" "opt_max_attempts opts"
  "gateway_answers chat messages"
  for chat settings opts messages
  by (rule invoke_group_invoker)

interpretation llm_ref: llm_retries "retry_ref :: ('w llm_state, message) retry_runner"
  by unfold_locales

section \<open>The contract of the cascade\<close>

text \<open>
  \<open>cascade_run client N tried gs hs ats r\<close>: with the groups \<open>tried\<close> already given up, a cascade
  over \<open>gs\<close> may contact the groups \<open>hs\<close> by the attempts \<open>ats\<close> and end in \<open>r\<close>. A group is given up
  after \<open>N\<close> transient failures (at least one), and only then is the next one contacted.
\<close>

inductive cascade_run ::
  "(model_group \<Rightarrow> chat_config) \<Rightarrow> int \<Rightarrow> model_group list \<Rightarrow> model_group list \<Rightarrow>
     model_group list \<Rightarrow> attempt list \<Rightarrow> exn + message \<Rightarrow> bool"
  for client N where
  settled: "(\<forall>e \<in> set es. is_transient e) \<Longrightarrow> int (length es) < max 1 N \<Longrightarrow>
    (\<forall>e. r = Inl e \<longrightarrow> \<not> is_transient e) \<Longrightarrow>
    cascade_run client N tried (g # gs) [g] (failures (client g) es @ [(client g, r)]) r"
| escalated: "(\<forall>e \<in> set es. is_transient e) \<Longrightarrow> int (length es) = max 1 N \<Longrightarrow>
    cascade_run client N (tried @ [g]) gs hs ats r \<Longrightarrow>
    cascade_run client N tried (g # gs) (g # hs) (failures (client g) es @ ats) r"
| exhausted: "(\<forall>e \<in> set es. is_transient e) \<Longrightarrow> int (length es) = max 1 N \<Longrightarrow>
    cascade_run client N tried [g] [g] (failures (client g) es)
      (Inl (LLMCascadeExhaustedError (tried @ [g]) (last es)))"

inductive_cases cascade_run_NilE: "cascade_run client N tried [] hs ats r"
inductive_cases cascade_run_ConsE: "cascade_run client N tried (g # gs) hs ats r"

lemma cascade_run_nonempty: "cascade_run client N tried gs hs ats r \<Longrightarrow> hs \<noteq> [] \<and> gs \<noteq> [] \<and> hd hs = hd gs"
  by (induction rule: cascade_run.induct) auto

context group_invoker
begin

lemma cascade_refines:
  assumes "gs \<noteq> []" and "cascade_loop invoke tried last_error gs s = (r, s')"
  shows "\<exists>evs hs. trace s' = trace s @ evs \<and> cascade_run client N tried gs hs (attempts evs) r \<and>
    (\<forall>a \<in> set (attempts evs). possible a) \<and>
    escalations evs = zip (map group_value hs) (tl (map group_value hs))"
  using assms
proof (induction gs arbitrary: tried last_error s)
  case Nil
  then show ?case by simp
next
  case (Cons g gs)
  obtain r1 s1 where inv: "invoke g s = (r1, s1)" by (cases "invoke g s")
  from group [OF inv] obtain evs es where t1: "trace s1 = trace s @ evs" "escalations evs = []"
    "attempts evs = failures (client g) es @ [(client g, r1)]"
    "\<forall>a \<in> set (attempts evs). possible a"
    and es: "\<forall>e \<in> set es. is_transient e" "int (length es) \<le> max 0 (N - 1)"
    "\<forall>e. r1 = Inl e \<and> is_transient e \<longrightarrow> int (length es) = max 0 (N - 1)" by blast
  show ?case
  proof (cases "\<exists>e. r1 = Inl e \<and> is_transient e")
    case False
    with Cons.prems inv have eq: "r = r1" "s' = s1"
      by (auto split: sum.splits if_splits)
    have "cascade_run client N tried (g # gs) [g] (attempts evs) r"
      unfolding t1(3) eq by (rule settled) (use es False in auto)
    with t1 eq show ?thesis by (intro exI [of _ evs] exI [of _ "[g]"]) simp
  next
    case True
    then obtain e where e: "r1 = Inl e" "is_transient e" by blast
    let ?es = "es @ [e]"
    from es e have fs: "\<forall>e \<in> set ?es. is_transient e" "int (length ?es) = max 1 N" by auto
    have at: "attempts evs = failures (client g) ?es" using t1 e by simp
    show ?thesis
    proof (cases gs)
      case Nil
      with Cons.prems inv e have "r = Inl (LLMCascadeExhaustedError (tried @ [g]) (last ?es))"
        and s': "s' = emit (LogExhausted (map group_value (tried @ [g])) (type_name e)) s1"
        by (auto simp: is_transient_Exception)
      with exhausted [OF fs, of client tried g] at Nil
      have "cascade_run client N tried (g # gs) [g] (attempts evs) r" by simp
      with t1 s' show ?thesis
        by (intro exI [of _ "evs @ [LogExhausted (map group_value (tried @ [g])) (type_name e)]"]
            exI [of _ "[g]"]) simp
    next
      case (Cons h gs')
      let ?ev = "LogEscalation (group_value g) (group_value h) (type_name e)"
      from Cons Cons.prems inv e
      have "cascade_loop invoke (tried @ [g]) (Some e) gs (emit ?ev s1) = (r, s')"
        by (simp add: is_transient_Exception del: cascade_loop.simps) (simp add: is_transient_Exception)
      from Cons.IH [OF _ this] Cons obtain evs' hs where
        2: "trace s' = trace (emit ?ev s1) @ evs'"
        "cascade_run client N (tried @ [g]) gs hs (attempts evs') r"
        "\<forall>a \<in> set (attempts evs'). possible a"
        "escalations evs' = zip (map group_value hs) (tl (map group_value hs))" by blast
      from cascade_run_nonempty [OF 2(2)] Cons obtain hs' where hs: "hs = h # hs'"
        by (cases hs) auto
      from escalated [OF fs 2(2)] at
      have "cascade_run client N tried (g # gs) (g # hs) (attempts (evs @ ?ev # evs')) r" by simp
      with t1 2 hs show ?thesis
        by (intro exI [of _ "evs @ ?ev # evs'"] exI [of _ "g # hs"]) auto
    qed
  qed
qed

end

section \<open>Consequences of the contract\<close>

lemma failures_last: "es \<noteq> [] \<Longrightarrow> last (failures c es) = (c, Inl (last es))"
  by (simp add: failures_def last_map)

lemma cascade_run_prefix: "cascade_run client N tried gs hs ats r \<Longrightarrow> \<exists>rest. gs = hs @ rest"
  by (induction rule: cascade_run.induct) auto

lemma cascade_run_blocks:
  "cascade_run client N tried gs hs ats r \<Longrightarrow>
     \<exists>ns. length ns = length hs \<and> (\<forall>n \<in> set ns. 1 \<le> n \<and> int n \<le> max 1 N) \<and>
       map fst ats = concat (map2 (\<lambda>n g. replicate n (client g)) ns hs)"
proof (induction rule: cascade_run.induct)
  case (settled es r tried g gs)
  then show ?case
    by (intro exI [of _ "[Suc (length es)]"])
      (auto simp: failures_def comp_def map_replicate_const replicate_append_same)
next
  case (escalated es tried g gs hs ats r)
  then obtain ns where "length ns = length hs" "\<forall>n \<in> set ns. 1 \<le> n \<and> int n \<le> max 1 N"
    "map fst ats = concat (map2 (\<lambda>n g. replicate n (client g)) ns hs)" by blast
  with escalated(2) show ?case
    by (intro exI [of _ "length es # ns"])
      (auto simp: failures_def comp_def map_replicate_const)
next
  case (exhausted es tried g)
  then show ?case
    by (intro exI [of _ "[length es]"]) (auto simp: failures_def comp_def map_replicate_const)
qed

lemma cascade_run_clients:
  "cascade_run client N tried gs hs ats r \<Longrightarrow> fst ` set ats \<subseteq> client ` set hs"
  by (induction rule: cascade_run.induct) (auto simp: set_failures)

lemma cascade_run_result:
  "cascade_run client N tried gs hs ats r \<Longrightarrow>
     ats \<noteq> [] \<and> (\<forall>a \<in> set (butlast ats). \<exists>e. snd a = Inl e \<and> is_transient e) \<and>
     ((snd (last ats) = r \<and> (\<forall>e. r = Inl e \<longrightarrow> \<not> is_transient e)) \<or>
      (\<exists>e. snd (last ats) = Inl e \<and> is_transient e \<and> hs = gs \<and>
         r = Inl (LLMCascadeExhaustedError (tried @ gs) e) \<and>
         int (length ats) = int (length gs) * max 1 N))"
proof (induction rule: cascade_run.induct)
  case (settled es r tried g gs)
  then show ?case by (auto simp: set_failures)
next
  case (escalated es tried g gs hs ats r)
  then show ?case
    by (auto simp: set_failures butlast_append algebra_simps)
next
  case (exhausted es tried g)
  then have "es \<noteq> []" by auto
  then have "last es \<in> set es" "set (butlast (failures (client g) es)) \<subseteq> set (failures (client g) es)"
    by (auto dest: in_set_butlastD)
  with exhausted \<open>es \<noteq> []\<close> show ?case
    by (auto simp: failures_last set_failures) (auto simp: failures_def)
qed

lemma map_fst_failures [simp]: "map fst (failures c es) = replicate (length es) c"
  by (simp add: failures_def comp_def map_replicate_const)

lemma cascade_run_up:
  "cascade_run client N tried gs hs ats r \<Longrightarrow> gs = ds @ g # rest \<Longrightarrow>
     (\<forall>a \<in> set ats. \<forall>d \<in> set ds. fst a = client d \<longrightarrow> (\<exists>e. snd a = Inl e \<and> is_transient e)) \<Longrightarrow>
     (\<forall>a \<in> set ats. fst a = client g \<longrightarrow> (\<exists>m. snd a = Inr m)) \<Longrightarrow>
     hs = ds @ [g] \<and> (\<exists>m. r = Inr m) \<and> last ats = (client g, r) \<and>
       map fst ats = concat (map (\<lambda>d. replicate (nat (max 1 N)) (client d)) ds) @ [client g]"
proof (induction arbitrary: ds rule: cascade_run.induct)
  case (settled es r tried g' gs)
  have "(client g', r) \<in> set (failures (client g') es @ [(client g', r)])" by simp
  with settled show ?case
    by (cases ds; cases r; cases es) (auto simp: set_failures)
next
  case (escalated es tried g' gs hs ats r)
  then obtain e where "e \<in> set es" by (cases es) auto
  then have "(client g', Inl e) \<in> set (failures (client g') es @ ats)" by (simp add: set_failures)
  moreover have "ats \<noteq> []" using cascade_run_result [OF escalated(3)] by simp
  ultimately show ?case using escalated
    by (cases ds) (auto simp: Ball_def algebra_simps)
next
  case (exhausted es tried g')
  then obtain e where "e \<in> set es" by (cases es) auto
  with exhausted show ?case by (cases ds) (auto simp: set_failures)
qed

lemma length_map_fst_concat:
  "map fst ats = concat (map (\<lambda>d. replicate (nat (max 1 N)) (client d)) ds) @ [c] \<Longrightarrow>
    int (length ats) = int (length ds) * max 1 N + 1"
proof -
  assume "map fst ats = concat (map (\<lambda>d. replicate (nat (max 1 N)) (client d)) ds) @ [c]"
  then have "length ats = length (concat (map (\<lambda>d. replicate (nat (max 1 N)) (client d)) ds) @ [c])"
    by (metis length_map)
  moreover have "0 \<le> max 1 N" by simp
  ultimately show ?thesis by (simp add: length_concat comp_def sum_list_triv)
qed

lemma cascade_run_all_down:
  assumes "cascade_run client N tried gs hs ats r"
    and "\<forall>a \<in> set ats. \<exists>e. snd a = Inl e \<and> is_transient e"
  shows "\<exists>e. r = Inl (LLMCascadeExhaustedError (tried @ gs) e) \<and> is_transient e \<and>
    int (length ats) = int (length gs) * max 1 N"
proof -
  note h = cascade_run_result [OF assms(1)]
  then have "last ats \<in> set ats" by auto
  with assms(2) obtain e where "snd (last ats) = Inl e" "is_transient e" by blast
  with h show ?thesis by (cases r) auto
qed

subsection \<open>The groups a cascade may visit\<close>

lemma CASCADE_sorted: "sorted CASCADE" "distinct CASCADE"
  by (simp_all add: CASCADE_def group_order_simps)

lemma length_CASCADE: "length CASCADE = 3"
  by (simp add: CASCADE_def)

lemma cascade_of_facts: "sorted (cascade_of a)" "distinct (cascade_of a)" "length (cascade_of a) \<le> 3"
proof -
  obtain P where P: "cascade_of a = filter P CASCADE" by (simp add: cascade_of_def Let_def)
  show "sorted (cascade_of a)"
    unfolding P by (rule sorted_filter [of id, simplified]) (rule CASCADE_sorted)
  show "distinct (cascade_of a)" unfolding P by (rule distinct_filter) (rule CASCADE_sorted)
  show "length (cascade_of a) \<le> 3" unfolding P by (metis length_CASCADE length_filter_le)
qed

lemma from_group_facts:
  assumes "sorted gs" and "g \<in> set gs"
  shows "from_group g gs \<noteq> []" and "hd (from_group g gs) = g" and "sorted (from_group g gs)"
    and "set (from_group g gs) \<subseteq> {h \<in> set gs. g \<le> h}" and "length (from_group g gs) \<le> length gs"
proof -
  show ne: "from_group g gs \<noteq> []" using assms(2) by (auto simp: from_group_def)
  then show hd: "hd (from_group g gs) = g"
    using hd_dropWhile [of "\<lambda>h. h \<noteq> g" gs] by (auto simp: from_group_def)
  show so: "sorted (from_group g gs)" using assms(1) by (simp add: from_group_def sorted_dropWhile)
  have "set (from_group g gs) \<subseteq> set gs" by (auto simp: from_group_def dest: set_dropWhileD)
  moreover have "g \<le> h" if "h \<in> set (from_group g gs)" for h
    using ne hd so that by (cases "from_group g gs") auto
  ultimately show "set (from_group g gs) \<subseteq> {h \<in> set gs. g \<le> h}" by blast
  show "length (from_group g gs) \<le> length gs" by (simp add: from_group_def length_dropWhile_le)
qed

context llm_retries
begin

lemma fallback_run:
  assumes "allowed \<noteq> Some []" and "start \<in> set (cascade_of allowed)"
    and "ainvoke_with_fallback R chat messages settings start allowed opts s = (r, s')"
  shows "\<exists>evs hs. trace s' = trace s @ evs \<and>
    cascade_run (group_client settings opts) (opt_max_attempts opts) []
      (from_group start (cascade_of allowed)) hs (attempts evs) r \<and>
    (\<forall>a \<in> set (attempts evs). gateway_answers chat messages a) \<and>
    escalations evs = zip (map group_value hs) (tl (map group_value hs))"
proof -
  from assms have "cascade_loop (invoke_group R chat settings opts messages) [] None
      (from_group start (cascade_of allowed)) s = (r, s')"
    by (simp add: ainvoke_with_fallback_def Let_def)
  then show ?thesis
    by (rule grp.cascade_refines [rotated])
      (simp add: from_group_facts(1) [OF cascade_of_facts(1) assms(2)])
qed

lemma fallback_rejects:
  assumes "allowed = Some [] \<or> start \<notin> set (cascade_of allowed)"
    and "ainvoke_with_fallback R chat messages settings start allowed opts s = (r, s')"
  shows "s' = s \<and> (\<exists>m. r = Inl (ValueError m))"
  using assms by (auto simp: ainvoke_with_fallback_def Let_def start_error_def split: if_splits)

end

lemma llm_retriesI: "retrying R \<Longrightarrow> llm_retries R"
  by (simp add: llm_retries_def)

lemma group_client_simps [simp]:
  "cc_model (group_client settings opts g) = group_value g"
  "cc_max_retries (group_client settings opts g) = 0"
  by (simp_all add: group_client_def get_llm_def bind_tools_def Let_def split: option.splits)

lemma group_client_inject: "group_client settings opts g = group_client settings opts h \<longleftrightarrow> g = h"
  by (metis group_client_simps(1) group_value_inject)

text \<open>The groups from \<open>start\<close> on that the call may contact.\<close>

definition reachable_groups :: "model_group \<Rightarrow> model_group list option \<Rightarrow> model_group list" where
  "reachable_groups start allowed = from_group start (cascade_of allowed)"

lemma reachable_groups_set:
  assumes "start \<in> set (cascade_of allowed)" and "g \<in> set (reachable_groups start allowed)"
  shows "g \<in> set CASCADE \<and> start \<le> g \<and> (\<forall>gs. allowed = Some gs \<longrightarrow> g \<in> set gs)"
  using from_group_facts(4) [OF cascade_of_facts(1) assms(1)] assms(2)
  by (auto simp: reachable_groups_def cascade_of_def Let_def split: option.splits)

text \<open>A group the caller lets the call contact.\<close>

definition permitted :: "model_group \<Rightarrow> model_group list option \<Rightarrow> model_group \<Rightarrow> bool" where
  "permitted start allowed g =
     (g \<noteq> SOVEREIGN_EMBED \<and> start \<le> g \<and> (case allowed of None \<Rightarrow> True | Some gs \<Rightarrow> g \<in> set gs))"

lemma reachable_groups_permitted:
  assumes "start \<in> set (cascade_of allowed)" and "g \<in> set (reachable_groups start allowed)"
  shows "permitted start allowed g"
proof -
  from reachable_groups_set [OF assms] have "g \<in> set CASCADE" "start \<le> g"
    "\<forall>gs. allowed = Some gs \<longrightarrow> g \<in> set gs" by simp_all
  then show ?thesis by (auto simp: permitted_def CASCADE_def split: option.split)
qed

lemma length_concat_blocks:
  "length ns = length hs \<Longrightarrow> length (concat (map2 (\<lambda>n g. replicate n (f g)) ns hs)) = sum_list ns"
  by (induction ns hs rule: list_induct2) simp_all

lemma sum_list_bound: "(\<forall>n \<in> set ns. int n \<le> b) \<Longrightarrow> int (sum_list ns) \<le> int (length ns) * b"
  by (induction ns) (auto simp: algebra_simps)

section \<open>Properties of the cascade\<close>

text \<open>C2. Sovereignty lock: whatever the gateway answers, every request that
  \<open>ainvoke_with_fallback\<close> sends goes to the client of a group that the caller permits (allowed,
  not before the start group, never the embeddings group), with the SDK's own retries switched
  off.\<close>

theorem cascade_contacts_only_permitted:
  assumes "retrying R"
    and "ainvoke_with_fallback R chat messages settings start allowed opts s = (r, s')"
  shows "\<exists>evs. trace s' = trace s @ evs \<and>
    (\<forall>a \<in> set (attempts evs). cc_max_retries (fst a) = 0 \<and>
       (\<exists>g. permitted start allowed g \<and> fst a = group_client settings opts g \<and>
          cc_model (fst a) = group_value g))"
proof (cases "allowed = Some [] \<or> start \<notin> set (cascade_of allowed)")
  case True
  with llm_retries.fallback_rejects [OF llm_retriesI] assms have "s' = s" by blast
  then show ?thesis by (intro exI [of _ "[]"]) simp
next
  case False
  with llm_retries.fallback_run [OF llm_retriesI] assms obtain evs hs where
    t: "trace s' = trace s @ evs" and
    run: "cascade_run (group_client settings opts) (opt_max_attempts opts) []
      (from_group start (cascade_of allowed)) hs (attempts evs) r" by blast
  have "cc_max_retries (fst a) = 0 \<and> (\<exists>g. permitted start allowed g \<and>
      fst a = group_client settings opts g \<and> cc_model (fst a) = group_value g)"
    if a: "a \<in> set (attempts evs)" for a
  proof -
    from a cascade_run_clients [OF run] obtain g where
      g: "g \<in> set hs" "fst a = group_client settings opts g" by blast
    then have "g \<in> set (reachable_groups start allowed)"
      using cascade_run_prefix [OF run] by (auto simp: reachable_groups_def)
    with False have "permitted start allowed g" by (simp add: reachable_groups_permitted)
    with g(2) show ?thesis by (intro conjI exI [of _ g]) simp_all
  qed
  with t show ?thesis by blast
qed

text \<open>An example gateway: the sovereign groups answer 503, the others succeed.\<close>

definition sovereign_down :: "nat gateway" where
  "sovereign_down cfg messages w =
     (if startswith (cc_model cfg) (py ''sovereign'')
      then (Inl (APIStatusError (py ''InternalServerError'') 503 []), w + 1)
      else (Inr (ai_text (cc_model cfg)), w + 1))"

definition example_settings :: settings where
  "example_settings =
     \<lparr>APP_ENV = py ''ci'', LOG_LEVEL = py ''INFO'', DATABASE_URL = [], REDIS_URL = [],
      LITELLM_BASE_URL = py ''http://gw'', LITELLM_API_KEY = py ''sk'', LANGFUSE_HOST = [],
      LANGFUSE_PUBLIC_KEY = [], LANGFUSE_SECRET_KEY = [], APP_API_KEY = py ''k'',
      CHAT_STREAM_TIMEOUT_SECONDS = 120\<rparr>"

definition example_start :: "nat llm_state" where
  "example_start = \<lparr>world = 0, trace = []\<rparr>"

text \<open>The finley-2 lock on that gateway: both sovereign groups fail, the frontier is not tried.\<close>

theorem cascade_contacts_only_permitted_witness:
  "\<exists>evs. trace (snd (ainvoke_with_fallback retry_ref sovereign_down [] example_settings
       SOVEREIGN_CHEAP (Some [SOVEREIGN_PREMIUM, SOVEREIGN_CHEAP]) default_options example_start)) = evs \<and>
     length (attempts evs) = 6 \<and>
     (\<forall>a \<in> set (attempts evs). cc_max_retries (fst a) = 0 \<and> cc_model (fst a) \<noteq> group_value FRONTIER)"
proof -
  let ?res = "ainvoke_with_fallback retry_ref sovereign_down [] example_settings
       SOVEREIGN_CHEAP (Some [SOVEREIGN_PREMIUM, SOVEREIGN_CHEAP]) default_options example_start"
  have n: "length (attempts (trace (snd ?res))) = 6" by code_simp
  have "?res = (fst ?res, snd ?res)" by simp
  from cascade_contacts_only_permitted [OF ref.retrying_axioms this]
  obtain evs where "trace (snd ?res) = evs" "\<forall>a \<in> set (attempts evs). cc_max_retries (fst a) = 0 \<and>
      (\<exists>g. permitted SOVEREIGN_CHEAP (Some [SOVEREIGN_PREMIUM, SOVEREIGN_CHEAP]) g \<and>
        cc_model (fst a) = group_value g)" by (auto simp: example_start_def)
  moreover have "group_value g \<noteq> group_value FRONTIER"
    if "permitted SOVEREIGN_CHEAP (Some [SOVEREIGN_PREMIUM, SOVEREIGN_CHEAP]) g" for g
    using that by (auto simp: permitted_def group_value_inject)
  ultimately show ?thesis using n by (intro exI [of _ evs]) metis
qed

text \<open>C7. Order and budget: the models contacted are the groups of the permitted cascade, in
  cascade order from the start group and without gaps, each tried between once and
  \<open>max_attempts_per_group\<close> times in a row; one escalation line is logged per step to the next
  group; and a call sends at most three times \<open>max_attempts_per_group\<close> requests.\<close>

theorem cascade_order_and_budget:
  assumes "retrying R" and "allowed \<noteq> Some []" and "start \<in> set (cascade_of allowed)"
    and "ainvoke_with_fallback R chat messages settings start allowed opts s = (r, s')"
  shows "\<exists>evs ns hs rest. trace s' = trace s @ evs \<and>
    from_group start (cascade_of allowed) = hs @ rest \<and> hd hs = start \<and> sorted hs \<and> distinct hs \<and>
    length ns = length hs \<and> (\<forall>n \<in> set ns. 1 \<le> n \<and> int n \<le> max 1 (opt_max_attempts opts)) \<and>
    map (cc_model \<circ> fst) (attempts evs) = concat (map2 (\<lambda>n g. replicate n (group_value g)) ns hs) \<and>
    escalations evs = zip (map group_value hs) (tl (map group_value hs)) \<and>
    int (length (attempts evs)) \<le> 3 * max 1 (opt_max_attempts opts)"
proof -
  from llm_retries.fallback_run [OF llm_retriesI] assms obtain evs hs where
    t: "trace s' = trace s @ evs" and
    run: "cascade_run (group_client settings opts) (opt_max_attempts opts) []
      (from_group start (cascade_of allowed)) hs (attempts evs) r" and
    esc: "escalations evs = zip (map group_value hs) (tl (map group_value hs))" by blast
  note fg = from_group_facts [OF cascade_of_facts(1) assms(3)]
  from cascade_run_prefix [OF run] obtain rest where
    pre: "from_group start (cascade_of allowed) = hs @ rest" by blast
  from cascade_run_nonempty [OF run] fg(2) have hd: "hd hs = start" by simp
  have len: "length hs \<le> 3" using fg(5) cascade_of_facts(3) [of allowed] by (simp add: pre)
  have so: "sorted hs" using fg(3) by (simp add: pre sorted_append)
  have "distinct (from_group start (cascade_of allowed))"
    by (simp add: from_group_def distinct_dropWhile cascade_of_facts)
  then have di: "distinct hs" by (simp add: pre)
  from cascade_run_blocks [OF run] obtain ns where
    ns: "length ns = length hs" "\<forall>n \<in> set ns. 1 \<le> n \<and> int n \<le> max 1 (opt_max_attempts opts)" and
    ats: "map fst (attempts evs) = concat (map2 (\<lambda>n g. replicate n (group_client settings opts g)) ns hs)"
    by blast
  have "map (cc_model \<circ> fst) (attempts evs) = map cc_model (map fst (attempts evs))" by simp
  also have "\<dots> = concat (map2 (\<lambda>n g. replicate n (group_value g)) ns hs)"
    by (simp add: ats map_concat comp_def case_prod_unfold)
  finally have models: "map (cc_model \<circ> fst) (attempts evs) =
      concat (map2 (\<lambda>n g. replicate n (group_value g)) ns hs)" .
  have "length (attempts evs) = length (map fst (attempts evs))" by simp
  also have "\<dots> = sum_list ns" using ns(1) by (simp add: ats length_concat_blocks)
  finally have "int (length (attempts evs)) \<le> int (length hs) * max 1 (opt_max_attempts opts)"
    using sum_list_bound [of ns "max 1 (opt_max_attempts opts)"] ns by simp
  also have "\<dots> \<le> 3 * max 1 (opt_max_attempts opts)" using len by (intro mult_right_mono) auto
  finally show ?thesis using t pre hd so di ns models esc by blast
qed

theorem cascade_order_and_budget_witness:
  "\<exists>evs. trace (snd (ainvoke_with_fallback retry_ref sovereign_down [] example_settings
       SOVEREIGN_CHEAP None default_options example_start)) = evs \<and>
     map (cc_model \<circ> fst) (attempts evs) = replicate 3 (py ''sovereign-cheap'') @
       replicate 3 (py ''sovereign-premium'') @ [py ''frontier''] \<and>
     int (length (attempts evs)) \<le> 9"
proof -
  let ?res = "ainvoke_with_fallback retry_ref sovereign_down [] example_settings
       SOVEREIGN_CHEAP None default_options example_start"
  have m: "map (cc_model \<circ> fst) (attempts (trace (snd ?res))) = replicate 3 (py ''sovereign-cheap'') @
       replicate 3 (py ''sovereign-premium'') @ [py ''frontier'']" by code_simp
  have "SOVEREIGN_CHEAP \<in> set (cascade_of None)" by code_simp
  moreover have "?res = (fst ?res, snd ?res)" by simp
  ultimately obtain evs where "trace (snd ?res) = trace example_start @ evs"
    and "int (length (attempts evs)) \<le> 3 * max 1 (opt_max_attempts default_options)"
    using cascade_order_and_budget [OF ref.retrying_axioms, of None] by blast
  with m show ?thesis
    by (intro exI [of _ evs])
      (simp add: example_start_def default_options_def DEFAULT_MAX_ATTEMPTS_PER_GROUP_def)
qed

text \<open>C8. The result of the cascade is classified exactly: every attempt but the last failed
  transiently; either the last attempt succeeded or failed non-transiently and its message or
  exception is returned as it is, or it failed transiently too, and then every group from the
  start on was tried in full and \<open>LLMCascadeExhaustedError\<close> carries those groups and the last
  error. The message returned is one the gateway gave.\<close>

theorem cascade_result_classified:
  assumes "retrying R" and "allowed \<noteq> Some []" and "start \<in> set (cascade_of allowed)"
    and "ainvoke_with_fallback R chat messages settings start allowed opts s = (r, s')"
  shows "\<exists>evs as cfg res. trace s' = trace s @ evs \<and> attempts evs = as @ [(cfg, res)] \<and>
    (\<exists>w w'. chat cfg messages w = (res, w')) \<and>
    (\<forall>a \<in> set as. \<exists>e. snd a = Inl e \<and> is_transient e) \<and>
    (if \<exists>e. res = Inl e \<and> is_transient e
     then r = Inl (LLMCascadeExhaustedError (from_group start (cascade_of allowed)) (projl res)) \<and>
       int (length (attempts evs)) =
         int (length (from_group start (cascade_of allowed))) * max 1 (opt_max_attempts opts)
     else r = res)"
proof -
  from llm_retries.fallback_run [OF llm_retriesI] assms obtain evs hs where
    t: "trace s' = trace s @ evs" and
    run: "cascade_run (group_client settings opts) (opt_max_attempts opts) []
      (from_group start (cascade_of allowed)) hs (attempts evs) r" and
    ans: "\<forall>a \<in> set (attempts evs). gateway_answers chat messages a" by blast
  note res = cascade_run_result [OF run]
  then obtain as cfg res where split: "attempts evs = as @ [(cfg, res)]"
    by (metis append_butlast_last_id surj_pair)
  then have "(cfg, res) \<in> set (attempts evs)" by simp
  with ans have "\<exists>w w'. chat cfg messages w = (res, w')" by (fastforce simp: gateway_answers_def)
  then show ?thesis using t res split
    by (intro exI [of _ evs] exI [of _ as] exI [of _ cfg] exI [of _ res]) auto
qed

theorem cascade_result_classified_witness:
  "\<exists>evs as cfg res. trace (snd (ainvoke_with_fallback retry_ref sovereign_down [] example_settings
       SOVEREIGN_CHEAP (Some [SOVEREIGN_CHEAP]) default_options example_start)) = evs \<and>
     attempts evs = as @ [(cfg, res)] \<and> int (length (attempts evs)) = 3 \<and>
     fst (ainvoke_with_fallback retry_ref sovereign_down [] example_settings
       SOVEREIGN_CHEAP (Some [SOVEREIGN_CHEAP]) default_options example_start) =
       Inl (LLMCascadeExhaustedError [SOVEREIGN_CHEAP] (projl res))"
proof -
  let ?al = "Some [SOVEREIGN_CHEAP]"
  let ?res = "ainvoke_with_fallback retry_ref sovereign_down [] example_settings
       SOVEREIGN_CHEAP ?al default_options example_start"
  have al: "?al \<noteq> Some []" by simp
  have st: "SOVEREIGN_CHEAP \<in> set (cascade_of ?al)" by code_simp
  have eq: "?res = (fst ?res, snd ?res)" by simp
  have groups: "from_group SOVEREIGN_CHEAP (cascade_of ?al) = [SOVEREIGN_CHEAP]" by code_simp
  from cascade_result_classified [OF ref.retrying_axioms al st eq] obtain evs as cfg res where
    1: "trace (snd ?res) = trace example_start @ evs" "attempts evs = as @ [(cfg, res)]" and
    2: "if \<exists>e. res = Inl e \<and> is_transient e
     then fst ?res = Inl (LLMCascadeExhaustedError [SOVEREIGN_CHEAP] (projl res)) \<and>
       int (length (attempts evs)) = int (length [SOVEREIGN_CHEAP]) * max 1 (opt_max_attempts default_options)
     else fst ?res = res"
    unfolding groups by blast
  have "\<not> (case last (attempts (trace (snd ?res))) of (c, Inl e) \<Rightarrow> \<not> is_transient e | (c, Inr m) \<Rightarrow> True)"
    by code_simp
  with 1 have "\<exists>e. res = Inl e \<and> is_transient e"
    by (cases res) (simp_all add: example_start_def)
  with 1 2 show ?thesis
    by (intro exI [of _ evs] exI [of _ as] exI [of _ cfg] exI [of _ res])
      (simp add: example_start_def default_options_def DEFAULT_MAX_ATTEMPTS_PER_GROUP_def)
qed

text \<open>C9. Liveness: if every group before \<open>g\<close> keeps failing transiently and \<open>g\<close> answers, the call
  returns an answer of \<open>g\<close>. Its requests are, in this order, \<open>max_attempts_per_group\<close> (at least one)
  to each of the failing groups and then one to \<open>g\<close>, and no others.\<close>

theorem cascade_reaches_available_group:
  assumes "retrying R" and "allowed \<noteq> Some []" and "start \<in> set (cascade_of allowed)"
    and "from_group start (cascade_of allowed) = ds @ g # rest"
    and "\<forall>d \<in> set ds. \<forall>w. \<exists>e w'. chat (group_client settings opts d) messages w = (Inl e, w') \<and> is_transient e"
    and "\<forall>w. \<exists>m w'. chat (group_client settings opts g) messages w = (Inr m, w')"
    and "ainvoke_with_fallback R chat messages settings start allowed opts s = (r, s')"
  shows "\<exists>evs m. trace s' = trace s @ evs \<and> r = Inr m \<and>
    (\<exists>w w'. chat (group_client settings opts g) messages w = (Inr m, w')) \<and>
    map fst (attempts evs) = concat (map (\<lambda>d. replicate (nat (max 1 (opt_max_attempts opts)))
      (group_client settings opts d)) ds) @ [group_client settings opts g] \<and>
    int (length (attempts evs)) = int (length ds) * max 1 (opt_max_attempts opts) + 1"
proof -
  from llm_retries.fallback_run [OF llm_retriesI] assms(1,2,3,7) obtain evs hs where
    t: "trace s' = trace s @ evs" and
    run: "cascade_run (group_client settings opts) (opt_max_attempts opts) []
      (from_group start (cascade_of allowed)) hs (attempts evs) r" and
    ans: "\<forall>a \<in> set (attempts evs). gateway_answers chat messages a" by blast
  have down: "\<exists>e. snd a = Inl e \<and> is_transient e"
    if "a \<in> set (attempts evs)" "d \<in> set ds" "fst a = group_client settings opts d" for a d
  proof -
    from ans that(1,3) obtain w w' where "chat (group_client settings opts d) messages w = (snd a, w')"
      by (auto simp: gateway_answers_def)
    moreover from assms(5) that(2) obtain e w'' where
      "chat (group_client settings opts d) messages w = (Inl e, w'')" "is_transient e" by blast
    ultimately show ?thesis by (intro exI [of _ e]) simp
  qed
  have up: "\<exists>m. snd a = Inr m"
    if "a \<in> set (attempts evs)" "fst a = group_client settings opts g" for a
  proof -
    from ans that obtain w w' where "chat (group_client settings opts g) messages w = (snd a, w')"
      by (auto simp: gateway_answers_def)
    moreover from assms(6) obtain m w'' where
      "chat (group_client settings opts g) messages w = (Inr m, w'')" by blast
    ultimately show ?thesis by (intro exI [of _ m]) simp
  qed
  from cascade_run_up [OF run assms(4)] down up obtain m where
    r: "r = Inr m" "last (attempts evs) = (group_client settings opts g, r)"
    "map fst (attempts evs) = concat (map (\<lambda>d. replicate (nat (max 1 (opt_max_attempts opts)))
      (group_client settings opts d)) ds) @ [group_client settings opts g]" by blast
  have "last (attempts evs) \<in> set (attempts evs)" using cascade_run_result [OF run] by simp
  with ans r have "\<exists>w w'. chat (group_client settings opts g) messages w = (Inr m, w')"
    by (fastforce simp: gateway_answers_def)
  with t r length_map_fst_concat [OF r(3)] show ?thesis by blast
qed

theorem cascade_reaches_available_group_witness:
  "\<exists>evs m. trace (snd (ainvoke_with_fallback retry_ref sovereign_down [] example_settings
       SOVEREIGN_CHEAP None default_options example_start)) = evs \<and>
     fst (ainvoke_with_fallback retry_ref sovereign_down [] example_settings
       SOVEREIGN_CHEAP None default_options example_start) = Inr m \<and>
     map fst (attempts evs) =
       replicate 3 (group_client example_settings default_options SOVEREIGN_CHEAP) @
       replicate 3 (group_client example_settings default_options SOVEREIGN_PREMIUM) @
       [group_client example_settings default_options FRONTIER]"
proof -
  let ?res = "ainvoke_with_fallback retry_ref sovereign_down [] example_settings
       SOVEREIGN_CHEAP None default_options example_start"
  let ?ds = "[SOVEREIGN_CHEAP, SOVEREIGN_PREMIUM]"
  have groups: "from_group SOVEREIGN_CHEAP (cascade_of None) = ?ds @ FRONTIER # []"
    and st: "SOVEREIGN_CHEAP \<in> set (cascade_of None)" by code_simp+
  have up: "\<exists>m w'. sovereign_down (group_client example_settings default_options FRONTIER) [] w = (Inr m, w')" for w
    by (simp add: sovereign_down_def)
  have down: "\<exists>e w'. sovereign_down (group_client example_settings default_options d) [] w = (Inl e, w') \<and>
      is_transient e" if "d \<in> set ?ds" for d w
    using that by (auto simp: sovereign_down_def)
  have "?res = (fst ?res, snd ?res)" by simp
  from cascade_reaches_available_group [OF ref.retrying_axioms _ st groups _ _ this] up down
  obtain evs m where "trace (snd ?res) = trace example_start @ evs" "fst ?res = Inr m"
    "map fst (attempts evs) = concat (map (\<lambda>d. replicate (nat (max 1 (opt_max_attempts default_options)))
      (group_client example_settings default_options d)) ?ds) @ [group_client example_settings default_options FRONTIER]"
    by blast
  moreover have "opt_max_attempts default_options = 3"
    by (simp add: default_options_def DEFAULT_MAX_ATTEMPTS_PER_GROUP_def)
  ultimately show ?thesis
    by (intro exI [of _ evs] exI [of _ m]) (simp add: example_start_def)
qed

end
