(* ===== verification/Gateway.thy ===== *)
theory Gateway
  imports Llm
begin

text \<open>
  gateway/litellm.config.yaml and gateway/litellm.ci.yaml: the deployments behind the model groups
  and the fallbacks between groups of the LiteLLM router, and what they make of the sovereignty
  cascade of app/agent/llm.py.

  The router is not part of the repository. What its documentation promises is the locale
  \<open>litellm_router\<close> (an answer comes from a deployment of the requested group or of one its fallbacks
  lead to, and its spend log records which) and its extension \<open>litellm_failover\<close> (while a deployment
  of the group or of its direct fallbacks is up, the request is answered). \<open>litellm_ref\<close> is a router
  with both.
\<close>

section \<open>The two configurations\<close>

text \<open>An entry of \<open>model_list\<close>: \<open>model_name\<close> is the alias of its group.\<close>

record deployment =
  dp_model_name :: pystr
  dp_model :: pystr
  dp_api_base :: "pystr option"
  dp_api_key :: pystr
  dp_mock_response :: "content option"

text \<open>
  What of a configuration decides which deployment answers; the connections, the cache and the
  master key are left out. \<open>fallbacks\<close> is a list of dictionaries of one key.
\<close>

record router_config =
  rt_model_list :: "deployment list"
  rt_num_retries :: nat
  rt_timeout :: nat
  rt_fallbacks :: "(pystr \<times> pystr list) list"

definition scaleway :: "string \<Rightarrow> string \<Rightarrow> deployment" where
  "scaleway name model = \<lparr>dp_model_name = py name, dp_model = py model,
     dp_api_base = Some (py ''https://api.scaleway.ai/v1''),
     dp_api_key = py ''os.environ/SCALEWAY_API_KEY'', dp_mock_response = None\<rparr>"

definition litellm_config :: router_config where
  "litellm_config =
     \<lparr>rt_model_list =
        [scaleway ''sovereign-cheap'' ''openai/llama-3.3-70b-instruct'',
         scaleway ''sovereign-cheap'' ''openai/mistral-small-3.2-24b-instruct-2506'',
         \<lparr>dp_model_name = py ''sovereign-premium'', dp_model = py ''mistral/mistral-large-latest'',
          dp_api_base = None, dp_api_key = py ''os.environ/MISTRAL_API_KEY'', dp_mock_response = None\<rparr>,
         \<lparr>dp_model_name = py ''frontier'', dp_model = py ''anthropic/claude-sonnet-4-5'',
          dp_api_base = None, dp_api_key = py ''os.environ/ANTHROPIC_API_KEY'', dp_mock_response = None\<rparr>,
         scaleway ''sovereign-embed'' ''openai/bge-multilingual-gemma2''],
      rt_num_retries = 2,
      rt_timeout = 60,
      rt_fallbacks =
        [(py ''sovereign-cheap'', [py ''sovereign-premium'']),
         (py ''sovereign-premium'', [py ''frontier''])]\<rparr>"

definition mock :: "string \<Rightarrow> string \<Rightarrow> content \<Rightarrow> deployment" where
  "mock name model response = \<lparr>dp_model_name = py name, dp_model = py model, dp_api_base = None,
     dp_api_key = py ''fake-key-not-used-in-mock-mode'', dp_mock_response = Some response\<rparr>"

definition litellm_ci :: router_config where
  "litellm_ci =
     \<lparr>rt_model_list =
        [mock ''sovereign-cheap'' ''openai/gpt-4o-mini''
           (StrContent (py ''Mock response from sovereign-cheap (CI).'')),
         mock ''sovereign-premium'' ''openai/gpt-4o-mini''
           (StrContent (py ''Mock response from sovereign-premium (CI).'')),
         mock ''frontier'' ''openai/gpt-4o-mini''
           (StrContent (py ''Mock response from frontier (CI).'')),
         mock ''sovereign-embed'' ''openai/text-embedding-3-small''
           (OtherContent (py ''[0.0, 0.1, 0.2, 0.3]''))],
      rt_num_retries = 0,
      rt_timeout = 10,
      rt_fallbacks = []\<rparr>"

definition fallbacks_of :: "router_config \<Rightarrow> pystr \<Rightarrow> pystr list" where
  "fallbacks_of cfg g = (case map_of (rt_fallbacks cfg) g of None \<Rightarrow> [] | Some hs \<Rightarrow> hs)"

definition falls_back_to :: "router_config \<Rightarrow> pystr \<Rightarrow> pystr \<Rightarrow> bool" where
  "falls_back_to cfg g h \<longleftrightarrow> h \<in> set (fallbacks_of cfg g)"

text \<open>The groups of the program are exactly the aliases of either configuration.\<close>

lemma groups_are_aliases:
  assumes "cfg \<in> {litellm_config, litellm_ci}"
  shows "range group_value = dp_model_name ` set (rt_model_list cfg)"
proof -
  have "g \<in> {SOVEREIGN_CHEAP, SOVEREIGN_PREMIUM, FRONTIER, SOVEREIGN_EMBED}" for g
    by (cases g) simp_all
  then have groups: "(UNIV :: model_group set) = {SOVEREIGN_CHEAP, SOVEREIGN_PREMIUM, FRONTIER, SOVEREIGN_EMBED}"
    by blast
  have "dp_model_name ` set (rt_model_list cfg) =
      {py ''sovereign-cheap'', py ''sovereign-premium'', py ''frontier'', py ''sovereign-embed''}"
    using assms unfolding insert_iff empty_iff
    by (elim disjE) (simp_all add: litellm_config_def litellm_ci_def scaleway_def mock_def del: py_simps)
  then show ?thesis unfolding groups by (simp only: image_insert image_empty group_value.simps)
qed

lemma litellm_fallbacks:
  "fallbacks_of litellm_config (group_value g) =
     (case g of SOVEREIGN_CHEAP \<Rightarrow> [group_value SOVEREIGN_PREMIUM]
      | SOVEREIGN_PREMIUM \<Rightarrow> [group_value FRONTIER] | _ \<Rightarrow> [])"
  "fallbacks_of litellm_ci g' = []"
  by (cases g) (simp_all add: fallbacks_of_def litellm_config_def litellm_ci_def)

section \<open>The router\<close>

text \<open>\<open>spend w\<close> is the router's log of answered requests: the deployment that answered each.\<close>

locale litellm_router =
  fixes cfg :: router_config and chat :: "'w gateway" and spend :: "'w \<Rightarrow> deployment list"
  assumes answered: "chat cc msgs w = (Inr m, w') \<Longrightarrow> \<exists>d \<in> set (rt_model_list cfg).
      (falls_back_to cfg)\<^sup>*\<^sup>* (cc_model cc) (dp_model_name d) \<and> spend w' = spend w @ [d]"
    and unanswered: "chat cc msgs w = (Inl e, w') \<Longrightarrow> spend w' = spend w"

text \<open>Who may have answered a call of the cascade over the groups \<open>gs\<close>.\<close>

definition answered_from ::
  "router_config \<Rightarrow> (pystr \<Rightarrow> bool) \<Rightarrow> deployment list \<Rightarrow> exn + message \<Rightarrow> deployment list \<Rightarrow> bool" where
  "answered_from cfg asked old r new \<longleftrightarrow>
     (case r of
        Inl e \<Rightarrow> new = old
      | Inr m \<Rightarrow> (\<exists>d \<in> set (rt_model_list cfg). \<exists>g. asked g \<and>
          (falls_back_to cfg)\<^sup>*\<^sup>* g (dp_model_name d) \<and> new = old @ [d]))"

lemma log_retry_world [simp]: "world (log_retry g k e s) = world s"
  by (simp add: log_retry_def)

context litellm_router
begin

lemma ainvoke_spend:
  "ainvoke chat cc msgs s = (r, s') \<Longrightarrow>
    answered_from cfg (\<lambda>g. g = cc_model cc) (spend (world s)) r (spend (world s'))"
  using answered unanswered
  by (auto simp: ainvoke_def answered_from_def split: prod.splits sum.splits)

lemma retry_loop_spend:
  "retry_loop n k p (log_retry g) (ainvoke chat cc msgs) s = (r, s') \<Longrightarrow>
    answered_from cfg (\<lambda>g. g = cc_model cc) (spend (world s)) r (spend (world s'))"
proof (induction n arbitrary: k s)
  case 0
  then show ?case by (simp add: ainvoke_spend)
next
  case (Suc n)
  obtain r1 s1 where a: "ainvoke chat cc msgs s = (r1, s1)" by fastforce
  note 1 = ainvoke_spend [OF a]
  show ?case
  proof (cases "\<exists>e. r1 = Inl e \<and> p e")
    case True
    then obtain e where e: "r1 = Inl e" "p e" by blast
    with Suc.prems a have "retry_loop n (Suc k) p (log_retry g) (ainvoke chat cc msgs)
        (log_retry g (Suc k) e s1) = (r, s')" by simp
    from Suc.IH [OF this] 1 e show ?thesis by (cases r) (simp_all add: answered_from_def)
  next
    case False
    with Suc.prems a 1 show ?thesis by (auto split: sum.splits if_splits)
  qed
qed

end

lemma answered_from_mono:
  "answered_from cfg asked old r new \<Longrightarrow> (\<And>g. asked g \<Longrightarrow> asked' g) \<Longrightarrow> answered_from cfg asked' old r new"
  by (auto simp: answered_from_def split: sum.splits)

lemma cascade_loop_spend:
  assumes "\<And>g s r s'. g \<in> set gs \<Longrightarrow> invoke g s = (r, s') \<Longrightarrow>
      answered_from cfg (asked g) (spend (world s)) r (spend (world s'))"
    and "cascade_loop invoke tried last_error gs s = (r, s')"
  shows "answered_from cfg (\<lambda>h. \<exists>g \<in> set gs. asked g h) (spend (world s)) r (spend (world s'))"
  using assms
proof (induction gs arbitrary: tried last_error s)
  case Nil
  then show ?case by (auto simp: answered_from_def split: option.splits)
next
  case (Cons g gs)
  obtain r1 s1 where a: "invoke g s = (r1, s1)" by fastforce
  note 1 = Cons.prems(1) [OF _ a, simplified]
  show ?case
  proof (cases "\<exists>e. r1 = Inl e \<and> is_transient e")
    case True
    then obtain e where e: "r1 = Inl e" "is_transient e" by blast
    define s2 where "s2 = (case gs of [] \<Rightarrow> s1
      | h # _ \<Rightarrow> emit (LogEscalation (group_value g) (group_value h) (type_name e)) s1)"
    have s2: "world s2 = world s1" by (simp add: s2_def split: list.split)
    from e a Cons.prems(2) have "cascade_loop invoke (tried @ [g]) (Some e) gs s2 = (r, s')"
      by (simp add: is_transient_Exception s2_def)
    from Cons.IH [OF _ this] Cons.prems(1) 1 e s2 show ?thesis
      by (auto simp: answered_from_def split: sum.splits)
  next
    case False
    with a Cons.prems(2) have "r = r1" "s' = s1" by (auto split: sum.splits if_splits)
    with 1 show ?thesis by (auto intro: answered_from_mono)
  qed
qed


lemma invoke_group_spend:
  assumes "litellm_router cfg chat spend" and "retrying R"
    and "invoke_group R chat settings opts msgs g s = (r, s')"
  shows "answered_from cfg (\<lambda>h. h = group_value g) (spend (world s)) r (spend (world s'))"
  using litellm_router.retry_loop_spend [OF assms(1)] assms(3)
  by (simp add: invoke_group_def retrying.R_eq [OF assms(2)] retry_ref_def) fastforce

text \<open>A call is answered for a group it may contact, or not at all.\<close>

lemma fallback_spend:
  assumes "litellm_router cfg chat spend" and "retrying R"
    and "ainvoke_with_fallback R chat msgs settings start allowed opts s = (r, s')"
  shows "answered_from cfg (\<lambda>h. \<exists>g. permitted start allowed g \<and> h = group_value g)
    (spend (world s)) r (spend (world s'))"
proof (cases "allowed = Some [] \<or> start \<notin> set (cascade_of allowed)")
  case True
  with llm_retries.fallback_rejects [OF llm_retriesI [OF assms(2)] _ assms(3)] show ?thesis
    by (auto simp: answered_from_def)
next
  case False
  with assms(3) have "cascade_loop (invoke_group R chat settings opts msgs) [] None
      (reachable_groups start allowed) s = (r, s')"
    by (simp add: ainvoke_with_fallback_def reachable_groups_def Let_def)
  then have "answered_from cfg (\<lambda>h. \<exists>g \<in> set (reachable_groups start allowed). h = group_value g)
      (spend (world s)) r (spend (world s'))"
    by (rule cascade_loop_spend [rotated]) (rule invoke_group_spend [OF assms(1,2)])
  then show ?thesis
    using reachable_groups_permitted [of start allowed] False by (blast intro: answered_from_mono)
qed

text \<open>While a deployment of the group, or of its direct fallbacks, is up, a request is answered.\<close>

abbreviation only_up :: "(deployment \<Rightarrow> bool) \<Rightarrow> router_config \<Rightarrow> router_config" where
  "only_up up cfg \<equiv> cfg\<lparr>rt_model_list := filter up (rt_model_list cfg)\<rparr>"

lemma falls_back_to_only_up [simp]: "falls_back_to (only_up up cfg) = falls_back_to cfg"
  by (simp add: falls_back_to_def fallbacks_of_def fun_eq_iff)

locale litellm_failover = litellm_router "only_up up cfg" chat spend
  for cfg :: router_config and chat :: "'w gateway" and spend :: "'w \<Rightarrow> deployment list"
    and up :: "deployment \<Rightarrow> bool" +
  assumes served: "d \<in> set (rt_model_list cfg) \<Longrightarrow> up d \<Longrightarrow>
      dp_model_name d = cc_model cc \<or> falls_back_to cfg (cc_model cc) (dp_model_name d) \<Longrightarrow>
      \<exists>m w'. chat cc msgs w = (Inr m, w')"
    and outage: "chat cc msgs w = (Inl e, w') \<Longrightarrow> is_transient e"

text \<open>A router with both contracts: the first deployment that is up, the group's own ones first.\<close>

definition candidates :: "router_config \<Rightarrow> pystr \<Rightarrow> deployment list" where
  "candidates cfg g = concat (map (\<lambda>h. filter (\<lambda>d. dp_model_name d = h) (rt_model_list cfg))
     (g # fallbacks_of cfg g))"

definition litellm_ref :: "router_config \<Rightarrow> (deployment \<Rightarrow> bool) \<Rightarrow> deployment list gateway" where
  "litellm_ref cfg up cc msgs w =
     (case find up (candidates cfg (cc_model cc)) of
        None \<Rightarrow> (Inl (APIStatusError (py ''InternalServerError'') 503 []), w)
      | Some d \<Rightarrow> (Inr (ai_text (dp_model d)), w @ [d]))"

lemma candidates_set:
  "d \<in> set (candidates cfg g) \<longleftrightarrow>
     d \<in> set (rt_model_list cfg) \<and> (dp_model_name d = g \<or> falls_back_to cfg g (dp_model_name d))"
  by (auto simp: candidates_def falls_back_to_def)

sublocale litellm_failover \<subseteq> all: litellm_router cfg chat spend
  by unfold_locales (use answered unanswered in fastforce)+

interpretation ref_router: litellm_failover cfg "litellm_ref cfg up" "\<lambda>w. w" up
  for cfg up
proof (unfold_locales, goal_cases)
  case (1 cc msgs w m w')
  then show ?case
    by (auto simp: litellm_ref_def find_Some_iff candidates_set split: option.splits
        dest!: nth_mem intro!: bexI)
next
  case (2 cc msgs w e w')
  then show ?case by (auto simp: litellm_ref_def split: option.splits)
next
  case (3 d cc msgs w)
  then show ?case
    by (cases "find up (candidates cfg (cc_model cc))")
      (auto simp: litellm_ref_def find_None_iff candidates_set)
next
  case (4 cc msgs w e w')
  then show ?case by (auto simp: litellm_ref_def split: option.splits)
qed


lemma fallbacks_closed:
  assumes "\<And>g h. asked g \<Longrightarrow> falls_back_to cfg g h \<Longrightarrow> asked h"
    and "(falls_back_to cfg)\<^sup>*\<^sup>* g h" and "asked g"
  shows "asked h"
  using assms(2,3) by (induction rule: rtranclp_induct) (use assms(1) in blast)+

text \<open>The first answer of a group is the answer of the call to it.\<close>

lemma invoke_group_answers:
  assumes "retrying R" and "\<And>w. \<exists>m w'. chat (group_client settings opts g) msgs w = (Inr m, w')"
  shows "\<exists>m s'. invoke_group R chat settings opts msgs g s = (Inr m, s')"
proof -
  let ?c = "group_client settings opts g"
  from assms(2) [of "world s"] obtain m w' where c: "chat ?c msgs (world s) = (Inr m, w')" by blast
  then have "ainvoke chat ?c msgs s = (Inr m, emit (Sent ?c (Inr m)) (s\<lparr>world := w'\<rparr>))"
    by (simp add: ainvoke_def)
  then have "invoke_group R chat settings opts msgs g s =
      (Inr m, emit (Sent ?c (Inr m)) (s\<lparr>world := w'\<rparr>))"
    by (cases "nat (opt_max_attempts opts - 1)")
      (simp_all add: invoke_group_def retrying.R_eq [OF assms(1)] retry_ref_def)
  then show ?thesis by blast
qed

lemma cascade_loop_answers:
  assumes "gs \<noteq> []" and "\<And>g s e s'. invoke g s = (Inl e, s') \<Longrightarrow> is_transient e"
    and "\<And>s. \<exists>m s'. invoke (last gs) s = (Inr m, s')"
    and "cascade_loop invoke tried last_error gs s = (r, s')"
  shows "\<exists>m. r = Inr m"
  using assms(1,3,4)
proof (induction gs arbitrary: tried last_error s)
  case (Cons g gs)
  obtain r1 s1 where a: "invoke g s = (r1, s1)" by fastforce
  show ?case
  proof (cases r1)
    case (Inl e)
    have "is_transient e" using assms(2) a Inl by blast
    moreover have ne: "gs \<noteq> []"
    proof
      assume "gs = []"
      with Cons.prems(2) [of s] a Inl show False by simp
    qed
    ultimately obtain s2 where "cascade_loop invoke (tried @ [g]) (Some e) gs s2 = (r, s')"
      using Cons.prems(3) a Inl by (auto simp: is_transient_Exception)
    with ne Cons.prems(2) show ?thesis by (intro Cons.IH) auto
  qed (use a Cons.prems(3) in auto)
qed simp

section \<open>Properties\<close>

text \<open>C6. The sovereignty lock, end to end: if the router's fallbacks never lead from a group the caller
  permits to one it does not, then whatever deployments fail, a call that is answered is answered by
  one deployment, of a permitted group, and a call that is not answered by none. The configuration
  of the integration tests has no fallbacks, so it keeps every lock.\<close>

theorem closed_fallbacks_keep_the_lock:
  assumes "litellm_router cfg chat spend" and "retrying R"
    and "cfg = litellm_ci \<or> (\<forall>g h. permitted start allowed g \<longrightarrow> falls_back_to cfg (group_value g) h \<longrightarrow>
      (\<exists>k. permitted start allowed k \<and> h = group_value k))"
    and "ainvoke_with_fallback R chat msgs settings start allowed opts s = (r, s')"
  shows "case r of
      Inl e \<Rightarrow> spend (world s') = spend (world s)
    | Inr m \<Rightarrow> (\<exists>d \<in> set (rt_model_list cfg). \<exists>g. permitted start allowed g \<and>
        dp_model_name d = group_value g \<and> spend (world s') = spend (world s) @ [d])"
proof -
  let ?asked = "\<lambda>h. \<exists>g. permitted start allowed g \<and> h = group_value g"
  have "\<exists>k. permitted start allowed k \<and> h = group_value k"
    if "permitted start allowed g" "falls_back_to cfg (group_value g) h" for g h
    using assms(3)
  proof
    assume "cfg = litellm_ci"
    with that(2) show ?thesis by (simp add: falls_back_to_def litellm_fallbacks)
  qed (use that in blast)
  then have closed: "\<And>g h. ?asked g \<Longrightarrow> falls_back_to cfg g h \<Longrightarrow> ?asked h" by blast
  note spent = fallback_spend [OF assms(1,2,4)]
  show ?thesis
  proof (cases r)
    case (Inr m)
    with spent obtain d g where d: "d \<in> set (rt_model_list cfg)" "?asked g"
      "(falls_back_to cfg)\<^sup>*\<^sup>* g (dp_model_name d)" "spend (world s') = spend (world s) @ [d]"
      by (auto simp: answered_from_def)
    have "?asked (dp_model_name d)"
      by (rule fallbacks_closed [of ?asked, OF _ d(3,2)]) (rule closed)
    with d(1,4) Inr show ?thesis by auto
  qed (use spent in \<open>simp add: answered_from_def\<close>)
qed

text \<open>The lock of finley-2 on the router of the integration tests, with only the premium group up.\<close>

definition up_groups :: "model_group set \<Rightarrow> deployment \<Rightarrow> bool" where
  "up_groups gs d \<longleftrightarrow> dp_model_name d \<in> group_value ` gs"

definition no_spend :: "deployment list llm_state" where
  "no_spend = \<lparr>world = [], trace = []\<rparr>"

theorem closed_fallbacks_keep_the_lock_witness:
  "\<exists>m s' d. ainvoke_with_fallback retry_ref (litellm_ref litellm_ci (up_groups {SOVEREIGN_PREMIUM}))
       [] example_settings SOVEREIGN_CHEAP (Some [SOVEREIGN_CHEAP, SOVEREIGN_PREMIUM]) default_options
       no_spend = (Inr m, s') \<and>
     world s' = [d] \<and> dp_model_name d \<noteq> group_value FRONTIER"
proof -
  let ?chat = "litellm_ref litellm_ci (up_groups {SOVEREIGN_PREMIUM})"
  let ?al = "Some [SOVEREIGN_CHEAP, SOVEREIGN_PREMIUM]"
  let ?res = "ainvoke_with_fallback retry_ref ?chat [] example_settings SOVEREIGN_CHEAP ?al
      default_options no_spend"
  have "case fst ?res of Inl e \<Rightarrow> False | Inr m \<Rightarrow> True" by code_simp
  then obtain m where m: "fst ?res = Inr m" by (auto split: sum.splits)
  obtain s' where res: "?res = (Inr m, s')" by (metis m prod.collapse)
  from closed_fallbacks_keep_the_lock [OF ref_router.all.litellm_router_axioms ref.retrying_axioms _ res]
  obtain d g where "permitted SOVEREIGN_CHEAP ?al g" "dp_model_name d = group_value g" "world s' = [d]"
    by (auto simp: no_spend_def)
  moreover from this(1) have "group_value g \<noteq> group_value FRONTIER"
    unfolding group_value_inject by (auto simp: permitted_def)
  ultimately show ?thesis using res by metis
qed

lemma failover_outage_transient:
  assumes "litellm_failover cfg chat spend up" and "retrying R"
    and "invoke_group R chat settings opts msgs g s = (Inl e, s')"
  shows "is_transient e"
proof -
  from group_invoker.group [OF llm_retries.invoke_group_invoker [OF llm_retriesI [OF assms(2)]] assms(3)]
  have "gateway_answers chat msgs (group_client settings opts g, Inl e)" by force
  then show ?thesis
    using litellm_failover.outage [OF assms(1)] by (auto simp: gateway_answers_def)
qed

lemma escalations_within:
  assumes "escalations evs = zip (map group_value hs) (tl (map group_value hs))" and "G \<notin> set hs"
    and "(a, b) \<in> set (escalations evs)"
  shows "b \<noteq> group_value G"
proof -
  from assms(3) have "b \<in> set (map group_value hs)"
    unfolding assms(1) by (cases hs) (auto dest: set_zip_rightD)
  then obtain g where "g \<in> set hs" "b = group_value g" by auto
  with assms(2) have "b = group_value g" "g \<noteq> G" by auto
  then show ?thesis by (simp only: group_value_inject not_False_eq_True)
qed

text \<open>C5. With the committed configuration the lock does not hold: a caller that permits the two sovereign
  groups only, to keep its request away from the frontier, is answered by the frontier as soon as
  the deployments of the sovereign groups are down, through the router's fallback of the premium
  group; the call returns the answer as if a permitted group had given it, and no escalation to the
  frontier is logged.\<close>

theorem frontier_answers_locked_call:
  assumes "litellm_failover litellm_config chat spend up" and "retrying R"
    and "\<forall>d \<in> set (rt_model_list litellm_config). up d \<longleftrightarrow> dp_model_name d = group_value FRONTIER"
    and "start \<in> {SOVEREIGN_CHEAP, SOVEREIGN_PREMIUM}"
  shows "\<exists>m s' d evs.
    ainvoke_with_fallback R chat msgs settings start (Some [SOVEREIGN_CHEAP, SOVEREIGN_PREMIUM]) opts s =
      (Inr m, s') \<and>
    spend (world s') = spend (world s) @ [d] \<and> dp_model_name d = group_value FRONTIER \<and>
    trace s' = trace s @ evs \<and> (\<forall>(a, b) \<in> set (escalations evs). b \<noteq> group_value FRONTIER)"
proof -
  let ?al = "Some [SOVEREIGN_CHEAP, SOVEREIGN_PREMIUM]"
  from assms(1) have router: "litellm_router (only_up up litellm_config) chat spend"
    by (rule litellm_failover.axioms(1))
  obtain r s' where run: "ainvoke_with_fallback R chat msgs settings start ?al opts s = (r, s')" by fastforce
  have casc: "cascade_of ?al = [SOVEREIGN_CHEAP, SOVEREIGN_PREMIUM]"
    by (simp add: cascade_of_def CASCADE_def)
  have start: "start \<in> set (cascade_of ?al)" using assms(4) by (simp add: casc)
  have groups: "set (reachable_groups start ?al) \<subseteq> {SOVEREIGN_CHEAP, SOVEREIGN_PREMIUM}"
    using reachable_groups_set [OF start] by auto
  obtain f where f: "f \<in> set (rt_model_list litellm_config)" "dp_model_name f = group_value FRONTIER"
    by (force simp: litellm_config_def)
  have premium: "\<exists>m w'. chat (group_client settings opts SOVEREIGN_PREMIUM) msgs w = (Inr m, w')" for w
    using assms(3) f
    by (intro litellm_failover.served [OF assms(1) f(1)])
      (simp_all add: falls_back_to_def litellm_fallbacks(1) [of SOVEREIGN_PREMIUM, simplified])
  have gs: "reachable_groups start ?al \<noteq> []" "last (reachable_groups start ?al) = SOVEREIGN_PREMIUM"
    using assms(4) by (auto simp: reachable_groups_def casc from_group_def)
  have "cascade_loop (invoke_group R chat settings opts msgs) [] None (reachable_groups start ?al) s = (r, s')"
    using run start by (simp add: ainvoke_with_fallback_def reachable_groups_def Let_def)
  then have "\<exists>m. r = Inr m"
    by (rule cascade_loop_answers [rotated 3])
      (use gs failover_outage_transient [OF assms(1,2)] invoke_group_answers [where chat = chat and opts = opts and settings = settings
        and msgs = msgs, OF assms(2) premium] in \<open>simp_all\<close>)
  then obtain m where r: "r = Inr m" by blast
  from fallback_spend [OF router assms(2) run] r obtain d where
    d: "d \<in> set (rt_model_list litellm_config)" "up d" "spend (world s') = spend (world s) @ [d]"
    by (auto simp: answered_from_def)
  from llm_retries.fallback_run [OF llm_retriesI [OF assms(2)] _ start run] obtain evs hs where
    evs: "trace s' = trace s @ evs" "escalations evs = zip (map group_value hs) (tl (map group_value hs))" and
    casc_run: "cascade_run (group_client settings opts) (opt_max_attempts opts) []
      (from_group start (cascade_of ?al)) hs (attempts evs) r" by auto
  have hs: "set hs \<subseteq> {SOVEREIGN_CHEAP, SOVEREIGN_PREMIUM}"
    using cascade_run_prefix [OF casc_run] groups by (auto simp: reachable_groups_def)
  then have "FRONTIER \<notin> set hs" by auto
  from escalations_within [OF evs(2) this] have "\<forall>(a, b) \<in> set (escalations evs). b \<noteq> group_value FRONTIER"
    by auto
  moreover have "dp_model_name d = group_value FRONTIER" using d(1,2) assms(3) by blast
  ultimately show ?thesis using run d(3) evs(1) unfolding r by blast
qed


theorem frontier_answers_locked_call_witness:
  "\<exists>m s' d. ainvoke_with_fallback retry_ref (litellm_ref litellm_config (up_groups {FRONTIER}))
       [] example_settings SOVEREIGN_CHEAP (Some [SOVEREIGN_CHEAP, SOVEREIGN_PREMIUM]) default_options
       no_spend = (Inr m, s') \<and>
     world s' = [d] \<and> dp_model_name d = group_value FRONTIER \<and>
     (\<forall>(a, b) \<in> set (escalations (trace s')). b \<noteq> group_value FRONTIER)"
proof -
  have up: "\<forall>d \<in> set (rt_model_list litellm_config).
      up_groups {FRONTIER} d \<longleftrightarrow> dp_model_name d = group_value FRONTIER"
    by (simp add: up_groups_def)
  have start: "SOVEREIGN_CHEAP \<in> {SOVEREIGN_CHEAP, SOVEREIGN_PREMIUM}" by simp
  from frontier_answers_locked_call [OF ref_router.litellm_failover_axioms ref.retrying_axioms up start,
      of "[]" example_settings default_options no_spend]
  show ?thesis by (simp add: no_spend_def)
qed

end
