(* ===== verification/AgentGraph.thy ===== *)
theory AgentGraph
  imports GuardPipeline Llm
begin

text \<open>
  app/agent/state.py, app/agent/prompts.py and app/agent/graph.py: the state of the agent, its
  nodes and routing functions, and the graph that \<open>build_graph\<close> hands to LangGraph.

  The graph is data: \<open>agent_graph\<close> lists the nodes, the entry point and the edges the code
  registers. LangGraph is not part of the repository; what the code relies on is the locale
  \<open>langgraph\<close>: \<open>tools_condition\<close> asks for tools exactly when the last message has tool calls,
  \<open>add_messages\<close> appends messages that have fresh ids, and \<open>invoke\<close> merges its input into the
  checkpoint of the thread, then runs supersteps (the inductive relation \<open>superstep\<close>) until
  the end, an exception, or the recursion limit. \<open>invoke_ref\<close> is a runtime with this contract.

  The language model and \<open>ToolNode\<close> are effectful parameters of which nothing is assumed but,
  where a property says so, that \<open>ToolNode\<close> answers the calls it is given.
\<close>

section \<open>State\<close>

text \<open>\<open>AgentState\<close>; the \<open>NotRequired\<close> keys are options.\<close>

record agent_state =
  messages :: "message list"
  user_id :: pystr
  input_flags :: "pystr list"
  token_budget :: "int option"
  tool_rounds :: "int option"

text \<open>A dictionary of channel writes: what a node returns, or the input of an invocation.\<close>

record update =
  up_messages :: "message list option"
  up_user_id :: "pystr option"
  up_input_flags :: "pystr list option"
  up_tool_rounds :: "int option"

definition no_update :: update where
  "no_update = \<lparr>up_messages = None, up_user_id = None, up_input_flags = None, up_tool_rounds = None\<rparr>"

text \<open>The empty channels of a thread without a checkpoint.\<close>

definition empty_channels :: agent_state where
  "empty_channels =
     \<lparr>messages = [], user_id = [], input_flags = [], token_budget = None, tool_rounds = None\<rparr>"

section \<open>Prompts\<close>

definition PROMPT_VERSION :: pystr where "PROMPT_VERSION = py ''v1''"

definition SYSTEM_PROMPT :: pystr where
  \<open>SYSTEM_PROMPT = concat (map (\<lambda>line. py line @ [10])
    [''Tu es un assistant d'information sur les aides financieres francaises.'',
     '''',
     ''Ton role est d'INFORMER et d'ORIENTER, jamais de decider :'',
     ''- Tu presentes les aides qui semblent correspondre a la situation decrite par l'utilisateur,'',
     ''  avec leurs conditions generales, leur montant indicatif et leur source.'',
     ''- Tu ne rends JAMAIS de verdict d'eligibilite. Tu ne dis jamais "vous avez droit a cette aide"'',
     ''  ni "vous n'y avez pas droit". Les conditions reelles dependent de la situation complete de'',
     ''  la personne et de l'appreciation de l'organisme concerne.'',
     ''- Pour toute question d'eligibilite precise, tu renvoies systematiquement l'utilisateur vers'',
     ''  l'organisme competent indique dans la source de l'aide, ou vers un travailleur social, pour'',
     ''  une instruction officielle de son dossier.'',
     ''- Tu utilises l'outil de recherche disponible pour trouver les aides pertinentes avant de'',
     ''  repondre plutot que d'inventer des informations.'',
     ''- Tu reponds toujours en francais, de maniere claire et concise, a l'utilisateur final.'',
     ''- Le corpus d'aides utilise ici est un jeu de demonstration invente (aides fictives, aucune'',
     ''  donnee reelle) : tu ne dois jamais presenter une aide de ce corpus comme une aide reelle et'',
     ''  verifiee aupres d'un organisme officiel.''])\<close>

definition REFUSAL_MESSAGE_FR :: pystr where
  "REFUSAL_MESSAGE_FR =
     py ''Je ne peux pas traiter cette demande telle quelle. Reformulez votre question sur les '' @
     py ''aides financieres disponibles, sans chercher a modifier mes instructions.''"

definition BUDGET_EXCEEDED_MESSAGE_FR :: pystr where
  "BUDGET_EXCEEDED_MESSAGE_FR =
     py ''Je n'ai pas reussi a aboutir a une reponse sur les aides financieres correspondant a '' @
     py ''votre demande. Reformulez votre question de maniere plus precise, ou contactez '' @
     py ''directement l'organisme concerne pour une instruction officielle de votre situation.''"

text \<open>\<open>sha256_hex\<close> stands for \<open>hashlib.sha256(...).hexdigest()\<close> of the UTF-8 bytes of a text.\<close>

definition system_prompt_hash :: "(pystr \<Rightarrow> pystr) \<Rightarrow> pystr \<Rightarrow> pystr" where
  "system_prompt_hash sha256_hex prompt = take 12 (sha256_hex prompt)"

section \<open>The default language model\<close>

definition MAX_TOOL_ROUNDS :: int where "MAX_TOOL_ROUNDS = 5"

definition TOOLS :: "pystr list" where "TOOLS = [py ''search_aids'']"

datatype message_like = Msg message | Str pystr
datatype model_input = PromptValue "message list" | StrInput pystr | SequenceInput "message_like list"

definition to_messages :: "(message_like list \<Rightarrow> message list) \<Rightarrow> model_input \<Rightarrow> message list" where
  "to_messages convert_to_messages inp =
     (case inp of
        PromptValue ms \<Rightarrow> ms
      | StrInput s \<Rightarrow> convert_to_messages [Str s]
      | SequenceInput ms \<Rightarrow> convert_to_messages ms)"

text \<open>
  \<open>_FallbackAgentLLM(settings, tools)\<close>: \<open>ainvoke\<close> on a model input; \<open>invoke\<close> runs it to its end
  in a fresh event loop, with the same result and effects.
\<close>

definition fallback_options :: "pystr list \<Rightarrow> llm_options" where
  "fallback_options tools = default_options\<lparr>opt_tools := Some tools\<rparr>"

definition fallback_ainvoke ::
  "('w llm_state, message) retry_runner \<Rightarrow> 'w gateway \<Rightarrow> (message_like list \<Rightarrow> message list) \<Rightarrow>
     settings \<Rightarrow> pystr list \<Rightarrow> model_input \<Rightarrow> ('w llm_state, message) prog" where
  "fallback_ainvoke R chat convert settings tools inp =
     ainvoke_with_fallback R chat (to_messages convert inp) settings SOVEREIGN_CHEAP None
       (fallback_options tools)"

type_synonym 'w language_model = "model_input \<Rightarrow> ('w, message) prog"

section \<open>Nodes and routes\<close>

text \<open>The names the nodes are registered under, and LangGraph's \<open>END\<close>.\<close>

definition GUARD_INPUT :: pystr where "GUARD_INPUT = py ''guard_input''"
definition AGENT :: pystr where "AGENT = py ''agent''"
definition TOOLS_NODE :: pystr where "TOOLS_NODE = py ''tools''"
definition BUDGET_EXCEEDED :: pystr where "BUDGET_EXCEEDED = py ''budget_exceeded''"
definition END :: pystr where "END = py ''__end__''"

lemma node_names_neq [simp]:
  "GUARD_INPUT \<noteq> AGENT" "GUARD_INPUT \<noteq> TOOLS_NODE" "GUARD_INPUT \<noteq> BUDGET_EXCEEDED" "GUARD_INPUT \<noteq> END"
  "AGENT \<noteq> GUARD_INPUT" "AGENT \<noteq> TOOLS_NODE" "AGENT \<noteq> BUDGET_EXCEEDED" "AGENT \<noteq> END"
  "TOOLS_NODE \<noteq> GUARD_INPUT" "TOOLS_NODE \<noteq> AGENT" "TOOLS_NODE \<noteq> BUDGET_EXCEEDED" "TOOLS_NODE \<noteq> END"
  "BUDGET_EXCEEDED \<noteq> GUARD_INPUT" "BUDGET_EXCEEDED \<noteq> AGENT" "BUDGET_EXCEEDED \<noteq> TOOLS_NODE" "BUDGET_EXCEEDED \<noteq> END"
  "END \<noteq> GUARD_INPUT" "END \<noteq> AGENT" "END \<noteq> TOOLS_NODE" "END \<noteq> BUDGET_EXCEEDED"
  by (simp_all add: GUARD_INPUT_def AGENT_def TOOLS_NODE_def BUDGET_EXCEEDED_def END_def)

definition latest_text :: "message list \<Rightarrow> pystr" where
  "latest_text ms = (if ms = [] then [] else content_text (msg_content (last ms)))"

definition guard_input :: "unidb \<Rightarrow> agent_state \<Rightarrow> exn + update" where
  "guard_input U state =
     bindE (run_input_guardrails U (latest_text (messages state)) MAX_INPUT_LENGTH) (\<lambda>result.
       let upd = no_update\<lparr>up_input_flags := Some (gr_flags result)\<rparr> in
       Inr (if \<not> gr_ok result then upd\<lparr>up_messages := Some [ai_text REFUSAL_MESSAGE_FR]\<rparr> else upd))"

definition route_after_guard_input :: "agent_state \<Rightarrow> exn + pystr" where
  "route_after_guard_input state =
     Inr (if list_ex (\<lambda>flag. startswith flag BLOCKED_FLAG_PREFIX) (input_flags state)
          then END else AGENT)"

text \<open>\<open>state.get("tool_rounds", 0)\<close>\<close>

definition rounds :: "agent_state \<Rightarrow> int" where
  "rounds state = (case tool_rounds state of None \<Rightarrow> 0 | Some n \<Rightarrow> n)"

definition route_after_agent :: "(agent_state \<Rightarrow> exn + pystr) \<Rightarrow> agent_state \<Rightarrow> exn + pystr" where
  "route_after_agent tools_condition state =
     bindE (tools_condition state) (\<lambda>base_route.
       if base_route \<noteq> TOOLS_NODE then Inr base_route
       else if rounds state \<ge> MAX_TOOL_ROUNDS then Inr BUDGET_EXCEEDED
       else Inr TOOLS_NODE)"

definition budget_exceeded :: "agent_state \<Rightarrow> exn + update" where
  "budget_exceeded state = Inr (no_update\<lparr>up_messages := Some [ai_text BUDGET_EXCEEDED_MESSAGE_FR]\<rparr>)"

definition agent_request :: "agent_state \<Rightarrow> model_input" where
  "agent_request state =
     SequenceInput (map Msg (SystemMessage (StrContent SYSTEM_PROMPT) # messages state))"

definition call_agent :: "'w language_model \<Rightarrow> agent_state \<Rightarrow> ('w, update) prog" where
  "call_agent llm state =
     bind_p (llm (agent_request state)) (\<lambda>response.
       return_p (no_update\<lparr>up_messages := Some [response]\<rparr>))"

definition run_tools ::
  "(agent_state \<Rightarrow> ('w, message list) prog) \<Rightarrow> agent_state \<Rightarrow> ('w, update) prog" where
  "run_tools tool_node state =
     bind_p (tool_node state) (\<lambda>result.
       return_p (no_update\<lparr>up_messages := Some result, up_tool_rounds := Some (rounds state + 1)\<rparr>))"

section \<open>The graph\<close>

datatype edge = Edge pystr | ConditionalEdges "agent_state \<Rightarrow> exn + pystr" "(pystr \<times> pystr) list"

record 'w graph =
  g_nodes :: "(pystr \<times> (agent_state \<Rightarrow> ('w, update) prog)) list"
  g_entry :: pystr
  g_edges :: "(pystr \<times> edge) list"

text \<open>A node function without effects.\<close>

definition pure_node :: "(agent_state \<Rightarrow> exn + update) \<Rightarrow> agent_state \<Rightarrow> ('w, update) prog" where
  "pure_node f state w = (f state, w)"

definition agent_graph ::
  "unidb \<Rightarrow> (agent_state \<Rightarrow> exn + pystr) \<Rightarrow> (agent_state \<Rightarrow> ('w, message list) prog) \<Rightarrow>
     'w language_model \<Rightarrow> 'w graph" where
  "agent_graph U tools_condition tool_node llm =
     \<lparr>g_nodes =
        [(GUARD_INPUT, pure_node (guard_input U)),
         (AGENT, call_agent llm),
         (TOOLS_NODE, run_tools tool_node),
         (BUDGET_EXCEEDED, pure_node budget_exceeded)],
      g_entry = GUARD_INPUT,
      g_edges =
        [(GUARD_INPUT, ConditionalEdges route_after_guard_input
            [(AGENT, AGENT), (END, END)]),
         (AGENT, ConditionalEdges (route_after_agent tools_condition)
            [(TOOLS_NODE, TOOLS_NODE), (BUDGET_EXCEEDED, BUDGET_EXCEEDED), (END, END)]),
         (TOOLS_NODE, Edge AGENT),
         (BUDGET_EXCEEDED, Edge END)]\<rparr>"

text \<open>\<open>_default_llm()\<close>\<close>

definition default_llm ::
  "('w llm_state, message) retry_runner \<Rightarrow> 'w gateway \<Rightarrow> (message_like list \<Rightarrow> message list) \<Rightarrow>
     (pystr \<Rightarrow> rat option) \<Rightarrow> environ \<Rightarrow> (settings option, 'w llm_state language_model) prog" where
  "default_llm R chat convert parse_float env =
     bind_p (get_settings parse_float env) (\<lambda>settings.
       return_p (fallback_ainvoke R chat convert settings TOOLS))"

text \<open>\<open>build_graph(llm)\<close>: without a model, the default one over the process settings.\<close>

definition build_graph ::
  "unidb \<Rightarrow> (agent_state \<Rightarrow> exn + pystr) \<Rightarrow> (agent_state \<Rightarrow> ('w llm_state, message list) prog) \<Rightarrow>
     ('w llm_state, message) retry_runner \<Rightarrow> 'w gateway \<Rightarrow> (message_like list \<Rightarrow> message list) \<Rightarrow>
     (pystr \<Rightarrow> rat option) \<Rightarrow> environ \<Rightarrow> 'w llm_state language_model option \<Rightarrow>
     (settings option, 'w llm_state graph) prog" where
  "build_graph U tools_condition tool_node R chat convert parse_float env llm =
     bind_p
       (case llm of
          Some l \<Rightarrow> return_p l
        | None \<Rightarrow> default_llm R chat convert parse_float env)
       (\<lambda>resolved_llm. return_p (agent_graph U tools_condition tool_node resolved_llm))"

section \<open>The runtime the graph is run by\<close>

type_synonym add_messages = "message list \<Rightarrow> message list \<Rightarrow> message list"

definition apply_update :: "add_messages \<Rightarrow> update \<Rightarrow> agent_state \<Rightarrow> agent_state" where
  "apply_update add upd state =
     \<lparr>messages = (case up_messages upd of None \<Rightarrow> messages state | Some ms \<Rightarrow> add (messages state) ms),
      user_id = (case up_user_id upd of None \<Rightarrow> user_id state | Some u \<Rightarrow> u),
      input_flags = (case up_input_flags upd of None \<Rightarrow> input_flags state | Some fs \<Rightarrow> fs),
      token_budget = token_budget state,
      tool_rounds = (case up_tool_rounds upd of None \<Rightarrow> tool_rounds state | Some n \<Rightarrow> Some n)\<rparr>"

definition next_node :: "'w graph \<Rightarrow> pystr \<Rightarrow> agent_state \<Rightarrow> exn + pystr" where
  "next_node g n state =
     (case map_of (g_edges g) n of
        None \<Rightarrow> Inr END
      | Some (Edge m) \<Rightarrow> Inr m
      | Some (ConditionalEdges route path_map) \<Rightarrow> bindE (route state) (\<lambda>key.
          case map_of path_map key of
            None \<Rightarrow> Inl (OtherException (py ''KeyError'') key) | Some m \<Rightarrow> Inr m))"

text \<open>
  A configuration of a run: the node to execute next with the channels committed so far, or
  the exception that ended the run. A failing superstep commits nothing.
\<close>

datatype 'w run = Running pystr agent_state 'w | Raised exn agent_state 'w

inductive superstep :: "add_messages \<Rightarrow> 'w graph \<Rightarrow> 'w run \<Rightarrow> 'w run \<Rightarrow> bool" for add g where
  commit: "n \<noteq> END \<Longrightarrow> map_of (g_nodes g) n = Some f \<Longrightarrow> f st w = (Inr upd, w') \<Longrightarrow>
    next_node g n (apply_update add upd st) = Inr m \<Longrightarrow>
    superstep add g (Running n st w) (Running m (apply_update add upd st) w')"
| node_raises: "n \<noteq> END \<Longrightarrow> map_of (g_nodes g) n = Some f \<Longrightarrow> f st w = (Inl e, w') \<Longrightarrow>
    superstep add g (Running n st w) (Raised e st w')"
| route_raises: "n \<noteq> END \<Longrightarrow> map_of (g_nodes g) n = Some f \<Longrightarrow> f st w = (Inr upd, w') \<Longrightarrow>
    next_node g n (apply_update add upd st) = Inl e \<Longrightarrow>
    superstep add g (Running n st w) (Raised e st w')"

inductive_cases superstep_RunningE: "superstep add g (Running n st w) c"
inductive_simps superstep_Running_iff: "superstep add g (Running n st w) c"
inductive_simps superstep_Raised_iff [simp]: "superstep add g (Raised e st w) c"

lemma superstep_deterministic:
  "superstep add g c c1 \<Longrightarrow> superstep add g c c2 \<Longrightarrow> c1 = c2"
  by (induction rule: superstep.induct) (auto simp: superstep_Running_iff)

lemma supersteps_Suc:
  "superstep add g c c1 \<Longrightarrow> (superstep add g ^^ k) c1 c2 \<Longrightarrow> (superstep add g ^^ Suc k) c c2"
  by (rule relpowp_Suc_I2)

lemma supersteps_one: "superstep add g c c' \<Longrightarrow> (superstep add g ^^ 1) c c'"
  by (simp only: relpowp_1)

lemma supersteps_two:
  "superstep add g c c1 \<Longrightarrow> superstep add g c1 c2 \<Longrightarrow> (superstep add g ^^ Suc 1) c c2"
  by (rule supersteps_Suc [OF _ supersteps_one])

text \<open>The thread: its checkpointed channels and the outside world.\<close>

type_synonym 'w thread = "agent_state \<times> 'w"

locale langgraph =
  fixes invoke :: "'w graph \<Rightarrow> update \<Rightarrow> ('w thread, agent_state) prog"
    and limit :: nat
    and add :: add_messages
    and tools_condition :: "agent_state \<Rightarrow> exn + pystr"
  assumes add_messages: "add old new = old @ new"
    and tools_condition: "messages st \<noteq> [] \<Longrightarrow>
      tools_condition st = Inr (if tool_calls (last (messages st)) \<noteq> [] then TOOLS_NODE else END)"
    and ends: "(superstep add g ^^ k) (Running (g_entry g) (apply_update add inp st) w)
        (Running END st' w') \<Longrightarrow> k \<le> limit \<Longrightarrow> invoke g inp (st, w) = (Inr st', (st', w'))"
    and raises: "(superstep add g ^^ k) (Running (g_entry g) (apply_update add inp st) w)
        (Raised e st' w') \<Longrightarrow> k \<le> limit \<Longrightarrow> invoke g inp (st, w) = (Inl e, (st', w'))"
    and out_of_steps: "(superstep add g ^^ limit) (Running (g_entry g) (apply_update add inp st) w)
        (Running n st' w') \<Longrightarrow> n \<noteq> END \<Longrightarrow>
      invoke g inp (st, w) = (Inl GraphRecursionError, (st', w'))"

text \<open>A runtime with this contract.\<close>

fun superstep_fun :: "add_messages \<Rightarrow> 'w graph \<Rightarrow> 'w run \<Rightarrow> 'w run" where
  "superstep_fun add g (Raised e st w) = Raised e st w"
| "superstep_fun add g (Running n st w) =
     (if n = END then Running n st w
      else case map_of (g_nodes g) n of
          None \<Rightarrow> Raised (OtherException (py ''KeyError'') n) st w
        | Some f \<Rightarrow> (case f st w of
              (Inl e, w') \<Rightarrow> Raised e st w'
            | (Inr upd, w') \<Rightarrow> (case next_node g n (apply_update add upd st) of
                  Inl e \<Rightarrow> Raised e st w' | Inr m \<Rightarrow> Running m (apply_update add upd st) w')))"

lemma superstep_fun_eq: "superstep add g c c' \<Longrightarrow> superstep_fun add g c = c'"
  by (induction rule: superstep.induct) simp_all

definition invoke_ref :: "nat \<Rightarrow> add_messages \<Rightarrow> 'w graph \<Rightarrow> update \<Rightarrow> ('w thread, agent_state) prog" where
  "invoke_ref limit add g inp t =
     (case (superstep_fun add g ^^ limit) (Running (g_entry g) (apply_update add inp (fst t)) (snd t)) of
        Raised e st w \<Rightarrow> (Inl e, (st, w))
      | Running n st w \<Rightarrow> (if n = END then Inr st else Inl GraphRecursionError, (st, w)))"

definition tools_condition_ref :: "agent_state \<Rightarrow> exn + pystr" where
  "tools_condition_ref st =
     (if messages st = [] then Inl (ValueError (py ''No messages found in input state to tool_edge''))
      else Inr (if tool_calls (last (messages st)) \<noteq> [] then TOOLS_NODE else END))"

lemma superstep_fun_pow: "(superstep add g ^^ k) c c' \<Longrightarrow> (superstep_fun add g ^^ k) c = c'"
  by (induction k arbitrary: c') (auto dest: superstep_fun_eq)

lemma superstep_fun_halted:
  assumes "superstep_fun add g c' = c'" and "(superstep add g ^^ k) c c'" and "k \<le> limit"
  shows "(superstep_fun add g ^^ limit) c = c'"
proof -
  have "(superstep_fun add g ^^ j) c' = c'" for j by (induction j) (simp_all add: assms(1))
  moreover from assms(3) have "limit = (limit - k) + k" by simp
  ultimately show ?thesis using superstep_fun_pow [OF assms(2)]
    by (metis comp_apply funpow_add)
qed

interpretation lg: langgraph "invoke_ref limit (@)" limit "(@)" tools_condition_ref
  for limit
  by unfold_locales
    (auto simp: tools_condition_ref_def invoke_ref_def dest: superstep_fun_pow
      superstep_fun_halted [rotated 1])

section \<open>What one pass of the agent may add to a conversation\<close>

datatype ending = Answer | BudgetCut | Failure exn

text \<open>
  \<open>agent_turn says answers fails r n ms e\<close>: entered with \<open>r\<close> rounds on the counter, the agent
  may run the tools \<open>n\<close> times, add the messages \<open>ms\<close> and end by \<open>e\<close>. The predicates bound what
  the model may say, what the tools may append to the calls of a message, and which exceptions
  either may raise.
\<close>

inductive agent_turn ::
  "(message \<Rightarrow> bool) \<Rightarrow> (tool_call list \<Rightarrow> message list \<Rightarrow> bool) \<Rightarrow> (exn \<Rightarrow> bool) \<Rightarrow>
     int \<Rightarrow> nat \<Rightarrow> message list \<Rightarrow> ending \<Rightarrow> bool"
  for says answers fails where
  answer: "says m \<Longrightarrow> tool_calls m = [] \<Longrightarrow> agent_turn says answers fails r 0 [m] Answer"
| cut: "says m \<Longrightarrow> tool_calls m \<noteq> [] \<Longrightarrow> r \<ge> MAX_TOOL_ROUNDS \<Longrightarrow>
    agent_turn says answers fails r 0 [m, ai_text BUDGET_EXCEEDED_MESSAGE_FR] BudgetCut"
| tools: "says m \<Longrightarrow> tool_calls m \<noteq> [] \<Longrightarrow> r < MAX_TOOL_ROUNDS \<Longrightarrow> answers (tool_calls m) res \<Longrightarrow>
    agent_turn says answers fails (r + 1) n ms e \<Longrightarrow>
    agent_turn says answers fails r (Suc n) (m # res @ ms) e"
| model_fails: "fails e \<Longrightarrow> agent_turn says answers fails r 0 [] (Failure e)"
| tools_fail: "says m \<Longrightarrow> tool_calls m \<noteq> [] \<Longrightarrow> r < MAX_TOOL_ROUNDS \<Longrightarrow> fails e \<Longrightarrow>
    agent_turn says answers fails r 0 [m] (Failure e)"

inductive_cases agent_turn_FailureE: "agent_turn says answers fails r n ms (Failure e)"

text \<open>The model and the tools keep to the three predicates.\<close>

definition agent_parts ::
  "(message \<Rightarrow> bool) \<Rightarrow> (tool_call list \<Rightarrow> message list \<Rightarrow> bool) \<Rightarrow> (exn \<Rightarrow> bool) \<Rightarrow>
     'w language_model \<Rightarrow> (agent_state \<Rightarrow> ('w, message list) prog) \<Rightarrow> bool" where
  "agent_parts says answers fails llm tool_node \<longleftrightarrow>
     (\<forall>x w. case llm x w of (Inr m, w') \<Rightarrow> says m | (Inl e, w') \<Rightarrow> fails e) \<and>
     (\<forall>st w. messages st \<noteq> [] \<longrightarrow>
        (case tool_node st w of
           (Inr res, w') \<Rightarrow> answers (tool_calls (last (messages st))) res | (Inl e, w') \<Rightarrow> fails e))"

lemma agent_partsD:
  assumes "agent_parts says answers fails llm tn"
  shows "llm x w = (Inr m, w') \<Longrightarrow> says m" and "llm x w = (Inl e, w') \<Longrightarrow> fails e"
    and "messages st \<noteq> [] \<Longrightarrow> tn st w = (Inr res, w') \<Longrightarrow> answers (tool_calls (last (messages st))) res"
    and "messages st \<noteq> [] \<Longrightarrow> tn st w = (Inl e, w') \<Longrightarrow> fails e"
proof -
  from assms have 1: "case llm x w of (Inr m, w') \<Rightarrow> says m | (Inl e, w') \<Rightarrow> fails e" and
    2: "messages st \<noteq> [] \<Longrightarrow> case tn st w of
      (Inr res, w') \<Rightarrow> answers (tool_calls (last (messages st))) res | (Inl e, w') \<Rightarrow> fails e"
    by (simp_all add: agent_parts_def)
  from 1 show "llm x w = (Inr m, w') \<Longrightarrow> says m" "llm x w = (Inl e, w') \<Longrightarrow> fails e" by simp_all
  from 2 show "messages st \<noteq> [] \<Longrightarrow> tn st w = (Inr res, w') \<Longrightarrow> answers (tool_calls (last (messages st))) res"
    "messages st \<noteq> [] \<Longrightarrow> tn st w = (Inl e, w') \<Longrightarrow> fails e" by simp_all
qed

text \<open>The steps of the graph, node by node.\<close>

lemma END_neq: "GUARD_INPUT \<noteq> END" "AGENT \<noteq> END" "TOOLS_NODE \<noteq> END" "BUDGET_EXCEEDED \<noteq> END"
  by simp_all

lemma agent_graph_nodes:
  "g_entry (agent_graph U tc tn llm) = GUARD_INPUT"
  "map_of (g_nodes (agent_graph U tc tn llm)) GUARD_INPUT = Some (pure_node (guard_input U))"
  "map_of (g_nodes (agent_graph U tc tn llm)) AGENT = Some (call_agent llm)"
  "map_of (g_nodes (agent_graph U tc tn llm)) TOOLS_NODE = Some (run_tools tn)"
  "map_of (g_nodes (agent_graph U tc tn llm)) BUDGET_EXCEEDED = Some (pure_node budget_exceeded)"
  by (simp_all add: agent_graph_def)

lemma agent_graph_routes:
  "next_node (agent_graph U tc tn llm) GUARD_INPUT st =
     Inr (if has_blocked_flag (input_flags st) then END else AGENT)"
  "next_node (agent_graph U tc tn llm) TOOLS_NODE st = Inr AGENT"
  "next_node (agent_graph U tc tn llm) BUDGET_EXCEEDED st = Inr END"
  by (simp_all add: next_node_def agent_graph_def route_after_guard_input_def
      has_blocked_flag_def)

context langgraph
begin

lemma route_agent:
  assumes "messages st \<noteq> []"
  shows "next_node (agent_graph U tools_condition tn llm) AGENT st =
    Inr (if tool_calls (last (messages st)) = [] then END
         else if rounds st \<ge> MAX_TOOL_ROUNDS then BUDGET_EXCEEDED else TOOLS_NODE)"
  by (simp add: next_node_def agent_graph_def route_after_agent_def tools_condition [OF assms])

lemma agent_step:
  assumes "llm (agent_request st) w = (Inr m, w')"
  shows "superstep add (agent_graph U tools_condition tn llm) (Running AGENT st w)
    (Running (if tool_calls m = [] then END
              else if rounds st \<ge> MAX_TOOL_ROUNDS then BUDGET_EXCEEDED else TOOLS_NODE)
       (st\<lparr>messages := messages st @ [m]\<rparr>) w')"
proof -
  let ?upd = "no_update\<lparr>up_messages := Some [m]\<rparr>"
  have st: "apply_update add ?upd st = st\<lparr>messages := messages st @ [m]\<rparr>"
    by (simp add: apply_update_def no_update_def add_messages)
  have call: "call_agent llm st w = (Inr ?upd, w')"
    using assms by (simp add: call_agent_def prog_simps)
  have next_n: "next_node (agent_graph U tools_condition tn llm) AGENT (apply_update add ?upd st) =
      Inr (if tool_calls m = [] then END
        else if rounds st \<ge> MAX_TOOL_ROUNDS then BUDGET_EXCEEDED else TOOLS_NODE)"
    unfolding st by (simp add: route_agent rounds_def)
  show ?thesis
    unfolding st [symmetric] by (rule commit [OF END_neq(2) agent_graph_nodes(3) call next_n])
qed

lemma agent_step_fails:
  assumes "llm (agent_request st) w = (Inl e, w')"
  shows "superstep add (agent_graph U tools_condition tn llm) (Running AGENT st w) (Raised e st w')"
proof (rule node_raises [OF END_neq(2) agent_graph_nodes(3)])
  show "call_agent llm st w = (Inl e, w')" using assms by (simp add: call_agent_def prog_simps)
qed

lemma tools_step:
  assumes "tn st w = (Inr res, w')"
  shows "superstep add (agent_graph U tools_condition tn llm) (Running TOOLS_NODE st w)
    (Running AGENT (st\<lparr>messages := messages st @ res, tool_rounds := Some (rounds st + 1)\<rparr>) w')"
proof -
  let ?upd = "no_update\<lparr>up_messages := Some res, up_tool_rounds := Some (rounds st + 1)\<rparr>"
  have st: "apply_update add ?upd st = st\<lparr>messages := messages st @ res, tool_rounds := Some (rounds st + 1)\<rparr>"
    by (simp add: apply_update_def no_update_def add_messages)
  have "run_tools tn st w = (Inr ?upd, w')"
    using assms by (simp add: run_tools_def prog_simps)
  then show ?thesis unfolding st [symmetric]
    by (rule commit [OF END_neq(3) agent_graph_nodes(4) _ agent_graph_routes(2)])
qed

lemma tools_step_fails:
  assumes "tn st w = (Inl e, w')"
  shows "superstep add (agent_graph U tools_condition tn llm) (Running TOOLS_NODE st w) (Raised e st w')"
proof (rule node_raises [OF END_neq(3) agent_graph_nodes(4)])
  show "run_tools tn st w = (Inl e, w')" using assms by (simp add: run_tools_def prog_simps)
qed

lemma budget_step:
  "superstep add (agent_graph U tools_condition tn llm) (Running BUDGET_EXCEEDED st w)
    (Running END (st\<lparr>messages := messages st @ [ai_text BUDGET_EXCEEDED_MESSAGE_FR]\<rparr>) w)"
proof -
  let ?upd = "no_update\<lparr>up_messages := Some [ai_text BUDGET_EXCEEDED_MESSAGE_FR]\<rparr>"
  have st: "apply_update add ?upd st = st\<lparr>messages := messages st @ [ai_text BUDGET_EXCEEDED_MESSAGE_FR]\<rparr>"
    by (simp add: apply_update_def no_update_def add_messages)
  have "pure_node budget_exceeded st w = (Inr ?upd, w)"
    by (simp add: pure_node_def budget_exceeded_def)
  then show ?thesis unfolding st [symmetric]
    by (rule commit [OF END_neq(4) agent_graph_nodes(5) _ agent_graph_routes(3)])
qed

end
text \<open>From the agent node the graph halts within two steps per remaining round and two more.\<close>

context langgraph
begin

definition agent_halts ::
  "(message \<Rightarrow> bool) \<Rightarrow> (tool_call list \<Rightarrow> message list \<Rightarrow> bool) \<Rightarrow> (exn \<Rightarrow> bool) \<Rightarrow>
     'a graph \<Rightarrow> agent_state \<Rightarrow> 'a \<Rightarrow> nat \<Rightarrow> bool" where
  "agent_halts says answers fails g st w steps \<longleftrightarrow>
    (\<exists>k n ms e st' w'. k \<le> steps \<and> agent_turn says answers fails (rounds st) n ms e \<and>
      messages st' = messages st @ ms \<and> rounds st' = rounds st + int n \<and>
      input_flags st' = input_flags st \<and> user_id st' = user_id st \<and>
      (superstep add g ^^ k) (Running AGENT st w)
        (case e of Failure x \<Rightarrow> Raised x st' w' | _ \<Rightarrow> Running END st' w'))"

lemma agent_haltsI:
  assumes "agent_turn says answers fails (rounds st) n ms e" and "k \<le> steps"
    and "(superstep add g ^^ k) (Running AGENT st w)
        (case e of Failure x \<Rightarrow> Raised x st' w' | _ \<Rightarrow> Running END st' w')"
    and "messages st' = messages st @ ms" and "rounds st' = rounds st + int n"
    and "input_flags st' = input_flags st" and "user_id st' = user_id st"
  shows "agent_halts says answers fails g st w steps"
  unfolding agent_halts_def using assms by blast

lemma rounds_simps [simp]:
  "rounds (st\<lparr>messages := ms\<rparr>) = rounds st"
  "rounds (st\<lparr>tool_rounds := Some n\<rparr>) = n"
  by (simp_all add: rounds_def)

lemma agent_refines:
  assumes parts: "agent_parts says answers fails llm tn"
  shows "agent_halts says answers fails (agent_graph U tools_condition tn llm) st w
    (2 * nat (MAX_TOOL_ROUNDS - rounds st) + 2)"
proof (induction st arbitrary: w rule: measure_induct_rule [where f = "\<lambda>st. nat (MAX_TOOL_ROUNDS - rounds st)"])
  case (less st w)
  let ?g = "agent_graph U tools_condition tn llm"
  obtain r w1 where llm: "llm (agent_request st) w = (r, w1)" by (cases "llm (agent_request st) w")
  show ?case
  proof (cases r)
    case (Inl e)
    have "(superstep add ?g ^^ 1) (Running AGENT st w) (Raised e st w1)"
      unfolding relpowp_1 by (rule agent_step_fails [of llm st w e w1, OF llm [unfolded Inl]])
    with agent_partsD(2) [OF parts llm [unfolded Inl]] show ?thesis
      by (intro agent_haltsI [OF model_fails [of fails e says answers "rounds st"], of 1 _ ?g w st w1]) simp_all
  next
    case (Inr m)
    let ?st1 = "st\<lparr>messages := messages st @ [m]\<rparr>"
    note says = agent_partsD(1) [OF parts llm [unfolded Inr]]
    note step = agent_step [of llm st w m w1, OF llm [unfolded Inr], of U tn]
    consider "tool_calls m = []" | "tool_calls m \<noteq> []" "rounds st \<ge> MAX_TOOL_ROUNDS"
      | "tool_calls m \<noteq> []" "rounds st < MAX_TOOL_ROUNDS" by linarith
    then show ?thesis
    proof cases
      case 1
      with step have "(superstep add ?g ^^ 1) (Running AGENT st w) (Running END ?st1 w1)"
        unfolding relpowp_1 by simp
      with 1 says show ?thesis
        by (intro agent_haltsI [OF answer [of says m answers fails "rounds st"], of 1 _ ?g w ?st1 w1]) simp_all
    next
      case 2
      let ?st2 = "?st1\<lparr>messages := messages ?st1 @ [ai_text BUDGET_EXCEEDED_MESSAGE_FR]\<rparr>"
      from 2 step have "superstep add ?g (Running AGENT st w) (Running BUDGET_EXCEEDED ?st1 w1)" by simp
      from supersteps_two [OF this budget_step]
      have "(superstep add ?g ^^ Suc 1) (Running AGENT st w) (Running END ?st2 w1)" .
      with 2 says show ?thesis
        by (intro agent_haltsI [OF cut [of says m "rounds st" answers fails], of "Suc 1" _ ?g w ?st2 w1]) simp_all
    next
      case 3
      with step have s1: "superstep add ?g (Running AGENT st w) (Running TOOLS_NODE ?st1 w1)" by simp
      obtain r2 w2 where tn: "tn ?st1 w1 = (r2, w2)" by (cases "tn ?st1 w1")
      show ?thesis
      proof (cases r2)
        case (Inl e)
        from supersteps_two [OF s1 tools_step_fails [of tn ?st1 w1 e w2, OF tn [unfolded Inl]]]
        have "(superstep add ?g ^^ Suc 1) (Running AGENT st w) (Raised e ?st1 w2)" .
        with 3 says agent_partsD(4) [OF parts _ tn [unfolded Inl]] show ?thesis
          by (intro agent_haltsI [OF tools_fail [of says m "rounds st" fails e answers], of "Suc 1" _ ?g w ?st1 w2])
            simp_all
      next
        case (Inr res)
        let ?st2 = "?st1\<lparr>messages := messages ?st1 @ res, tool_rounds := Some (rounds ?st1 + 1)\<rparr>"
        note s2 = tools_step [of tn ?st1 w1 res w2, OF tn [unfolded Inr], of U llm]
        have res: "answers (tool_calls m) res" using agent_partsD(3) [OF parts _ tn [unfolded Inr]] by simp
        from 3 have "nat (MAX_TOOL_ROUNDS - rounds ?st2) < nat (MAX_TOOL_ROUNDS - rounds st)" by simp
        from less [OF this, of w2] obtain k n ms e st' w' where
          k: "k \<le> 2 * nat (MAX_TOOL_ROUNDS - rounds ?st2) + 2" and
          turn: "agent_turn says answers fails (rounds st + 1) n ms e" and
          st': "messages st' = messages ?st2 @ ms" "rounds st' = rounds ?st2 + int n"
            "input_flags st' = input_flags ?st2" "user_id st' = user_id ?st2" and
          run: "(superstep add ?g ^^ k) (Running AGENT ?st2 w2)
            (case e of Failure x \<Rightarrow> Raised x st' w' | _ \<Rightarrow> Running END st' w')"
          unfolding agent_halts_def by auto
        from k 3 have k2: "Suc (Suc k) \<le> 2 * nat (MAX_TOOL_ROUNDS - rounds st) + 2" by simp
        note run2 = supersteps_Suc [OF s1 supersteps_Suc [OF s2 run]]
        from 3 st' show ?thesis
          by (intro agent_haltsI [OF tools [OF says _ _ res turn] k2 run2]) simp_all
      qed
    qed
  qed
qed

end

section \<open>Consequences of the turn contract\<close>

lemma agent_turn_rounds:
  "agent_turn says answers fails r n ms e \<Longrightarrow>
     int n \<le> max 0 (MAX_TOOL_ROUNDS - r) \<and> (e = BudgetCut \<longrightarrow> r + int n \<ge> MAX_TOOL_ROUNDS)"
  by (induction rule: agent_turn.induct) auto

lemma agent_turn_ends:
  "agent_turn says answers fails r n ms e \<Longrightarrow>
     (case e of
        Answer \<Rightarrow> \<exists>pre m. ms = pre @ [m] \<and> says m \<and> tool_calls m = []
      | BudgetCut \<Rightarrow> \<exists>pre m. ms = pre @ [m, ai_text BUDGET_EXCEEDED_MESSAGE_FR] \<and> says m \<and> tool_calls m \<noteq> []
      | Failure x \<Rightarrow> fails x)"
proof (induction rule: agent_turn.induct)
  case (tools m r res n ms e)
  have pre: "\<exists>pre'. m # res @ pre @ xs = pre' @ xs" for pre xs :: "message list"
    by (intro exI [of _ "m # res @ pre"]) simp
  from tools.IH show ?case
    by (cases e) (use pre in \<open>auto simp del: append_Cons\<close>)
qed auto

text \<open>Every message that calls tools is directly followed by the answers to its calls, in order.\<close>

definition answers_calls :: "tool_call list \<Rightarrow> message list \<Rightarrow> bool" where
  "answers_calls calls res =
     list_all2 (\<lambda>c m. case m of ToolMessage x i \<Rightarrow> i = tc_id c | _ \<Rightarrow> False) calls res"

fun all_answered :: "message list \<Rightarrow> bool" where
  "all_answered [] = True"
| "all_answered (m # ms) =
     (answers_calls (tool_calls m) (take (length (tool_calls m)) ms) \<and> all_answered ms)"

lemma answers_calls_Nil [simp]: "answers_calls [] []"
  by (simp add: answers_calls_def)

lemma answers_calls_length: "answers_calls calls res \<Longrightarrow> length res = length calls"
  by (simp add: answers_calls_def list_all2_lengthD)

lemma all_answered_results:
  "answers_calls calls res \<Longrightarrow> all_answered (res @ ms) = all_answered ms"
  unfolding answers_calls_def
  by (induction rule: list_all2_induct) (auto split: message.splits)

lemma all_answered_append: "all_answered h \<Longrightarrow> all_answered (h @ ms) = all_answered ms"
proof (induction h)
  case (Cons m h)
  then have ans: "answers_calls (tool_calls m) (take (length (tool_calls m)) h)" by simp
  then have "length (tool_calls m) \<le> length h" using answers_calls_length by fastforce
  with Cons ans show ?case by simp
qed simp

lemma all_answered_suffix: "all_answered (h @ ms) \<Longrightarrow> all_answered ms"
  by (induction h) auto

lemma budget_not_answered:
  assumes "tool_calls m \<noteq> []"
  shows "\<not> all_answered [m, ai_text s]"
  using assms by (cases "tool_calls m") (auto simp: answers_calls_def ai_text_def)

lemma agent_turn_answered:
  "agent_turn says answers_calls fails r n ms e \<Longrightarrow>
     (e = Answer \<longrightarrow> all_answered ms) \<and> (e = BudgetCut \<longrightarrow> \<not> all_answered ms)"
proof (induction rule: agent_turn.induct)
  case (tools m r res n ms e)
  then have "take (length (tool_calls m)) (res @ ms) = res"
    using answers_calls_length by fastforce
  with tools show ?case by (simp add: all_answered_results)
qed (simp_all add: budget_not_answered del: all_answered.simps(2), simp)

section \<open>One invocation\<close>

context langgraph
begin

lemma guard_step:
  assumes "run_input_guardrails U (latest_text (messages st)) MAX_INPUT_LENGTH = Inr r"
  shows "superstep add (agent_graph U tools_condition tn llm) (Running GUARD_INPUT st w)
    (Running (if gr_ok r then AGENT else END)
      (st\<lparr>messages := messages st @ (if gr_ok r then [] else [ai_text REFUSAL_MESSAGE_FR]),
          input_flags := gr_flags r\<rparr>) w)"
proof -
  define upd where "upd = (if \<not> gr_ok r
    then no_update\<lparr>up_input_flags := Some (gr_flags r), up_messages := Some [ai_text REFUSAL_MESSAGE_FR]\<rparr>
    else no_update\<lparr>up_input_flags := Some (gr_flags r)\<rparr>)"
  have st: "apply_update add upd st =
      st\<lparr>messages := messages st @ (if gr_ok r then [] else [ai_text REFUSAL_MESSAGE_FR]),
         input_flags := gr_flags r\<rparr>"
    by (simp add: upd_def apply_update_def no_update_def add_messages)
  have call: "pure_node (guard_input U) st w = (Inr upd, w)"
    using assms by (simp add: pure_node_def guard_input_def upd_def Let_def)
  have next_n: "next_node (agent_graph U tools_condition tn llm) GUARD_INPUT (apply_update add upd st) =
      Inr (if gr_ok r then AGENT else END)"
    using run_input_guardrails_flags(1) [OF assms] by (simp add: st agent_graph_routes)
  show ?thesis unfolding st [symmetric]
    by (rule commit [OF END_neq(1) agent_graph_nodes(2) call next_n])
qed

lemma guard_step_raises:
  assumes "run_input_guardrails U (latest_text (messages st)) MAX_INPUT_LENGTH = Inl e"
  shows "superstep add (agent_graph U tools_condition tn llm) (Running GUARD_INPUT st w) (Raised e st w)"
  by (rule node_raises [OF END_neq(1) agent_graph_nodes(2)])
    (simp add: assms pure_node_def guard_input_def)

lemma invoke_raises:
  assumes "run_input_guardrails U (latest_text (messages (apply_update add inp st))) MAX_INPUT_LENGTH = Inl e"
    and "1 \<le> limit"
  shows "invoke (agent_graph U tools_condition tn llm) inp (st, w) = (Inl e, (apply_update add inp st, w))"
  using supersteps_one [OF guard_step_raises [OF assms(1)]] assms(2)
  by (intro raises) (simp_all only: agent_graph_nodes)

lemma invoke_blocked:
  assumes "run_input_guardrails U (latest_text (messages (apply_update add inp st))) MAX_INPUT_LENGTH = Inr r"
    and "\<not> gr_ok r" and "1 \<le> limit"
  shows "invoke (agent_graph U tools_condition tn llm) inp (st, w) =
    (let st' = (apply_update add inp st)\<lparr>messages := messages (apply_update add inp st) @
         [ai_text REFUSAL_MESSAGE_FR], input_flags := gr_flags r\<rparr>
     in (Inr st', (st', w)))"
  using supersteps_one [OF guard_step [OF assms(1)]] assms(2,3)
  unfolding Let_def by (intro ends) (simp_all only: agent_graph_nodes if_False)

lemma invoke_agent:
  assumes "run_input_guardrails U (latest_text (messages (apply_update add inp st))) MAX_INPUT_LENGTH = Inr r"
    and "gr_ok r" and "agent_parts says answers fails llm tn"
    and "2 * nat (MAX_TOOL_ROUNDS - rounds (apply_update add inp st)) + 3 \<le> limit"
  shows "\<exists>n ms e st' w'. agent_turn says answers fails (rounds (apply_update add inp st)) n ms e \<and>
    messages st' = messages (apply_update add inp st) @ ms \<and>
    rounds st' = rounds (apply_update add inp st) + int n \<and>
    input_flags st' = gr_flags r \<and> user_id st' = user_id (apply_update add inp st) \<and>
    invoke (agent_graph U tools_condition tn llm) inp (st, w) =
      (case e of Failure x \<Rightarrow> Inl x | _ \<Rightarrow> Inr st', (st', w')) \<and>
    (superstep add (agent_graph U tools_condition tn llm))\<^sup>*\<^sup>*
      (Running GUARD_INPUT (apply_update add inp st) w)
      (case e of Failure x \<Rightarrow> Raised x st' w' | _ \<Rightarrow> Running END st' w')"
proof -
  let ?g = "agent_graph U tools_condition tn llm"
  let ?st0 = "apply_update add inp st"
  let ?st1 = "?st0\<lparr>input_flags := gr_flags r\<rparr>"
  have r1: "rounds ?st1 = rounds ?st0" by (simp add: rounds_def)
  have "superstep add ?g (Running GUARD_INPUT ?st0 w) (Running AGENT ?st1 w)"
    using guard_step [OF assms(1), of tn llm w] assms(2) by simp
  note s1 = supersteps_Suc [OF this]
  from agent_refines [OF assms(3), of U ?st1 w] obtain k n ms e st' w' where
    k: "k \<le> 2 * nat (MAX_TOOL_ROUNDS - rounds ?st1) + 2" and
    turn: "agent_turn says answers fails (rounds ?st1) n ms e" and
    st': "messages st' = messages ?st1 @ ms" "rounds st' = rounds ?st1 + int n"
      "input_flags st' = input_flags ?st1" "user_id st' = user_id ?st1" and
    run: "(superstep add ?g ^^ k) (Running AGENT ?st1 w)
      (case e of Failure x \<Rightarrow> Raised x st' w' | _ \<Rightarrow> Running END st' w')"
    unfolding agent_halts_def by blast
  from k assms(4) have k2: "Suc k \<le> limit" by (simp add: r1)
  have "invoke ?g inp (st, w) = (case e of Failure x \<Rightarrow> Inl x | _ \<Rightarrow> Inr st', (st', w'))"
    using s1 [OF run] k2 by (cases e) (auto simp only: agent_graph_nodes ending.case intro: ends raises)
  moreover note relpowp_imp_rtranclp [OF s1 [OF run]]
  ultimately show ?thesis using turn st'
    by (intro exI [of _ n] exI [of _ ms] exI [of _ e] exI [of _ st'] exI [of _ w']) (simp add: r1)
qed

end

section \<open>Effects of an invocation\<close>

fun run_world :: "'w run \<Rightarrow> 'w" where
  "run_world (Running n st w) = w"
| "run_world (Raised e st w) = w"

lemma agent_graph_node_cases:
  "map_of (g_nodes (agent_graph U tc tn llm)) n = Some f \<Longrightarrow>
     f = pure_node (guard_input U) \<or> f = call_agent llm \<or> f = run_tools tn \<or> f = pure_node budget_exceeded"
  by (auto simp: agent_graph_def split: if_splits)

lemma node_world:
  assumes "\<And>x w. P w \<Longrightarrow> P (snd (llm x w))" and "\<And>st w. P w \<Longrightarrow> P (snd (tn st w))"
    and "map_of (g_nodes (agent_graph U tc tn llm)) n = Some f" and "f st w = (r, w')" and "P w"
  shows "P w'"
proof -
  from assms(1) [of w "agent_request st", OF assms(5)] assms(2) [of w st, OF assms(5)] assms(4,5)
    agent_graph_node_cases [OF assms(3)]
  show ?thesis
    by (auto simp: pure_node_def call_agent_def run_tools_def bind_p_def return_p_def
        split: prod.splits sum.splits)
qed

lemma supersteps_world:
  assumes "\<And>x w. P w \<Longrightarrow> P (snd (llm x w))" and "\<And>st w. P w \<Longrightarrow> P (snd (tn st w))"
    and "(superstep add (agent_graph U tc tn llm))\<^sup>*\<^sup>* c c'" and "P (run_world c)"
  shows "P (run_world c')"
  using assms(3,4)
proof (induction rule: rtranclp_induct)
  case (step c1 c2)
  then have "P (run_world c1)" by simp
  with step(2) show ?case
    by (cases rule: superstep.cases) (auto elim: node_world [where P = P, OF assms(1,2), rotated 2])
qed

section \<open>Properties\<close>

text \<open>C1. A message the guardrails refuse never reaches the language model or the tools: whatever
  they are, the invocation leaves the outside world as it was and ends with the refusal appended
  to the thread and the blocking flag set.\<close>

theorem blocked_input_never_reaches_model:
  assumes "langgraph invoke limit add tc" and "1 \<le> limit"
    and "run_input_guardrails U (latest_text (messages (apply_update add inp st))) MAX_INPUT_LENGTH = Inr r"
    and "\<not> gr_ok r"
  shows "\<exists>st'. invoke (agent_graph U tc tn llm) inp (st, w) = (Inr st', (st', w)) \<and>
    messages st' = messages (apply_update add inp st) @ [ai_text REFUSAL_MESSAGE_FR] \<and>
    input_flags st' = gr_flags r \<and> has_blocked_flag (input_flags st')"
  using langgraph.invoke_blocked [OF assms(1,3,4,2), of tn llm w]
    run_input_guardrails_flags(1) [OF assms(3)] assms(4)
  by (simp add: Let_def)

text \<open>Example parts: a model that always asks for the tool, and one that answers at once.\<close>

definition insisting_model :: "nat language_model" where
  "insisting_model x w =
     (Inr (AIMessage (StrContent []) [\<lparr>tc_name = py ''search_aids'', tc_args = [], tc_id = py ''c1''\<rparr>]), w + 1)"

definition example_tools :: "agent_state \<Rightarrow> (nat, message list) prog" where
  "example_tools st w =
     (Inr (map (\<lambda>c. ToolMessage (StrContent (py ''[]'')) (tc_id c)) (tool_calls (last (messages st)))), w + 100)"

definition user_input :: "pystr \<Rightarrow> update" where
  "user_input s = no_update\<lparr>up_messages := Some [HumanMessage (StrContent s)], up_user_id := Some (py ''u''),
     up_input_flags := Some []\<rparr>"

lemma user_input_state:
  "messages (apply_update (@) (user_input s) st) = messages st @ [HumanMessage (StrContent s)]"
  "rounds (apply_update (@) (user_input s) st) = rounds st"
  by (simp_all add: apply_update_def user_input_def no_update_def rounds_def split: option.split)

lemma latest_user_input:
  "latest_text (messages (apply_update (@) (user_input s) st)) = s"
  by (simp add: user_input_state latest_text_def)

theorem blocked_input_never_reaches_model_witness:
  "\<exists>st'. invoke_ref 25 (@) (agent_graph latin1_db tools_condition_ref example_tools insisting_model)
      (user_input (py ''jailbreak'')) (empty_channels, 7) = (Inr st', (st', 7)) \<and>
     messages st' = [HumanMessage (StrContent (py ''jailbreak'')), ai_text REFUSAL_MESSAGE_FR]"
proof -
  let ?inp = "user_input (py ''jailbreak'')"
  have "case run_input_guardrails latin1_db (py ''jailbreak'') MAX_INPUT_LENGTH of
      Inl e \<Rightarrow> False | Inr r \<Rightarrow> \<not> gr_ok r" by code_simp
  then obtain r where r: "run_input_guardrails latin1_db (py ''jailbreak'') MAX_INPUT_LENGTH = Inr r"
    and no: "\<not> gr_ok r" by (blast dest: sum_case_Inr)
  have "run_input_guardrails latin1_db
      (latest_text (messages (apply_update (@) ?inp empty_channels))) MAX_INPUT_LENGTH = Inr r"
    unfolding latest_user_input by (rule r)
  from blocked_input_never_reaches_model [OF lg.langgraph_axioms [of 25] _ this no,
      of example_tools insisting_model 7]
  obtain st' where "invoke_ref 25 (@) (agent_graph latin1_db tools_condition_ref example_tools insisting_model)
      ?inp (empty_channels, 7) = (Inr st', (st', 7))"
    and "messages st' = messages (apply_update (@) ?inp empty_channels) @ [ai_text REFUSAL_MESSAGE_FR]"
    by auto
  then show ?thesis unfolding user_input_state
    by (intro exI [of _ st']) (simp add: empty_channels_def)
qed

text \<open>C12. Whatever the model and the tools do, an admitted invocation only appends to the thread,
  keeps its user, records the flags, runs the tools at most until the counter reaches
  \<open>MAX_TOOL_ROUNDS\<close>, and if it fails then with an exception of the model or of the tools: with a
  recursion limit of at least 13 supersteps the graph itself never raises.\<close>

theorem invocation_is_bounded:
  assumes "langgraph invoke limit add tc" and "13 \<le> limit"
    and "run_input_guardrails U (latest_text (messages (apply_update add inp st))) MAX_INPUT_LENGTH = Inr r"
    and "gr_ok r" and "0 \<le> rounds (apply_update add inp st)"
    and "agent_parts says answers fails llm tn"
  shows "\<exists>res st' w' new. invoke (agent_graph U tc tn llm) inp (st, w) = (res, (st', w')) \<and>
    messages st' = messages (apply_update add inp st) @ new \<and>
    user_id st' = user_id (apply_update add inp st) \<and> input_flags st' = gr_flags r \<and>
    rounds (apply_update add inp st) \<le> rounds st' \<and>
    rounds st' \<le> max (rounds (apply_update add inp st)) MAX_TOOL_ROUNDS \<and>
    (case res of Inl e \<Rightarrow> fails e | Inr s \<Rightarrow> s = st')"
proof -
  have "2 * nat (MAX_TOOL_ROUNDS - rounds (apply_update add inp st)) + 3 \<le> limit"
    using assms(2,5) by (simp add: MAX_TOOL_ROUNDS_def)
  from langgraph.invoke_agent [OF assms(1,3,4,6) this, of w] obtain n ms e st' w' where
    turn: "agent_turn says answers fails (rounds (apply_update add inp st)) n ms e" and
    st': "messages st' = messages (apply_update add inp st) @ ms"
      "rounds st' = rounds (apply_update add inp st) + int n"
      "input_flags st' = gr_flags r" "user_id st' = user_id (apply_update add inp st)" and
    inv: "invoke (agent_graph U tc tn llm) inp (st, w) =
      (case e of Failure x \<Rightarrow> Inl x | _ \<Rightarrow> Inr st', (st', w'))" by blast
  from agent_turn_rounds [OF turn] st' have "rounds st' \<le> max (rounds (apply_update add inp st)) MAX_TOOL_ROUNDS"
    "rounds (apply_update add inp st) \<le> rounds st'" by auto
  moreover from agent_turn_ends [OF turn]
  have "case (case e of Failure x \<Rightarrow> Inl x | _ \<Rightarrow> Inr st') of Inl e \<Rightarrow> fails e | Inr s \<Rightarrow> s = st'"
    by (cases e) auto
  ultimately show ?thesis using inv st' by blast
qed

lemma bonjour_admitted:
  "\<exists>r. run_input_guardrails latin1_db
      (latest_text (messages (apply_update (@) (user_input (py ''bonjour'')) st))) MAX_INPUT_LENGTH = Inr r \<and> gr_ok r"
proof -
  have "case run_input_guardrails latin1_db (py ''bonjour'') MAX_INPUT_LENGTH of
      Inl e \<Rightarrow> False | Inr r \<Rightarrow> gr_ok r" by code_simp
  then show ?thesis unfolding latest_user_input by (rule sum_case_Inr)
qed

lemma example_parts:
  "agent_parts is_ai answers_calls (\<lambda>_. False) insisting_model example_tools"
  by (simp add: agent_parts_def insisting_model_def example_tools_def answers_calls_def
      list_all2_map2 list_all2_same)

theorem invocation_is_bounded_witness:
  "\<exists>st' w' new. invoke_ref 25 (@) (agent_graph latin1_db tools_condition_ref example_tools insisting_model)
      (user_input (py ''bonjour'')) (empty_channels, 0) = (Inr st', (st', w')) \<and>
     messages st' = HumanMessage (StrContent (py ''bonjour'')) # new \<and> rounds st' \<le> 5"
proof -
  from bonjour_admitted [of empty_channels] obtain r where
    r: "run_input_guardrails latin1_db
      (latest_text (messages (apply_update (@) (user_input (py ''bonjour'')) empty_channels))) MAX_INPUT_LENGTH = Inr r"
    and ok: "gr_ok r" by blast
  have nn: "0 \<le> rounds (apply_update (@) (user_input (py ''bonjour'')) empty_channels)"
    by (simp only: user_input_state) (simp add: empty_channels_def rounds_def)
  from invocation_is_bounded [OF lg.langgraph_axioms [of 25] _ r ok nn example_parts, of 0]
  obtain res st' w' new where
    inv: "invoke_ref 25 (@) (agent_graph latin1_db tools_condition_ref example_tools insisting_model)
      (user_input (py ''bonjour'')) (empty_channels, 0) = (res, (st', w'))" and
    ms: "messages st' = messages (apply_update (@) (user_input (py ''bonjour'')) empty_channels) @ new"
    and rs: "rounds st' \<le> max (rounds (apply_update (@) (user_input (py ''bonjour'')) empty_channels)) MAX_TOOL_ROUNDS"
    and res: "case res of Inl e \<Rightarrow> False | Inr s \<Rightarrow> s = st'" by auto
  from res have "res = Inr st'" by (cases res) simp_all
  with inv ms rs show ?thesis unfolding user_input_state
    by (intro exI [of _ st'] exI [of _ w'] exI [of _ new])
      (simp add: empty_channels_def rounds_def MAX_TOOL_ROUNDS_def)
qed

text \<open>Termination on an answer: if the model and the tools never raise, every admitted invocation
  returns the new state of the thread, whose last message is an answer of the model without
  tool calls, or the budget message, the latter only with the tool rounds used up.\<close>

theorem invocation_terminates:
  assumes "langgraph invoke limit add tc" and "13 \<le> limit"
    and "run_input_guardrails U (latest_text (messages (apply_update add inp st))) MAX_INPUT_LENGTH = Inr r"
    and "gr_ok r" and "0 \<le> rounds (apply_update add inp st)"
    and "\<forall>x w. \<exists>m w'. llm x w = (Inr m, w') \<and> says m"
    and "\<forall>st w. \<exists>ms w'. tn st w = (Inr ms, w')"
  shows "\<exists>st' w' m. invoke (agent_graph U tc tn llm) inp (st, w) = (Inr st', (st', w')) \<and>
    last (messages st') = m \<and> tool_calls m = [] \<and>
    (says m \<or> m = ai_text BUDGET_EXCEEDED_MESSAGE_FR \<and> rounds st' \<ge> MAX_TOOL_ROUNDS)"
proof -
  have "case llm x w of (Inr m, w') \<Rightarrow> says m | (Inl e, w') \<Rightarrow> False" for x w
    using assms(6) by (metis (mono_tags, lifting) old.prod.case old.sum.simps(6))
  moreover have "case tn s w of (Inr m, w') \<Rightarrow> True | (Inl e, w') \<Rightarrow> False" for s w
    using assms(7) by (metis (mono_tags, lifting) old.prod.case old.sum.simps(6))
  ultimately have parts: "agent_parts says (\<lambda>_ _. True) (\<lambda>_. False) llm tn"
    by (simp add: agent_parts_def)
  have "2 * nat (MAX_TOOL_ROUNDS - rounds (apply_update add inp st)) + 3 \<le> limit"
    using assms(2,5) by (simp add: MAX_TOOL_ROUNDS_def)
  from langgraph.invoke_agent [OF assms(1,3,4) parts this, of w] obtain n ms e st' w' where
    turn: "agent_turn says (\<lambda>_ _. True) (\<lambda>_. False) (rounds (apply_update add inp st)) n ms e" and
    st': "messages st' = messages (apply_update add inp st) @ ms"
      "rounds st' = rounds (apply_update add inp st) + int n" and
    inv: "invoke (agent_graph U tc tn llm) inp (st, w) =
      (case e of Failure x \<Rightarrow> Inl x | _ \<Rightarrow> Inr st', (st', w'))" by blast
  from agent_turn_rounds [OF turn] agent_turn_ends [OF turn] inv st' show ?thesis
    by (cases e) auto
qed

theorem invocation_terminates_witness:
  "\<exists>st' w' m. invoke_ref 25 (@) (agent_graph latin1_db tools_condition_ref example_tools insisting_model)
      (user_input (py ''bonjour'')) (empty_channels, 0) = (Inr st', (st', w')) \<and>
     last (messages st') = m \<and> tool_calls m = []"
proof -
  from bonjour_admitted [of empty_channels] obtain r where
    r: "run_input_guardrails latin1_db
      (latest_text (messages (apply_update (@) (user_input (py ''bonjour'')) empty_channels))) MAX_INPUT_LENGTH = Inr r"
    and ok: "gr_ok r" by blast
  have nn: "0 \<le> rounds (apply_update (@) (user_input (py ''bonjour'')) empty_channels)"
    by (simp only: user_input_state) (simp add: empty_channels_def rounds_def)
  have llm: "\<forall>x w. \<exists>m w'. insisting_model x w = (Inr m, w') \<and> is_ai m" by (simp add: insisting_model_def)
  have tn: "\<forall>st w. \<exists>ms w'. example_tools st w = (Inr ms, w')" by (simp add: example_tools_def)
  from invocation_terminates [OF lg.langgraph_axioms [of 25] _ r ok nn llm tn, of 0]
  show ?thesis by auto
qed

text \<open>C11. Tool protocol, for models that never utter the budget message themselves and tools that answer the
  calls they are given: an admitted invocation that returns adds messages of its own to the thread,
  and among these every tool call is answered if and only if the invocation did not end on the budget
  message. If the thread had every call answered before, the same holds of the whole thread. The
  budget message leaves the calls of the message before it without answers.\<close>

theorem tool_calls_answered_iff_not_cut:
  assumes "langgraph invoke limit add tc" and "13 \<le> limit"
    and "run_input_guardrails U (latest_text (messages (apply_update add inp st))) MAX_INPUT_LENGTH = Inr r"
    and "gr_ok r" and "0 \<le> rounds (apply_update add inp st)"
    and "agent_parts (\<lambda>m. m \<noteq> ai_text BUDGET_EXCEEDED_MESSAGE_FR) answers_calls (\<lambda>_. True) llm tn"
    and "invoke (agent_graph U tc tn llm) inp (st, w) = (Inr st', t')"
  shows "(\<exists>ms. messages st' = messages (apply_update add inp st) @ ms \<and> ms \<noteq> [] \<and>
      (all_answered ms \<longleftrightarrow> last (messages st') \<noteq> ai_text BUDGET_EXCEEDED_MESSAGE_FR)) \<and>
    (all_answered (messages (apply_update add inp st)) \<longrightarrow>
      (all_answered (messages st') \<longleftrightarrow> last (messages st') \<noteq> ai_text BUDGET_EXCEEDED_MESSAGE_FR))"
proof -
  have "2 * nat (MAX_TOOL_ROUNDS - rounds (apply_update add inp st)) + 3 \<le> limit"
    using assms(2,5) by (simp add: MAX_TOOL_ROUNDS_def)
  from langgraph.invoke_agent [OF assms(1,3,4,6) this, of w] assms(7) obtain n ms e where
    turn: "agent_turn (\<lambda>m. m \<noteq> ai_text BUDGET_EXCEEDED_MESSAGE_FR) answers_calls (\<lambda>_. True)
      (rounds (apply_update add inp st)) n ms e" and
    st': "messages st' = messages (apply_update add inp st) @ ms" and
    e: "e \<in> {Answer, BudgetCut}" by (auto split: ending.splits) (metis ending.exhaust)+
  have "ms \<noteq> [] \<and> (all_answered ms \<longleftrightarrow> last (messages st') \<noteq> ai_text BUDGET_EXCEEDED_MESSAGE_FR)"
    using agent_turn_answered [OF turn] agent_turn_ends [OF turn] e by (auto simp: st')
  then show ?thesis using all_answered_append [of "messages (apply_update add inp st)" ms] by (auto simp: st')
qed

lemma insisting_run_cut:
  "case fst (invoke_ref 25 (@) (agent_graph latin1_db tools_condition_ref example_tools insisting_model)
      (user_input (py ''bonjour'')) (empty_channels, 0)) of
     Inl e \<Rightarrow> False
   | Inr st' \<Rightarrow> last (messages st') = ai_text BUDGET_EXCEEDED_MESSAGE_FR \<and> rounds st' = 5"
  by code_simp

theorem tool_calls_answered_iff_not_cut_witness:
  "\<exists>st' t'. invoke_ref 25 (@) (agent_graph latin1_db tools_condition_ref example_tools insisting_model)
      (user_input (py ''bonjour'')) (empty_channels, 0) = (Inr st', t') \<and> \<not> all_answered (messages st')"
proof -
  let ?g = "agent_graph latin1_db tools_condition_ref example_tools insisting_model"
  let ?inp = "user_input (py ''bonjour'')"
  from bonjour_admitted [of empty_channels] obtain r where
    r: "run_input_guardrails latin1_db
      (latest_text (messages (apply_update (@) ?inp empty_channels))) MAX_INPUT_LENGTH = Inr r"
    and ok: "gr_ok r" by blast
  have nn: "0 \<le> rounds (apply_update (@) ?inp empty_channels)"
    by (simp only: user_input_state) (simp add: empty_channels_def rounds_def)
  have parts: "agent_parts (\<lambda>m. m \<noteq> ai_text BUDGET_EXCEEDED_MESSAGE_FR) answers_calls (\<lambda>_. True)
      insisting_model example_tools"
    by (simp add: agent_parts_def insisting_model_def example_tools_def answers_calls_def ai_text_def
        list_all2_map2 list_all2_same)
  have ans: "all_answered (messages (apply_update (@) ?inp empty_channels))"
    unfolding user_input_state by (simp add: empty_channels_def)
  obtain st' where "fst (invoke_ref 25 (@) ?g ?inp (empty_channels, 0)) = Inr st'"
    and cut: "last (messages st') = ai_text BUDGET_EXCEEDED_MESSAGE_FR"
    using sum_case_Inr [OF insisting_run_cut] by blast
  then obtain t' where inv: "invoke_ref 25 (@) ?g ?inp (empty_channels, 0) = (Inr st', t')"
    by (metis prod.collapse)
  from tool_calls_answered_iff_not_cut [OF lg.langgraph_axioms [of 25] _ r ok nn parts inv] ans cut
  have "\<not> all_answered (messages st')" by simp
  with inv show ?thesis by blast
qed

text \<open>The tool-round counter belongs to the thread: once it has reached \<open>MAX_TOOL_ROUNDS\<close>, every
  later invocation on the thread whose input does not reset it runs no tool, whatever is asked:
  if the model requests one, the answer is the budget message, and the tools' part of the world
  is never touched.\<close>

theorem spent_thread_never_runs_tools:
  assumes "langgraph invoke limit add tc" and "3 \<le> limit"
    and "run_input_guardrails U (latest_text (messages (apply_update add inp st))) MAX_INPUT_LENGTH = Inr r"
    and "gr_ok r" and "rounds st \<ge> MAX_TOOL_ROUNDS" and "up_tool_rounds inp = None"
    and "llm (agent_request (apply_update add inp st)) w = (Inr m, w')" and "tool_calls m \<noteq> []"
  shows "\<exists>st'. invoke (agent_graph U tc tn llm) inp (st, w) = (Inr st', (st', w')) \<and>
    messages st' = messages (apply_update add inp st) @ [m, ai_text BUDGET_EXCEEDED_MESSAGE_FR] \<and>
    rounds st' = rounds st"
proof -
  let ?g = "agent_graph U tc tn llm"
  let ?st0 = "apply_update add inp st"
  let ?st1 = "?st0\<lparr>input_flags := gr_flags r\<rparr>"
  let ?st2 = "?st1\<lparr>messages := messages ?st1 @ [m]\<rparr>"
  let ?st3 = "?st2\<lparr>messages := messages ?st2 @ [ai_text BUDGET_EXCEEDED_MESSAGE_FR]\<rparr>"
  have r0: "rounds ?st0 = rounds st" by (simp add: rounds_def apply_update_def assms(6) split: option.split)
  then have r1: "rounds ?st1 \<ge> MAX_TOOL_ROUNDS" using assms(5) by (simp add: rounds_def)
  have "superstep add ?g (Running GUARD_INPUT ?st0 w) (Running AGENT ?st1 w)"
    using langgraph.guard_step [OF assms(1,3), of tn llm w] assms(4) by simp
  note s1 = supersteps_Suc [OF this]
  have "agent_request ?st1 = agent_request ?st0" by (simp add: agent_request_def)
  with assms(7) have llm: "llm (agent_request ?st1) w = (Inr m, w')" by simp
  from langgraph.agent_step [OF assms(1), of llm ?st1 w m w' U tn, OF llm] assms(8) r1
  have "superstep add ?g (Running AGENT ?st1 w) (Running BUDGET_EXCEEDED ?st2 w')" by simp
  note s1 [OF supersteps_two [OF this langgraph.budget_step [OF assms(1)]]]
  then have "invoke ?g inp (st, w) = (Inr ?st3, (?st3, w'))"
    using langgraph.ends [OF assms(1)] assms(2) by (simp only: agent_graph_nodes)
  moreover have "rounds ?st3 = rounds st" using r0 by (simp add: rounds_def)
  ultimately show ?thesis by (intro exI [of _ ?st3]) simp
qed

definition spent_channels :: agent_state where
  "spent_channels = empty_channels\<lparr>tool_rounds := Some 5\<rparr>"

theorem spent_thread_never_runs_tools_witness:
  "\<exists>st'. invoke_ref 25 (@) (agent_graph latin1_db tools_condition_ref example_tools insisting_model)
      (user_input (py ''bonjour'')) (spent_channels, 0) = (Inr st', (st', 1)) \<and>
     last (messages st') = ai_text BUDGET_EXCEEDED_MESSAGE_FR"
proof -
  let ?inp = "user_input (py ''bonjour'')"
  from bonjour_admitted [of spent_channels] obtain r where
    r: "run_input_guardrails latin1_db
      (latest_text (messages (apply_update (@) ?inp spent_channels))) MAX_INPUT_LENGTH = Inr r"
    and ok: "gr_ok r" by blast
  have spent: "rounds spent_channels \<ge> MAX_TOOL_ROUNDS"
    by (simp add: spent_channels_def rounds_def MAX_TOOL_ROUNDS_def)
  have upd: "up_tool_rounds ?inp = None" by (simp add: user_input_def no_update_def)
  define m where "m = AIMessage (StrContent []) [\<lparr>tc_name = py ''search_aids'', tc_args = [], tc_id = py ''c1''\<rparr>]"
  have llm: "insisting_model (agent_request (apply_update (@) ?inp spent_channels)) 0 = (Inr m, 1)"
    by (simp add: insisting_model_def m_def)
  have "tool_calls m \<noteq> []" by (simp add: m_def)
  from spent_thread_never_runs_tools [where llm = insisting_model and w = 0 and m = m and w' = 1,
      OF lg.langgraph_axioms [of 25] _ r ok spent upd llm this, of example_tools]
  show ?thesis by auto
qed

definition cascade_request :: "settings \<Rightarrow> attempt \<Rightarrow> bool" where
  "cascade_request settings a \<longleftrightarrow>
     cc_max_retries (fst a) = 0 \<and> cc_tools (fst a) = Some TOOLS \<and>
     (\<exists>g \<in> set CASCADE. cc_model (fst a) = group_value g)"

lemma fallback_requests:
  assumes "retrying R"
    and "fallback_ainvoke R chat convert settings TOOLS x s = (r, s')"
    and "\<forall>a \<in> set (attempts (trace s)). cascade_request settings a"
  shows "\<forall>a \<in> set (attempts (trace s')). cascade_request settings a"
proof -
  have st: "SOVEREIGN_CHEAP \<in> set (cascade_of None)" by (simp add: cascade_of_def CASCADE_def)
  from llm_retries.fallback_run [OF llm_retriesI [OF assms(1)] _ st
      assms(2) [unfolded fallback_ainvoke_def]] obtain evs hs where
    t: "trace s' = trace s @ evs" and
    run: "cascade_run (group_client settings (fallback_options TOOLS))
      (opt_max_attempts (fallback_options TOOLS)) [] (from_group SOVEREIGN_CHEAP (cascade_of None))
      hs (attempts evs) r" by blast
  have "set hs \<subseteq> set CASCADE"
    using cascade_run_prefix [OF run] from_group_facts(4) [OF cascade_of_facts(1) st]
    by (auto simp: cascade_of_def)
  moreover have "cc_tools (group_client settings (fallback_options TOOLS) g) = Some TOOLS" for g
    by (simp add: group_client_def fallback_options_def bind_tools_def TOOLS_def Let_def)
  ultimately have "cascade_request settings a" if a: "a \<in> set (attempts evs)" for a
  proof -
    from a cascade_run_clients [OF run] obtain g where
      "g \<in> set hs" "fst a = group_client settings (fallback_options TOOLS) g" by blast
    with \<open>set hs \<subseteq> set CASCADE\<close> \<open>\<And>g. cc_tools _ = _\<close> show ?thesis
      by (auto simp: cascade_request_def)
  qed
  with t assms(3) show ?thesis by auto
qed

lemma invoke_world:
  assumes "langgraph invoke limit add tc" and "13 \<le> limit"
    and "0 \<le> rounds (apply_update add inp st)"
    and "\<And>x w. P w \<Longrightarrow> P (snd (llm x w))" and "\<And>st w. P w \<Longrightarrow> P (snd (tn st w))"
    and "invoke (agent_graph U tc tn llm) inp (st, w) = (res, (st', w'))" and "P w"
  shows "P w'"
proof (cases "run_input_guardrails U (latest_text (messages (apply_update add inp st))) MAX_INPUT_LENGTH")
  case (Inl e)
  with langgraph.invoke_raises [OF assms(1) Inl, of tn llm w] assms show ?thesis by simp
next
  case (Inr r)
  show ?thesis
  proof (cases "gr_ok r")
    case False
    with langgraph.invoke_blocked [OF assms(1) Inr False, of tn llm w] assms show ?thesis
      by (simp add: Let_def)
  next
    case True
    have lim: "2 * nat (MAX_TOOL_ROUNDS - rounds (apply_update add inp st)) + 3 \<le> limit"
      using assms(2,3) by (simp add: MAX_TOOL_ROUNDS_def)
    have "agent_parts (\<lambda>_. True) (\<lambda>_ _. True) (\<lambda>_. True) llm tn"
      by (simp add: agent_parts_def split: prod.split sum.split)
    from langgraph.invoke_agent [OF assms(1) Inr True this lim, of w] assms(6) obtain e where
      "(superstep add (agent_graph U tc tn llm))\<^sup>*\<^sup>* (Running GUARD_INPUT (apply_update add inp st) w)
        (case e of Failure x \<Rightarrow> Raised x st' w' | _ \<Rightarrow> Running END st' w')" by auto
    from supersteps_world [of P, OF assms(4,5) this] assms(7) show ?thesis
      by (cases e) simp_all
  qed
qed

text \<open>C10. With the default model every request an invocation sends to the gateway carries the tools,
  goes to a group of the sovereignty cascade, and has the SDK's retries off; this holds for every
  gateway and for tools that leave the request trace alone.\<close>


theorem default_model_requests_in_cascade:
  assumes "langgraph invoke limit add tc" and "13 \<le> limit" and "retrying R"
    and "0 \<le> rounds (apply_update add inp st)"
    and "build_graph U tc tn R chat convert parse_float env None cache = (Inr g, cache')"
    and "\<forall>st w. trace (snd (tn st w)) = trace w"
    and "invoke g inp (st, w) = (res, (st', w'))" and "trace w = []"
  shows "\<exists>settings. cache' = Some settings \<and>
    (\<forall>a \<in> set (attempts (trace w')). cascade_request settings a)"
proof -
  from assms(5) obtain settings where
    g: "g = agent_graph U tc tn (fallback_ainvoke R chat convert settings TOOLS)" and
    c: "cache' = Some settings"
    by (auto simp: build_graph_def default_llm_def bind_p_def return_p_def get_settings_def
        split: prod.splits sum.splits option.splits)
  let ?P = "\<lambda>w. \<forall>a \<in> set (attempts (trace w)). cascade_request settings a"
  have "?P w'"
  proof (rule invoke_world [where P = ?P, OF assms(1,2,4) _ _ assms(7) [unfolded g]])
    show "?P (snd (fallback_ainvoke R chat convert settings TOOLS x w))" if "?P w" for x w
      using fallback_requests [OF assms(3) surjective_pairing that] .
    show "?P (snd (tn st w))" if "?P w" for st w
      using that by (simp only: assms(6))
    show "?P w" by (simp add: assms(8))
  qed
  with c show ?thesis by blast
qed

text \<open>An example: the sovereign groups are down, the frontier answers, no tool touches the trace.\<close>

definition quiet_tools :: "agent_state \<Rightarrow> (nat llm_state, message list) prog" where
  "quiet_tools st w =
     (Inr (map (\<lambda>c. ToolMessage (StrContent (py ''[]'')) (tc_id c)) (tool_calls (last (messages st)))), w)"

definition keep_messages :: "message_like list \<Rightarrow> message list" where
  "keep_messages = map (\<lambda>x. case x of Msg m \<Rightarrow> m | Str s \<Rightarrow> HumanMessage (StrContent s))"

lemma default_model_run:
  "case invoke_ref 25 (@) (agent_graph latin1_db tools_condition_ref quiet_tools
      (fallback_ainvoke retry_ref sovereign_down keep_messages example_settings TOOLS))
      (user_input (py ''bonjour'')) (empty_channels, example_start) of
     (res, (st', w')) \<Rightarrow> length (attempts (trace w')) = 7"
  by code_simp

theorem default_model_requests_in_cascade_witness:
  "\<exists>g t. build_graph latin1_db tools_condition_ref quiet_tools retry_ref sovereign_down keep_messages
       (\<lambda>_. None) (\<lambda>_. None) None (Some example_settings) = (Inr g, Some example_settings) \<and>
     snd (invoke_ref 25 (@) g (user_input (py ''bonjour'')) (empty_channels, example_start)) = t \<and>
     length (attempts (trace (snd t))) = 7 \<and>
     (\<forall>a \<in> set (attempts (trace (snd t))). cascade_request example_settings a)"
proof -
  let ?inp = "user_input (py ''bonjour'')"
  let ?g = "agent_graph latin1_db tools_condition_ref quiet_tools
      (fallback_ainvoke retry_ref sovereign_down keep_messages example_settings TOOLS)"
  have nn: "0 \<le> rounds (apply_update (@) ?inp empty_channels)"
    by (simp only: user_input_state) (simp add: empty_channels_def rounds_def)
  have b: "build_graph latin1_db tools_condition_ref quiet_tools retry_ref sovereign_down keep_messages
      (\<lambda>_. None) (\<lambda>_. None) None (Some example_settings) = (Inr ?g, Some example_settings)"
    by (simp add: build_graph_def default_llm_def bind_p_def return_p_def get_settings_def)
  have quiet: "\<forall>st w. trace (snd (quiet_tools st w)) = trace w" by (simp add: quiet_tools_def)
  obtain res st' w' where inv: "invoke_ref 25 (@) ?g ?inp (empty_channels, example_start) = (res, (st', w'))"
    by (metis prod.collapse)
  have "length (attempts (trace w')) = 7"
    using default_model_run unfolding inv by simp
  moreover have "\<exists>settings. Some example_settings = Some settings \<and>
      (\<forall>a \<in> set (attempts (trace w')). cascade_request settings a)"
    by (rule default_model_requests_in_cascade [OF lg.langgraph_axioms [of 25] _ ref.retrying_axioms nn b quiet inv])
      (simp_all add: example_start_def)
  ultimately show ?thesis using b inv by (intro exI [of _ ?g] exI [of _ "(st', w')"]) auto
qed

end
