(* ===== verification/SearchAids.thy ===== *)
theory SearchAids
  imports PyRegex Prelude "HOL-Library.Multiset"
begin

text \<open>
  app/agent/tools/search_aids.py: keyword search over the corpus of aids.

  \<open>unicodedata\<close> and \<open>str.lower\<close> are the character database of PyText; the laws the tokens rest
  on beyond ASCII are the locale \<open>unicode_marks\<close>: removing a combining mark from a text does not
  change what accent stripping returns. The corpus file is read through a parameter, and the
  cache of \<open>lru_cache(maxsize=1)\<close> is explicit.

  \<open>tokenize_runs\<close> shows that the tokens are the maximal runs of word characters of the
  normalised text; \<open>search_ranking\<close> is the specification of the ranking the results refine.
\<close>

section \<open>Data\<close>

record aid_record =
  ar_id :: pystr
  ar_title :: pystr
  ar_category :: pystr
  ar_description :: pystr
  ar_conditions :: pystr
  ar_amount :: pystr
  ar_source_url :: pystr
  ar_synthetic :: bool

record aid_result =
  res_id :: pystr
  res_title :: pystr
  res_snippet :: pystr

definition MAX_RESULTS :: nat where "MAX_RESULTS = 3"
definition SNIPPET_LENGTH :: nat where "SNIPPET_LENGTH = 160"
definition TITLE_MATCH_WEIGHT :: nat where "TITLE_MATCH_WEIGHT = 2"

section \<open>Tokens\<close>

definition strip_accents :: "unidb \<Rightarrow> pystr \<Rightarrow> pystr" where
  "strip_accents U s = filter (\<lambda>c. \<not> u_combining U c) (u_nfkd U s)"

definition normalize :: "unidb \<Rightarrow> pystr \<Rightarrow> pystr" where
  "normalize U s = u_lower U (strip_accents U s)"

definition TOKEN_PATTERN :: re where
  "TOKEN_PATTERN = Plus (Chr WordC)"

definition tokenize :: "unidb \<Rightarrow> pystr \<Rightarrow> pystr set" where
  "tokenize U s = set (re_findall U False TOKEN_PATTERN (normalize U s))"

section \<open>Search\<close>

text \<open>\<open>needle in hay\<close> on texts\<close>

fun contains :: "pystr \<Rightarrow> pystr \<Rightarrow> bool" where
  "contains [] needle = (needle = [])"
| "contains (c # s) needle = (startswith (c # s) needle \<or> contains s needle)"

definition matches_category :: "unidb \<Rightarrow> aid_record \<Rightarrow> pystr \<Rightarrow> bool" where
  "matches_category U r category = contains (normalize U (ar_category r)) (normalize U category)"

definition score :: "unidb \<Rightarrow> aid_record \<Rightarrow> pystr set \<Rightarrow> nat" where
  "score U r query_tokens =
     (let title_tokens = tokenize U (ar_title r);
          body_tokens = tokenize U (ar_description r) \<union> tokenize U (ar_conditions r)
      in TITLE_MATCH_WEIGHT * card (query_tokens \<inter> title_tokens) + card (query_tokens \<inter> body_tokens))"

definition snippet :: "aid_record \<Rightarrow> pystr" where
  "snippet r =
     (let description = ar_description r in
      if length description \<le> SNIPPET_LENGTH then description
      else py_rstrip (take SNIPPET_LENGTH description) @ py ''...'')"

definition aid_row :: "aid_record \<Rightarrow> aid_result" where
  "aid_row r = \<lparr>res_id = ar_id r, res_title = ar_title r, res_snippet = snippet r\<rparr>"

text \<open>\<open>sorted(..., reverse=True)\<close> keeps the order of elements with equal keys.\<close>

definition search_aids_corpus ::
  "unidb \<Rightarrow> pystr \<Rightarrow> pystr option \<Rightarrow> aid_record list \<Rightarrow> aid_result list" where
  "search_aids_corpus U query category corpus =
     (let candidates = (case category of
            None \<Rightarrow> corpus
          | Some c \<Rightarrow> if c \<noteq> [] then filter (\<lambda>r. matches_category U r c) corpus else corpus);
          query_tokens = tokenize U query;
          scored = map (\<lambda>r. (r, score U r query_tokens)) candidates;
          matched = filter (\<lambda>p. snd p > 0) scored;
          ranked = sort_key (\<lambda>p. - int (snd p)) matched
      in map (\<lambda>p. aid_row (fst p)) (take MAX_RESULTS ranked))"

section \<open>Corpus and tool\<close>

text \<open>
  \<open>_load_corpus\<close> behind its cache of one entry; the key is the explicit path, or \<open>None\<close> for a
  call without arguments. \<open>read\<close> is \<open>tuple(json.loads(path.read_text()))\<close> on the file system; here the
  file is one of records, Corpus has the values \<open>json.loads\<close> makes of any text.
\<close>

type_synonym 'w corpus_reader = "pystr \<Rightarrow> ('w, aid_record list) prog"
type_synonym 'c cache = "(pystr option \<times> 'c) option"
type_synonym corpus_cache = "aid_record list cache"

definition load_corpus ::
  "(pystr \<Rightarrow> ('w, 'c) prog) \<Rightarrow> pystr \<Rightarrow> pystr option \<Rightarrow> ('c cache \<times> 'w, 'c) prog" where
  "load_corpus read default_path path s =
     (case s of (cache, w) \<Rightarrow>
       (case cache of
          Some (key, corpus) \<Rightarrow>
            if key = path then (Inr corpus, s)
            else (case read (case path of None \<Rightarrow> default_path | Some p \<Rightarrow> p) w of
                (Inl e, w') \<Rightarrow> (Inl e, (cache, w'))
              | (Inr c, w') \<Rightarrow> (Inr c, (Some (path, c), w')))
        | None \<Rightarrow> (case read (case path of None \<Rightarrow> default_path | Some p \<Rightarrow> p) w of
                (Inl e, w') \<Rightarrow> (Inl e, (cache, w'))
              | (Inr c, w') \<Rightarrow> (Inr c, (Some (path, c), w')))))"

text \<open>\<open>SearchAidsArgs\<close>: the schema of the tool's arguments; \<open>query\<close> has at least one character.\<close>

record search_args =
  sa_query :: pystr
  sa_category :: "pystr option"

definition validate_search_args :: "search_args \<Rightarrow> exn + search_args" where
  "validate_search_args args =
     (if length (sa_query args) < 1 then Inl (OtherException (py ''ValidationError'') (py ''query''))
      else Inr args)"

text \<open>The tool: its arguments are validated, then it runs.\<close>

definition search_aids ::
  "unidb \<Rightarrow> 'w corpus_reader \<Rightarrow> pystr \<Rightarrow> search_args \<Rightarrow>
     (corpus_cache \<times> 'w, aid_result list) prog" where
  "search_aids U read default_path args =
     (case validate_search_args args of
        Inl e \<Rightarrow> raise_p e
      | Inr valid \<Rightarrow> bind_p (load_corpus read default_path None) (\<lambda>corpus.
          return_p (search_aids_corpus U (sa_query valid) (sa_category valid) corpus)))"

section \<open>Tokens are maximal runs\<close>

function word_runs :: "(pychar \<Rightarrow> bool) \<Rightarrow> pystr \<Rightarrow> pystr list" where
  "word_runs P [] = []"
| "word_runs P (x # s) =
     (if P x then (x # takeWhile P s) # word_runs P (dropWhile P s) else word_runs P s)"
  by pat_completeness auto
termination
  by (relation "measure (\<lambda>(P, s). length s)") (auto simp: length_dropWhile_le le_imp_less_Suc)

lemma rep_rounds_greedy:
  "length s \<le> n \<Longrightarrow> first_match (rep_rounds (char_step P) 0 n (p, s, g)) =
     Some (after p (takeWhile P s), dropWhile P s, g)"
proof (induction s arbitrary: p n)
  case Nil
  then show ?case by (cases n) simp_all
next
  case (Cons x s)
  then obtain m where n: "n = Suc m" "length s \<le> m" by (cases n) auto
  show ?case
  proof (cases "P x")
    case True
    have "first_match (xs @ ys) = first_match xs" if "first_match xs = Some z" for xs ys :: "rpos list" and z
      using that by (cases xs) simp_all
    with True Cons.IH [OF n(2), of "Some x"] n show ?thesis by simp
  qed (use n in simp)
qed

lemma rmatch_token:
  "rmatch U False TOKEN_PATTERN (p, s, []) = rep_rounds (char_step (is_word U)) (Suc 0) (length s) (p, s, [])"
proof -
  have "cset_ok U False WordC = is_word U" by (rule ext) simp
  then have "rmatch U False (Chr WordC) = char_step (is_word U)" by (intro ext) simp
  then show ?thesis by (simp add: TOKEN_PATTERN_def)
qed

lemma token_match:
  "first_match (rmatch U False TOKEN_PATTERN (p, x # s, [])) =
     (if is_word U x then Some (after p (x # takeWhile (is_word U) s), dropWhile (is_word U) s, []) else None)"
  using rep_rounds_greedy [of s "Suc (length s)" "is_word U" "Some x" "[]"]
  by (simp add: rmatch_token)

lemma token_match_Nil: "first_match (rmatch U False TOKEN_PATTERN (p, [], [])) = None"
  by (simp add: rmatch_token)

lemma findall_runs: "findall_from U False TOKEN_PATTERN p s = word_runs (is_word U) s"
proof (induction "is_word U" s arbitrary: p rule: word_runs.induct)
  case 1
  show ?case by (simp add: findall_from.simps token_match_Nil)
next
  case (2 x s)
  have "length (dropWhile (is_word U) s) \<le> length s" by (rule length_dropWhile_le)
  moreover have "take (Suc (length s) - length (dropWhile (is_word U) s)) (x # s) = x # takeWhile (is_word U) s"
    by (metis (no_types, lifting) add_diff_cancel_right' append_Cons append_eq_conv_conj
        length_Cons length_append takeWhile_dropWhile_id)
  ultimately show ?case
    using 2 by (subst findall_from.simps) (simp add: token_match le_imp_less_Suc)
qed

theorem tokenize_runs: "tokenize U s = set (word_runs (is_word U) (normalize U s))"
  by (simp add: tokenize_def re_findall_def findall_runs)

lemma finite_tokenize [simp]: "finite (tokenize U s)"
  by (simp add: tokenize_def)

section \<open>The ranking\<close>

text \<open>
  What the results promise: \<open>ranked\<close> lists the eligible records, best score first, and records
  with the same score in the order of the corpus.
\<close>

definition eligible :: "unidb \<Rightarrow> pystr \<Rightarrow> pystr option \<Rightarrow> aid_record \<Rightarrow> bool" where
  "eligible U query category r \<longleftrightarrow>
     (case category of None \<Rightarrow> True | Some c \<Rightarrow> c = [] \<or> matches_category U r c) \<and>
     tokenize U query \<inter> (tokenize U (ar_title r) \<union> tokenize U (ar_description r) \<union>
       tokenize U (ar_conditions r)) \<noteq> {}"

definition search_ranking ::
  "unidb \<Rightarrow> pystr \<Rightarrow> pystr option \<Rightarrow> aid_record list \<Rightarrow> aid_record list \<Rightarrow> bool" where
  "search_ranking U query category corpus ranked \<longleftrightarrow>
     mset ranked = mset (filter (eligible U query category) corpus) \<and>
     sorted_wrt (\<lambda>r r'. score U r' (tokenize U query) \<le> score U r (tokenize U query)) ranked \<and>
     (\<forall>k. filter (\<lambda>r. score U r (tokenize U query) = k) ranked =
          filter (\<lambda>r. score U r (tokenize U query) = k) (filter (eligible U query category) corpus))"

lemma score_pos_iff:
  "score U r (tokenize U q) > 0 \<longleftrightarrow>
     tokenize U q \<inter> (tokenize U (ar_title r) \<union> tokenize U (ar_description r) \<union> tokenize U (ar_conditions r)) \<noteq> {}"
  by (auto simp: score_def Let_def TITLE_MATCH_WEIGHT_def card_gt_0_iff)

lemma sort_key_map:
  "sort_key (\<lambda>p. f (snd p)) (map (\<lambda>r. (r, g r)) rs) = map (\<lambda>r. (r, g r)) (sort_key (\<lambda>r. f (g r)) rs)"
proof (induction rs)
  case (Cons r rs)
  have "insort_key (\<lambda>p. f (snd p)) (r, g r) (map (\<lambda>r. (r, g r)) xs) =
      map (\<lambda>r. (r, g r)) (insort_key (\<lambda>r. f (g r)) r xs)" for xs
    by (induction xs) simp_all
  with Cons show ?case by simp
qed simp

lemma search_results_eq:
  "search_aids_corpus U query category corpus =
     map aid_row (take MAX_RESULTS
       (sort_key (\<lambda>r. - int (score U r (tokenize U query))) (filter (eligible U query category) corpus)))"
proof -
  have cand: "(case category of None \<Rightarrow> corpus
      | Some c \<Rightarrow> if c \<noteq> [] then filter (\<lambda>r. matches_category U r c) corpus else corpus) =
      filter (\<lambda>r. case category of None \<Rightarrow> True | Some c \<Rightarrow> c = [] \<or> matches_category U r c) corpus"
    by (auto split: option.split)
  have "filter (\<lambda>r. score U r (tokenize U query) > 0)
      (filter (\<lambda>r. case category of None \<Rightarrow> True | Some c \<Rightarrow> c = [] \<or> matches_category U r c) corpus) =
      filter (eligible U query category) corpus"
    by (simp add: eligible_def [abs_def] score_pos_iff conj_commute)
  then show ?thesis
    by (simp add: search_aids_corpus_def Let_def cand filter_map comp_def take_map sort_key_map
        [where f = "\<lambda>n. - int n" and g = "\<lambda>r. score U r (tokenize U query)"])
qed

lemma sort_key_ranking:
  "search_ranking U query category corpus
     (sort_key (\<lambda>r. - int (score U r (tokenize U query))) (filter (eligible U query category) corpus))"
proof -
  let ?f = "\<lambda>r. - int (score U r (tokenize U query))"
  let ?xs = "filter (eligible U query category) corpus"
  have "sorted (map ?f (sort_key ?f ?xs))" by (rule sorted_sort_key)
  then have "sorted_wrt (\<lambda>r r'. score U r' (tokenize U query) \<le> score U r (tokenize U query)) (sort_key ?f ?xs)"
    by (simp add: sorted_map)
  moreover have "filter (\<lambda>r. score U r (tokenize U query) = k) (sort_key ?f ?xs) =
      filter (\<lambda>r. score U r (tokenize U query) = k) ?xs" for k
    using sort_key_stable [of ?f "- int k" ?xs] by simp
  ultimately show ?thesis by (simp add: search_ranking_def)
qed

section \<open>Accents and case\<close>

locale unicode_marks = unicode_db +
  assumes decompose: "u_nfkd U (s @ u_nfkd U t @ v) = u_nfkd U (s @ t @ v)"
    and mark_stripped: "u_combining U c \<Longrightarrow>
      filter (\<lambda>x. \<not> u_combining U x) (u_nfkd U (s @ c # t)) =
      filter (\<lambda>x. \<not> u_combining U x) (u_nfkd U (s @ t))"
begin

lemma strip_marks:
  "\<forall>c \<in> set marks. u_combining U c \<Longrightarrow> strip_accents U (s @ marks @ t) = strip_accents U (s @ t)"
  by (induction marks) (simp_all add: strip_accents_def mark_stripped)

lemma strip_accented:
  assumes "u_nfkd U [x] = b # marks" and "\<forall>c \<in> set marks. u_combining U c"
  shows "strip_accents U (s @ x # t) = strip_accents U (s @ b # t)"
proof -
  from decompose [of s "[x]" t] assms(1)
  have "strip_accents U (s @ x # t) = strip_accents U ((s @ [b]) @ marks @ t)"
    by (simp add: strip_accents_def)
  with strip_marks [OF assms(2), of "s @ [b]" t] show ?thesis by simp
qed

end

lemma assoc_None: "c \<notin> fst ` set kvs \<Longrightarrow> assoc kvs c = None"
  by (induction kvs) auto

lemma latin1_keys: "k \<in> fst ` set latin1_decompositions \<Longrightarrow> 128 \<le> k \<and> k < 256"
proof -
  have "list_all (\<lambda>(k, v). 128 \<le> k \<and> k < 256) latin1_decompositions" by code_simp
  then show "k \<in> fst ` set latin1_decompositions \<Longrightarrow> 128 \<le> k \<and> k < 256"
    by (auto simp: list_all_iff)
qed

lemma latin1_decompose_fixed: "c < 128 \<or> c \<ge> 256 \<Longrightarrow> latin1_decompose c = [c]"
proof -
  assume "c < 128 \<or> c \<ge> 256"
  then have "c \<notin> fst ` set latin1_decompositions" using latin1_keys [of c] by linarith
  then show ?thesis by (simp add: latin1_decompose_def assoc_None)
qed

lemma assoc_SomeD: "assoc kvs c = Some v \<Longrightarrow> (c, v) \<in> set kvs"
  by (induction kvs) (auto split: if_splits)

lemma latin1_decompose_idem: "concat (map latin1_decompose (latin1_decompose c)) = latin1_decompose c"
proof (cases "is_ascii c \<or> assoc latin1_decompositions c = None")
  case True
  then have "latin1_decompose c = [c]" by (auto simp: latin1_decompose_def)
  then show ?thesis by simp
next
  case False
  then obtain v where v: "assoc latin1_decompositions c = Some v" "latin1_decompose c = v"
    by (auto simp: latin1_decompose_def)
  have "list_all (\<lambda>(k, v). list_all (\<lambda>c. c < 128 \<or> c \<ge> 256) v) latin1_decompositions" by code_simp
  with assoc_SomeD [OF v(1)] have "\<forall>x \<in> set v. x < 128 \<or> x \<ge> 256" by (auto simp: list_all_iff)
  with latin1_decompose_fixed have "\<forall>x \<in> set v. latin1_decompose x = [x]" by simp
  with v(2) show ?thesis by (simp add: concat_map_single)
qed

lemma latin1_nfkd_idem: "u_nfkd latin1_db (u_nfkd latin1_db t) = u_nfkd latin1_db t"
  by (induction t) (simp_all add: latin1_db_def latin1_decompose_idem)

interpretation latin1m: unicode_marks latin1_db
proof unfold_locales
  show "u_nfkd latin1_db (s @ u_nfkd latin1_db t @ v) = u_nfkd latin1_db (s @ t @ v)" for s t v
    using latin1_nfkd_idem [of t] by (simp add: latin1_db_def)
  show "filter (\<lambda>x. \<not> u_combining latin1_db x) (u_nfkd latin1_db (s @ c # t)) =
      filter (\<lambda>x. \<not> u_combining latin1_db x) (u_nfkd latin1_db (s @ t))"
    if "u_combining latin1_db c" for c s t
    using that latin1_decompose_fixed [of c] by (simp add: latin1_db_def)
qed

section \<open>Properties\<close>

definition example_aid :: "pystr \<Rightarrow> pystr \<Rightarrow> aid_record" where
  "example_aid i title = \<lparr>ar_id = i, ar_title = title, ar_category = py ''logement'',
     ar_description = py ''Aide fictive'', ar_conditions = [], ar_amount = [], ar_source_url = [],
     ar_synthetic = True\<rparr>"

text \<open>C35. The results are the first three rows of a ranking of the eligible records: those of the
  category that share a token with the query, best score first, equal scores in corpus order.
  So no record outside the ranking is shown, at most three are, and no record left out scores
  more than one shown.\<close>

theorem search_returns_top_ranked:
  "\<exists>ranked. search_ranking U query category corpus ranked \<and>
     search_aids_corpus U query category corpus = map aid_row (take MAX_RESULTS ranked) \<and>
     (\<forall>r \<in> set (take MAX_RESULTS ranked). eligible U query category r \<and> r \<in> set corpus) \<and>
     (\<forall>r \<in> set (take MAX_RESULTS ranked). \<forall>r' \<in> set (drop MAX_RESULTS ranked).
        score U r' (tokenize U query) \<le> score U r (tokenize U query))"
proof -
  let ?ranked = "sort_key (\<lambda>r. - int (score U r (tokenize U query))) (filter (eligible U query category) corpus)"
  note rk = sort_key_ranking [of U query category corpus]
  then have "sorted_wrt (\<lambda>r r'. score U r' (tokenize U query) \<le> score U r (tokenize U query))
      (take MAX_RESULTS ?ranked @ drop MAX_RESULTS ?ranked)" by (simp add: search_ranking_def)
  then have "\<forall>r \<in> set (take MAX_RESULTS ?ranked). \<forall>r' \<in> set (drop MAX_RESULTS ?ranked).
      score U r' (tokenize U query) \<le> score U r (tokenize U query)"
    unfolding sorted_wrt_append by blast
  moreover have "\<forall>r \<in> set (take MAX_RESULTS ?ranked). eligible U query category r \<and> r \<in> set corpus"
    using set_take_subset [of MAX_RESULTS ?ranked] by auto
  ultimately show ?thesis using rk search_results_eq [of U query category corpus] by blast
qed

definition example_corpus :: "aid_record list" where
  "example_corpus =
     [example_aid [1] (py ''Aide velo''), example_aid [2] (py ''Aide velo neuf''),
      example_aid [3] (py ''Velo''), example_aid [4] (py ''Bourse''), example_aid [5] (py ''Velo neuf'')]"

theorem search_returns_top_ranked_witness:
  "\<exists>ranked. search_ranking latin1_db (py ''velo neuf'') None example_corpus ranked \<and>
     search_aids_corpus latin1_db (py ''velo neuf'') None example_corpus = map aid_row (take 3 ranked) \<and>
     map res_id (search_aids_corpus latin1_db (py ''velo neuf'') None example_corpus) = [[2], [5], [1]] \<and>
     (\<forall>r \<in> set (take 3 ranked). r \<in> set example_corpus)"
proof -
  have "map res_id (search_aids_corpus latin1_db (py ''velo neuf'') None example_corpus) = [[2], [5], [1]]"
    by code_simp
  moreover obtain ranked where "search_ranking latin1_db (py ''velo neuf'') None example_corpus ranked"
    and "search_aids_corpus latin1_db (py ''velo neuf'') None example_corpus = map aid_row (take 3 ranked)"
    and "\<forall>r \<in> set (take 3 ranked). r \<in> set example_corpus"
    using search_returns_top_ranked [of latin1_db "py ''velo neuf''" None example_corpus]
    unfolding MAX_RESULTS_def by (elim exE conjE) blast
  ultimately show ?thesis by (intro exI [of _ ranked] conjI)
qed

text \<open>Accents do not matter: a character of the query that decomposes into a base character and
  combining marks can be replaced by the base character without changing the results.\<close>

theorem search_accent_insensitive:
  assumes "unicode_marks U" and "u_nfkd U [x] = b # marks" and "\<forall>c \<in> set marks. u_combining U c"
  shows "search_aids_corpus U (s @ x # t) category corpus = search_aids_corpus U (s @ b # t) category corpus"
proof -
  have "tokenize U (s @ x # t) = tokenize U (s @ b # t)"
    by (simp add: tokenize_def normalize_def unicode_marks.strip_accented [OF assms])
  then show ?thesis by (simp add: search_aids_corpus_def)
qed

theorem search_accent_insensitive_witness:
  "search_aids_corpus latin1_db ([233] @ py ''tudiant'') None [example_aid [1] (py ''Aide etudiant'')] =
     search_aids_corpus latin1_db (py ''etudiant'') None [example_aid [1] (py ''Aide etudiant'')] \<and>
   search_aids_corpus latin1_db (py ''etudiant'') None [example_aid [1] (py ''Aide etudiant'')] \<noteq> []"
proof -
  have "u_nfkd latin1_db [233] = 101 # [769]" and "\<forall>c \<in> set [769]. u_combining latin1_db c" by code_simp+
  note eq = search_accent_insensitive [OF latin1m.unicode_marks_axioms this, of "[]" "py ''tudiant''"]
  have "search_aids_corpus latin1_db (py ''etudiant'') None [example_aid [1] (py ''Aide etudiant'')] \<noteq> []"
    by code_simp
  with eq show ?thesis by simp
qed

text \<open>Case does not matter for ASCII queries: the query and its lower-case form give the same
  results.\<close>

theorem search_case_insensitive:
  assumes "unicode_db U" and "\<forall>c \<in> set query. is_ascii c"
  shows "search_aids_corpus U (map ascii_to_lower query) category corpus = search_aids_corpus U query category corpus"
proof -
  have low: "is_ascii (ascii_to_lower c)" "ascii_to_lower (ascii_to_lower c) = ascii_to_lower c"
    if "is_ascii c" for c using that by (auto simp: ascii_defs)
  have strip: "strip_accents U s = s" if "\<forall>c \<in> set s. is_ascii c" for s
    using that unicode_db.nfkd_ascii [OF assms(1) that] unicode_db.combining_ascii [OF assms(1)]
    by (simp add: strip_accents_def filter_id_conv)
  have lower: "\<forall>c \<in> set (map ascii_to_lower query). is_ascii c" using assms(2) low(1) by auto
  have "normalize U (map ascii_to_lower query) = normalize U query"
    unfolding normalize_def strip [OF lower] strip [OF assms(2)]
      unicode_db.lower_ascii [OF assms(1) lower] unicode_db.lower_ascii [OF assms(1,2)]
    using low(2) assms(2) by simp
  then show ?thesis by (simp add: search_aids_corpus_def tokenize_def)
qed

theorem search_case_insensitive_witness:
  "search_aids_corpus latin1_db (py ''etudiant'') None [example_aid [1] (py ''Aide etudiant'')] =
     search_aids_corpus latin1_db (py ''ETUDIANT'') None [example_aid [1] (py ''Aide etudiant'')]"
proof -
  have "\<forall>c \<in> set (py ''ETUDIANT''). is_ascii c" by code_simp
  moreover have "map ascii_to_lower (py ''ETUDIANT'') = py ''etudiant''" by code_simp
  ultimately show ?thesis
    using search_case_insensitive [OF latin1.unicode_db_axioms, of "py ''ETUDIANT''"] by metis
qed

lemma py_rstrip_last: "py_rstrip s \<noteq> [] \<Longrightarrow> \<not> is_space (last (py_rstrip s))"
  using hd_dropWhile [of is_space "rev s"] by (auto simp: py_rstrip_def last_rev)

text \<open>C39. A snippet is the whole description if it has at most 160 characters; otherwise it is the
  first 160 characters without their trailing white space, followed by three dots.\<close>

theorem snippet_is_cut:
  "(length (ar_description r) \<le> 160 \<longrightarrow> snippet r = ar_description r) \<and>
   (length (ar_description r) > 160 \<longrightarrow> (\<exists>k \<le> 160. snippet r = take k (ar_description r) @ py ''...'' \<and>
      (k > 0 \<longrightarrow> \<not> is_space (ar_description r ! (k - 1))) \<and>
      (\<forall>i. k \<le> i \<and> i < 160 \<longrightarrow> is_space (ar_description r ! i))))"
proof (intro conjI impI)
  show "snippet r = ar_description r" if "length (ar_description r) \<le> 160"
    using that by (simp add: snippet_def SNIPPET_LENGTH_def)
next
  assume long: "length (ar_description r) > 160"
  let ?d = "ar_description r"
  let ?k = "length (py_rstrip (take 160 ?d))"
  from py_rstrip_prefix [of "take 160 ?d"] obtain t where
    t: "take 160 ?d = py_rstrip (take 160 ?d) @ t" "\<forall>c \<in> set t. is_space c" by blast
  then have k: "?k + length t = 160" using long by (metis length_append length_take min.absorb4)
  have strip: "py_rstrip (take 160 ?d) = take ?k ?d"
    using t k by (metis append_eq_conv_conj le_add1 min.absorb1 take_take)
  have "\<not> is_space (?d ! (?k - 1))" if "?k > 0"
  proof -
    from that have "last (py_rstrip (take 160 ?d)) = ?d ! (?k - 1)"
      by (metis diff_less last_conv_nth length_greater_0_conv nth_take strip zero_less_one)
    with that py_rstrip_last [of "take 160 ?d"] show ?thesis by simp
  qed
  moreover have "is_space (?d ! i)" if "?k \<le> i" "i < 160" for i
  proof -
    from that have "?d ! i = take 160 ?d ! i" by simp
    also have "\<dots> = t ! (i - ?k)" using t(1) that(1) by (metis leD nth_append)
    finally show ?thesis using t(2) that k by simp
  qed
  moreover have "snippet r = take ?k ?d @ py ''...''"
    using long by (simp add: snippet_def SNIPPET_LENGTH_def strip [symmetric])
  ultimately show "\<exists>k \<le> 160. snippet r = take k ?d @ py ''...'' \<and>
      (k > 0 \<longrightarrow> \<not> is_space (?d ! (k - 1))) \<and> (\<forall>i. k \<le> i \<and> i < 160 \<longrightarrow> is_space (?d ! i))"
    using k by (intro exI [of _ ?k]) auto
qed

theorem snippet_is_cut_witness:
  "\<exists>k \<le> 160. snippet ((example_aid [1] [])\<lparr>ar_description := replicate 150 97 @ replicate 50 32\<rparr>) =
     take k (replicate 150 97 @ replicate 50 32) @ py ''...'' \<and> (\<forall>i. k \<le> i \<and> i < 160 \<longrightarrow>
       is_space ((replicate 150 97 @ replicate 50 32) ! i))"
proof -
  let ?r = "(example_aid [1] [])\<lparr>ar_description := replicate 150 97 @ replicate 50 32\<rparr>"
  have "length (ar_description ?r) > 160" by simp
  with snippet_is_cut [of ?r] obtain k where "k \<le> 160"
    "snippet ?r = take k (ar_description ?r) @ py ''...''"
    "\<forall>i. k \<le> i \<and> i < 160 \<longrightarrow> is_space (ar_description ?r ! i)" by blast
  then show ?thesis by (intro exI [of _ k]) simp
qed

end
