(* ===== verification/Sse.thy ===== *)
theory Sse
  imports PyText
begin

text \<open>
  The SSE encoding of app/api/routes/chat.py: the three event payloads, \<open>json.dumps\<close> on a
  dictionary of texts (\<open>ensure_ascii\<close>, default separators) and \<open>format_sse_event\<close>.

  \<open>sse_decode\<close> is what a client does: it splits the stream at blank lines, takes the
  \<open>data: \<close> line of each frame and reads the JSON object in it. \<open>sse_decode_stream\<close> shows that it
  recovers the events, for texts of Unicode scalar values; \<open>json_dumps_printable\<close> that the
  payload holds no line break whatever the texts are.
\<close>

section \<open>Encoding\<close>

type_synonym event = "(pystr \<times> pystr) list"

definition build_token_event :: "pystr \<Rightarrow> event" where
  "build_token_event content = [(py ''type'', py ''token''), (py ''content'', content)]"

definition build_done_event :: "pystr \<Rightarrow> pystr \<Rightarrow> event" where
  "build_done_event thread_id content =
     [(py ''type'', py ''done''), (py ''thread_id'', thread_id), (py ''content'', content)]"

definition build_error_event :: "pystr \<Rightarrow> event" where
  "build_error_event message = [(py ''type'', py ''error''), (py ''message'', message)]"

text \<open>\<open>\\uXXXX\<close>; code points above the BMP are written as their two UTF-16 surrogates.\<close>

definition u_escape :: "int \<Rightarrow> pystr" where
  "u_escape n = [92, 117] @ hex_pad 4 n"

definition json_char :: "pychar \<Rightarrow> pystr" where
  "json_char c =
     (if c = 34 then [92, 34]
      else if c = 92 then [92, 92]
      else if c = 10 then [92, 110]
      else if c = 13 then [92, 114]
      else if c = 9 then [92, 116]
      else if c = 12 then [92, 102]
      else if c = 8 then [92, 98]
      else if 32 \<le> c \<and> c \<le> 126 then [c]
      else if c < 65536 then u_escape c
      else u_escape (55296 + (c - 65536) div 1024) @ u_escape (56320 + (c - 65536) mod 1024))"

definition json_string :: "pystr \<Rightarrow> pystr" where
  "json_string s = [34] @ concat (map json_char s) @ [34]"

definition json_member :: "pystr \<times> pystr \<Rightarrow> pystr" where
  "json_member kv = json_string (fst kv) @ py '': '' @ json_string (snd kv)"

definition json_dumps :: "event \<Rightarrow> pystr" where
  "json_dumps ev = py ''{'' @ join (py '', '') (map json_member ev) @ py ''}''"

definition format_sse_event :: "event \<Rightarrow> pystr" where
  "format_sse_event ev = py ''data: '' @ json_dumps ev @ [10, 10]"

section \<open>Decoding\<close>

definition hex_value :: "pychar \<Rightarrow> int option" where
  "hex_value c =
     (if 48 \<le> c \<and> c \<le> 57 then Some (c - 48)
      else if 97 \<le> c \<and> c \<le> 102 then Some (c - 87)
      else if 65 \<le> c \<and> c \<le> 70 then Some (c - 55)
      else None)"

fun hex_number :: "int \<Rightarrow> pystr \<Rightarrow> int option" where
  "hex_number acc [] = Some acc"
| "hex_number acc (c # s) = (case hex_value c of None \<Rightarrow> None | Some d \<Rightarrow> hex_number (16 * acc + d) s)"

text \<open>The unit after \<open>\\u\<close> and what follows it.\<close>

definition u_unit :: "pystr \<Rightarrow> (int \<times> pystr) option" where
  "u_unit s =
     (if length s < 4 then None
      else map_option (\<lambda>n. (n, drop 4 s)) (hex_number 0 (take 4 s)))"

definition escaped_char :: "pychar \<Rightarrow> pychar option" where
  "escaped_char c =
     (if c = 34 \<or> c = 92 \<or> c = 47 then Some c
      else if c = 110 then Some 10
      else if c = 114 then Some 13
      else if c = 116 then Some 9
      else if c = 102 then Some 12
      else if c = 98 then Some 8
      else None)"

text \<open>One character of a JSON string, and the text after it.\<close>

definition u_char :: "pystr \<Rightarrow> (pychar \<times> pystr) option" where
  "u_char s =
     (case u_unit s of
        None \<Rightarrow> None
      | Some (n, r) \<Rightarrow>
          if 55296 \<le> n \<and> n \<le> 56319 \<and> take 2 r = [92, 117] then
            (case u_unit (drop 2 r) of
               None \<Rightarrow> None
             | Some (m, r') \<Rightarrow>
                 if 56320 \<le> m \<and> m \<le> 57343
                 then Some (65536 + (n - 55296) * 1024 + (m - 56320), r')
                 else Some (n, r))
          else Some (n, r))"

definition one_char :: "pystr \<Rightarrow> (pychar \<times> pystr) option" where
  "one_char s =
     (case s of
        [] \<Rightarrow> None
      | c # r \<Rightarrow>
          if c \<noteq> 92 then (if c < 32 then None else Some (c, r))
          else (case r of
              [] \<Rightarrow> None
            | e # r' \<Rightarrow> if e = 117 then u_char r'
                else map_option (\<lambda>x. (x, r')) (escaped_char e)))"

text \<open>The rest of a string whose opening quote has been read, and the text after it.\<close>

function string_body :: "pystr \<Rightarrow> (pystr \<times> pystr) option" where
  "string_body s =
     (case s of
        [] \<Rightarrow> None
      | c # r \<Rightarrow>
          if c = 34 then Some ([], r)
          else (case one_char s of
              None \<Rightarrow> None
            | Some (x, r') \<Rightarrow>
                if length r' < length s
                then map_option (\<lambda>(xs, q). (x # xs, q)) (string_body r') else None))"
  by pat_completeness auto
termination
  by (relation "measure length") auto

declare string_body.simps [simp del]

definition expect :: "pystr \<Rightarrow> pystr \<Rightarrow> pystr option" where
  "expect p s = (if startswith s p then Some (drop (length p) s) else None)"

definition skip_blanks :: "pystr \<Rightarrow> pystr" where
  "skip_blanks s = dropWhile (\<lambda>c. c = 32 \<or> c = 9 \<or> c = 10 \<or> c = 13) s"

text \<open>A key and its value.\<close>

definition member :: "pystr \<Rightarrow> ((pystr \<times> pystr) \<times> pystr) option" where
  "member s =
     Option.bind (expect [34] s) (\<lambda>s.
     Option.bind (string_body s) (\<lambda>(k, s).
     Option.bind (expect [58] (skip_blanks s)) (\<lambda>s.
     Option.bind (expect [34] (skip_blanks s)) (\<lambda>s.
     Option.bind (string_body s) (\<lambda>(v, s).
     Some ((k, v), skip_blanks s))))))"

function members :: "pystr \<Rightarrow> (event \<times> pystr) option" where
  "members s =
     (case member s of
        None \<Rightarrow> None
      | Some (kv, r) \<Rightarrow>
          (case r of
             [] \<Rightarrow> None
           | c # r' \<Rightarrow>
               if c = 125 then Some ([kv], r')
               else if c = 44 \<and> length r' < length s
               then map_option (\<lambda>(kvs, q). (kv # kvs, q)) (members (skip_blanks r'))
               else None))"
  by pat_completeness auto
termination
  by (relation "measure length")
    (auto simp: skip_blanks_def intro: le_less_trans [OF length_dropWhile_le])

declare members.simps [simp del]

definition json_loads :: "pystr \<Rightarrow> event option" where
  "json_loads s =
     Option.bind (expect [123] (skip_blanks s)) (\<lambda>s.
       case skip_blanks s of
         [] \<Rightarrow> None
       | c # r \<Rightarrow>
           if c = 125 then (if skip_blanks r = [] then Some [] else None)
           else Option.bind (members (c # r)) (\<lambda>(kvs, q). if skip_blanks q = [] then Some kvs else None))"

text \<open>The events of a stream whose every frame is one \<open>data: \<close> line and a blank line.\<close>

function sse_decode :: "pystr \<Rightarrow> event list option" where
  "sse_decode s =
     (if s = [] then Some []
      else
        let line = takeWhile (\<lambda>c. c \<noteq> 10) s; r = dropWhile (\<lambda>c. c \<noteq> 10) s in
        Option.bind (expect [10, 10] r) (\<lambda>r'.
        Option.bind (expect (py ''data: '') line) (\<lambda>payload.
        Option.bind (json_loads payload) (\<lambda>ev.
          if length r' < length s then map_option ((#) ev) (sse_decode r') else None))))"
  by pat_completeness auto
termination
  by (relation "measure length") auto

declare sse_decode.simps [simp del]

section \<open>The payload is one printable line\<close>

definition printable_ascii :: "pystr \<Rightarrow> bool" where
  "printable_ascii s \<longleftrightarrow> (\<forall>c \<in> set s. 32 \<le> c \<and> c \<le> 126)"

lemma printable_ascii_simps [simp]:
  "printable_ascii []"
  "printable_ascii (c # s) \<longleftrightarrow> 32 \<le> c \<and> c \<le> 126 \<and> printable_ascii s"
  "printable_ascii (s @ t) \<longleftrightarrow> printable_ascii s \<and> printable_ascii t"
  "printable_ascii (concat ss) \<longleftrightarrow> (\<forall>s \<in> set ss. printable_ascii s)"
  by (auto simp: printable_ascii_def)

lemma printable_hex_pad [simp]: "printable_ascii (hex_pad n k)"
proof (induction n arbitrary: k)
  case (Suc n)
  have "0 \<le> k mod 16" "k mod 16 < 16" by simp_all
  then have "32 \<le> hex_digit (k mod 16) \<and> hex_digit (k mod 16) \<le> 126"
    by (auto simp: hex_digit_def)
  with Suc show ?case by simp
qed simp

lemma printable_json_char [simp]: "printable_ascii (json_char c)"
  by (simp add: json_char_def u_escape_def)

lemma printable_join: "printable_ascii sep \<Longrightarrow> \<forall>s \<in> set ss. printable_ascii s \<Longrightarrow> printable_ascii (join sep ss)"
  by (induction sep ss rule: join.induct) simp_all

lemma json_dumps_printable: "printable_ascii (json_dumps ev)"
proof -
  have "printable_ascii (json_member kv)" for kv
    by (simp add: json_member_def json_string_def)
  then show ?thesis by (simp add: json_dumps_def printable_join)
qed

section \<open>Decoding inverts encoding\<close>

definition scalar :: "pychar \<Rightarrow> bool" where
  "scalar c \<longleftrightarrow> 0 \<le> c \<and> c < 1114112 \<and> \<not> (55296 \<le> c \<and> c \<le> 57343)"

definition scalar_event :: "event \<Rightarrow> bool" where
  "scalar_event ev \<longleftrightarrow> (\<forall>(k, v) \<in> set ev. list_all scalar k \<and> list_all scalar v)"

lemma hex_value_digit: "0 \<le> d \<Longrightarrow> d < 16 \<Longrightarrow> hex_value (hex_digit d) = Some d"
  by (auto simp: hex_value_def hex_digit_def)

lemma hex_number_append:
  "hex_number acc (s @ t) = (case hex_number acc s of None \<Rightarrow> None | Some a \<Rightarrow> hex_number a t)"
  by (induction s arbitrary: acc) (auto split: option.split)

lemma hex_number_pad: "hex_number acc (hex_pad n k) = Some (16 ^ n * acc + k mod 16 ^ n)"
proof (induction n arbitrary: k)
  case (Suc n)
  have "k mod (16 * 16 ^ n) = 16 * (k div 16 mod 16 ^ n) + k mod 16"
    by (simp add: zmod_zmult2_eq)
  then show ?case by (simp add: hex_number_append Suc hex_value_digit algebra_simps)
qed simp

lemma length_hex_pad [simp]: "length (hex_pad n k) = n"
  by (induction n arbitrary: k) simp_all

lemma u_unit_pad: "0 \<le> n \<Longrightarrow> n < 65536 \<Longrightarrow> u_unit (hex_pad 4 n @ r) = Some (n, r)"
  by (simp add: u_unit_def hex_number_pad)

lemma one_char_json_char:
  assumes "scalar c"
  shows "one_char (json_char c @ r) = Some (c, r)" and "hd (json_char c) \<noteq> 34" and "json_char c \<noteq> []"
proof -
  have bmp: "u_char (hex_pad 4 n @ r) = Some (n, r)" if "0 \<le> n" "n < 65536" "\<not> (55296 \<le> n \<and> n \<le> 56319)" for n
    using that by (auto simp: u_char_def u_unit_pad)
  have pair: "u_char (hex_pad 4 (55296 + (c - 65536) div 1024) @ [92, 117] @
      hex_pad 4 (56320 + (c - 65536) mod 1024) @ r) = Some (c, r)" if "65536 \<le> c"
  proof -
    let ?hi = "55296 + (c - 65536) div 1024" and ?lo = "56320 + (c - 65536) mod 1024"
    have hi: "55296 \<le> ?hi" "?hi \<le> 56319" using that assms by (auto simp: scalar_def)
    have lo: "56320 \<le> ?lo" "?lo \<le> 57343" by (auto simp: pos_mod_bound [of 1024, simplified])
    have "u_unit (hex_pad 4 ?hi @ [92, 117] @ hex_pad 4 ?lo @ r) = Some (?hi, [92, 117] @ hex_pad 4 ?lo @ r)"
      using hi by (intro u_unit_pad) auto
    moreover have "u_unit (drop 2 ([92, 117] @ hex_pad 4 ?lo @ r)) = Some (?lo, r)"
      using lo u_unit_pad [of ?lo r] by simp
    moreover have "65536 + (?hi - 55296) * 1024 + (?lo - 56320) = c"
      by (simp add: algebra_simps)
    ultimately show ?thesis using hi lo unfolding u_char_def by simp
  qed
  show "one_char (json_char c @ r) = Some (c, r)"
    using assms bmp [of c] pair
    by (auto simp: one_char_def json_char_def u_escape_def escaped_char_def scalar_def)
  show "hd (json_char c) \<noteq> 34" "json_char c \<noteq> []"
    by (auto simp: json_char_def u_escape_def)
qed

lemma string_body_json:
  "list_all scalar s \<Longrightarrow> string_body (concat (map json_char s) @ 34 # r) = Some (s, r)"
proof (induction s)
  case Nil
  show ?case by (simp add: string_body.simps)
next
  case (Cons c s)
  from Cons.prems have c: "scalar c" by simp
  let ?rest = "concat (map json_char s) @ 34 # r"
  obtain x xs where js: "json_char c = x # xs" "x \<noteq> 34"
    using one_char_json_char(2,3) [OF c] by (cases "json_char c") auto
  have "one_char (x # xs @ ?rest) = Some (c, ?rest)"
    using one_char_json_char(1) [OF c, of ?rest] js by simp
  with js Cons show ?case by (subst string_body.simps) simp
qed

lemma expect_append [simp]: "expect p (p @ r) = Some r"
  by (simp add: expect_def)

lemma skip_blanks_simps [simp]:
  "skip_blanks [] = []"
  "skip_blanks (32 # s) = skip_blanks s"
  "c \<notin> {9, 10, 13, 32} \<Longrightarrow> skip_blanks (c # s) = c # s"
  by (simp_all add: skip_blanks_def)

lemma expect_one [simp]: "expect [c] (c # r) = Some r"
  by (simp add: expect_def)

lemma member_json:
  assumes "list_all scalar (fst kv)" and "list_all scalar (snd kv)"
  shows "member (json_member kv @ r) = Some (kv, skip_blanks r)"
  using assms
  by (simp add: member_def json_member_def json_string_def string_body_json)

lemma skip_blanks_member [simp]: "skip_blanks (json_member kv @ r) = json_member kv @ r"
  by (simp add: json_member_def json_string_def)

lemma members_json:
  "scalar_event (kv # kvs) \<Longrightarrow>
     members (join (py '', '') (map json_member (kv # kvs)) @ 125 # r) = Some (kv # kvs, r)"
proof (induction kvs arbitrary: kv)
  case Nil
  then have "member (json_member kv @ 125 # r) = Some (kv, 125 # r)"
    by (subst member_json) (auto simp: scalar_event_def)
  then show ?case by (subst members.simps) simp
next
  case (Cons kv' kvs)
  let ?rest = "join (py '', '') (map json_member (kv' # kvs)) @ 125 # r"
  have m: "member (json_member kv @ 44 # 32 # ?rest) = Some (kv, 44 # 32 # ?rest)"
    using Cons.prems by (subst member_json) (auto simp: scalar_event_def)
  have sb: "skip_blanks (32 # ?rest) = ?rest" by (cases kvs) simp_all
  have "members ?rest = Some (kv' # kvs, r)"
    using Cons by (simp add: scalar_event_def)
  with m sb have "members (json_member kv @ 44 # 32 # ?rest) = Some (kv # kv' # kvs, r)"
    by (subst members.simps) simp
  then show ?case by simp
qed

lemma json_loads_dumps:
  assumes "scalar_event ev"
  shows "json_loads (json_dumps ev) = Some ev"
proof (cases ev)
  case Nil
  then show ?thesis by (simp add: json_loads_def json_dumps_def)
next
  case (Cons kv kvs)
  let ?body = "join (py '', '') (map json_member ev) @ [125]"
  have "members ?body = Some (ev, [])" using members_json [of kv kvs "[]"] assms Cons by simp
  moreover obtain r where "?body = 34 # r"
    using Cons by (cases kvs) (simp_all add: json_member_def json_string_def)
  ultimately show ?thesis by (simp add: json_loads_def json_dumps_def)
qed

lemma line_split:
  assumes "\<forall>c \<in> set line. c \<noteq> 10"
  shows "takeWhile (\<lambda>c. c \<noteq> (10::int)) (line @ 10 # r) = line"
    and "dropWhile (\<lambda>c. c \<noteq> (10::int)) (line @ 10 # r) = 10 # r"
  using assms by (induction line) simp_all

lemma sse_decode_step:
  assumes "scalar_event ev"
  shows "sse_decode (format_sse_event ev @ r) = map_option ((#) ev) (sse_decode r)"
proof -
  let ?line = "py ''data: '' @ json_dumps ev"
  have "\<forall>c \<in> set ?line. c \<noteq> 10"
    using json_dumps_printable [of ev] by (auto simp: printable_ascii_def)
  then have "takeWhile (\<lambda>c. c \<noteq> 10) (?line @ 10 # 10 # r) = ?line"
    "dropWhile (\<lambda>c. c \<noteq> 10) (?line @ 10 # 10 # r) = 10 # 10 # r"
    by (rule line_split)+
  moreover have "format_sse_event ev @ r = ?line @ 10 # 10 # r"
    by (simp add: format_sse_event_def)
  moreover have "expect (py ''data: '') ?line = Some (json_dumps ev)" by (rule expect_append)
  ultimately show ?thesis
    using json_loads_dumps [OF assms] expect_append [of "[10, 10]" r]
    by (subst sse_decode.simps) (simp del: py_simps)
qed

section \<open>Properties\<close>

text \<open>C31. Framing: the line of an event is \<open>data: \<close>, a payload of printable ASCII characters, and
  two line feeds, for every text the event carries. No content can end a frame early or start
  another one.\<close>

theorem format_sse_event_framed:
  "\<exists>payload. format_sse_event ev = py ''data: '' @ payload @ [10, 10] \<and>
     list_all (\<lambda>c. 32 \<le> c \<and> c \<le> 126) payload"
  using json_dumps_printable [of ev]
  by (intro exI [of _ "json_dumps ev"]) (simp add: format_sse_event_def printable_ascii_def list_all_iff)

text \<open>C32. Round trip: a client that splits the stream at blank lines and reads the JSON object of each
  \<open>data: \<close> line gets back exactly the events that were formatted, in order, for all keys and
  values made of Unicode scalar values.\<close>

theorem sse_decode_stream:
  assumes "\<forall>ev \<in> set evs. scalar_event ev"
  shows "sse_decode (concat (map format_sse_event evs)) = Some evs"
  using assms
proof (induction evs)
  case Nil
  show ?case by (simp add: sse_decode.simps)
next
  case (Cons ev evs)
  then show ?case by (simp add: sse_decode_step)
qed

theorem sse_decode_stream_witness:
  "sse_decode (concat (map format_sse_event
      [build_token_event (py ''Voici'' @ [10, 34, 233, 128512]), build_done_event (py ''t'') []])) =
   Some [build_token_event (py ''Voici'' @ [10, 34, 233, 128512]), build_done_event (py ''t'') []]"
  by (rule sse_decode_stream) (simp add: scalar_event_def scalar_def build_token_event_def build_done_event_def)

end
