(* ===== verification/Logging.thy ===== *)
theory Logging
  imports Config
begin

text \<open>
  app/core/logging.py: the choice of renderer and level in \<open>configure_logging\<close>, and
  \<open>bind_trace_id\<close>, which keeps a trace id in structlog's context for the duration of a block.

  The context is a map of variables; a block is a program over the context and its own state
  that may also never end (\<open>None\<close>). \<open>upper\<close> is \<open>str.upper\<close>.
\<close>

datatype renderer = ConsoleRenderer | JSONRenderer

record log_config =
  lc_processors :: "pystr list"
  lc_renderer :: renderer
  lc_min_level :: int

text \<open>\<open>logging.getLevelNamesMapping()\<close>\<close>

definition level_names :: "(pystr \<times> int) list" where
  "level_names =
     [(py ''CRITICAL'', 50), (py ''FATAL'', 50), (py ''ERROR'', 40), (py ''WARN'', 30),
      (py ''WARNING'', 30), (py ''INFO'', 20), (py ''DEBUG'', 10), (py ''NOTSET'', 0)]"

definition configure_logging :: "(pystr \<Rightarrow> pystr) \<Rightarrow> settings \<Rightarrow> log_config" where
  "configure_logging upper settings =
     \<lparr>lc_processors = [py ''merge_contextvars'', py ''add_log_level'', py ''TimeStamper'',
        py ''StackInfoRenderer'', py ''format_exc_info''],
      lc_renderer = (if APP_ENV settings = py ''local'' then ConsoleRenderer else JSONRenderer),
      lc_min_level = (case map_of level_names (upper (LOG_LEVEL settings)) of None \<Rightarrow> 20 | Some n \<Rightarrow> n)\<rparr>"

type_synonym log_context = "pystr \<Rightarrow> pystr option"

text \<open>A block that may run for ever.\<close>

type_synonym ('s, 'a) block = "'s \<Rightarrow> ((exn + 'a) \<times> 's) option"

definition bind_trace_id :: "pystr \<Rightarrow> (log_context \<times> 's, 'a) block \<Rightarrow> (log_context \<times> 's, 'a) block" where
  "bind_trace_id trace_id block s =
     (case s of (ctx, st) \<Rightarrow>
       map_option (\<lambda>(r, (ctx', st')). (r, (ctx'(py ''trace_id'' := None), st')))
         (block (ctx(py ''trace_id'' \<mapsto> trace_id), st)))"

lemma bind_trace_id_eq_Some:
  "bind_trace_id t block (ctx, st) = Some (r, (ctx', st')) \<longleftrightarrow>
     (\<exists>c. block (ctx(py ''trace_id'' \<mapsto> t), st) = Some (r, (c, st')) \<and> ctx' = c(py ''trace_id'' := None))"
  by (auto simp: bind_trace_id_def)

end
