(* ===== verification/Chat.thy ===== *)
theory Chat
  imports Sse AgentGraph Logging
begin

text \<open>
  app/api/routes/chat.py: the request body, the endpoint \<open>chat\<close> and the generator
  \<open>_stream_chat_events\<close> that turns one graph invocation into a stream of SSE lines.

  The graph behind the generator is a parameter, a \<open>server\<close>: what the next step of
  \<open>astream_events\<close> yields and how long it takes, likewise \<open>aget_state\<close>, and what happens when
  a line is handed to the consumer (which takes time, and may end in \<open>CancelledError\<close> or
  \<open>GeneratorExit\<close>). \<open>wait_for\<close> is \<open>asyncio.wait_for\<close>: the result if the operation takes less
  than the timeout, else \<open>TimeoutError\<close> when the timeout is over; what an operation abandoned
  in this way has done is also the server's (\<open>sv_abandon\<close>). The event loop's clock is
  part of the state.

  \<open>consume\<close> is the \<open>while True\<close> loop, as a partial function: \<open>None\<close> means that it never ends.
\<close>

section \<open>The request\<close>

definition DEFAULT_USER_ID :: pystr where "DEFAULT_USER_ID = py ''anonymous''"

text \<open>\<open>s.replace(old, new)\<close> for a non-empty \<open>old\<close>, the occurrences taken from the left\<close>

function replace_all :: "pystr \<Rightarrow> pystr \<Rightarrow> pystr \<Rightarrow> pystr" where
  "replace_all old new s =
     (case s of
        [] \<Rightarrow> []
      | c # r \<Rightarrow>
          if old \<noteq> [] \<and> startswith s old then new @ replace_all old new (drop (length old) s)
          else c # replace_all old new r)"
  by pat_completeness auto
termination
  by (relation "measure (\<lambda>(old, new, s). length s)") auto

declare replace_all.simps [simp del]

definition strip_chars :: "pychar list \<Rightarrow> pystr \<Rightarrow> pystr" where
  "strip_chars cs s = rev (dropWhile (\<lambda>c. c \<in> set cs) (rev (dropWhile (\<lambda>c. c \<in> set cs) s)))"

text \<open>
  \<open>int(s, 16)\<close>: white space around, an optional sign, an optional \<open>0x\<close>, then hexadecimal digits
  (decimal digits of any script among them) with single underscores between.
\<close>

definition digit16 :: "unidb \<Rightarrow> pychar \<Rightarrow> int option" where
  "digit16 U c = (case u_decimal U c of Some d \<Rightarrow> Some d | None \<Rightarrow> hex_value c)"

fun digits16 :: "unidb \<Rightarrow> int \<Rightarrow> bool \<Rightarrow> pystr \<Rightarrow> int option" where
  "digits16 U acc ok [] = (if ok then Some acc else None)"
| "digits16 U acc ok (c # s) =
     (if c = 95 then (if ok then digits16 U acc False s else None)
      else case digit16 U c of None \<Rightarrow> None | Some d \<Rightarrow> digits16 U (16 * acc + d) True s)"

definition unprefixed16 :: "unidb \<Rightarrow> pystr \<Rightarrow> int option" where
  "unprefixed16 U s =
     (if length s \<ge> 2 \<and> digit16 U (s ! 0) = Some 0 \<and> s ! 1 \<in> {120, 88}
      then (let r = drop 2 s in
            digits16 U 0 False (if r \<noteq> [] \<and> hd r = 95 then tl r else r))
      else digits16 U 0 False s)"

definition int16 :: "unidb \<Rightarrow> pystr \<Rightarrow> int option" where
  "int16 U s =
     (case py_strip s of
        [] \<Rightarrow> None
      | c # r \<Rightarrow>
          if c = 45 then map_option uminus (unprefixed16 U r)
          else if c = 43 then unprefixed16 U r
          else unprefixed16 U (c # r))"

text \<open>\<open>uuid.UUID(value)\<close>, as the integer it holds\<close>

definition uuid_of :: "unidb \<Rightarrow> pystr \<Rightarrow> exn + int" where
  "uuid_of U value =
     (let hex = replace_all (py ''uuid:'') [] (replace_all (py ''urn:'') [] value);
          hex = replace_all (py ''-'') [] (strip_chars (py ''{}'') hex)
      in if length hex \<noteq> 32 then Inl (ValueError (py ''badly formed hexadecimal UUID string''))
         else case int16 U hex of
             None \<Rightarrow> Inl int_value_error
           | Some n \<Rightarrow> if 0 \<le> n \<and> n < 2 ^ 128 then Inr n
               else Inl (ValueError (py ''int is out of range (need a 128-bit value)'')))"

text \<open>\<open>str(uuid)\<close>\<close>

definition uuid_text :: "int \<Rightarrow> pystr" where
  "uuid_text n =
     (let h = hex_pad 32 n in
      take 8 h @ [45] @ take 4 (drop 8 h) @ [45] @ take 4 (drop 12 h) @ [45] @
      take 4 (drop 16 h) @ [45] @ drop 20 h)"

record chat_request =
  cr_message :: pystr
  cr_thread_id :: "pystr option"
  cr_user_id :: "pystr option"

definition thread_id_must_be_a_valid_uuid :: "unidb \<Rightarrow> pystr option \<Rightarrow> exn + pystr option" where
  "thread_id_must_be_a_valid_uuid U v =
     (case v of
        None \<Rightarrow> Inr None
      | Some value \<Rightarrow> (case uuid_of U value of
            Inl e \<Rightarrow> Inl (ValueError (py ''thread_id must be a valid UUID''))
          | Inr n \<Rightarrow> Inr (Some value)))"

text \<open>Validation of the body: an empty message or a bad thread id is answered with 422.\<close>

definition validate_request :: "unidb \<Rightarrow> chat_request \<Rightarrow> exn + chat_request" where
  "validate_request U body =
     (if cr_message body = [] then Inl (HTTPException 422 (py ''message''))
      else case thread_id_must_be_a_valid_uuid U (cr_thread_id body) of
          Inl e \<Rightarrow> Inl (HTTPException 422 (py ''thread_id''))
        | Inr v \<Rightarrow> Inr (body\<lparr>cr_thread_id := v\<rparr>))"

section \<open>The stream\<close>

definition CASCADE_EXHAUSTED_MESSAGE :: pystr where
  "CASCADE_EXHAUSTED_MESSAGE = py ''the assistant is temporarily unavailable, please retry''"
definition TIMEOUT_MESSAGE :: pystr where
  "TIMEOUT_MESSAGE = py ''the request timed out''"
definition INTERNAL_ERROR_MESSAGE :: pystr where
  "INTERNAL_ERROR_MESSAGE = py ''an internal error occurred, please retry''"

fun classify_error :: "exn \<Rightarrow> pystr" where
  "classify_error (LLMCascadeExhaustedError gs e) = CASCADE_EXHAUSTED_MESSAGE"
| "classify_error (TimeoutError m) = TIMEOUT_MESSAGE"
| "classify_error e = INTERNAL_ERROR_MESSAGE"

definition extract_final_text :: "message list \<Rightarrow> pystr" where
  "extract_final_text ms =
     (case find is_ai (rev ms) of None \<Rightarrow> [] | Some m \<Rightarrow> content_text (msg_content m))"

record stream_event =
  ev_name :: pystr
  ev_content :: "content option"

text \<open>The truth value of a content: a text, or the \<open>str\<close> of a list or dictionary.\<close>

fun truthy :: "content \<Rightarrow> bool" where
  "truthy (StrContent s) = (s \<noteq> [])"
| "truthy (OtherContent s) = (s \<noteq> py ''[]'' \<and> s \<noteq> py ''{}'')"

definition token_text :: "stream_event \<Rightarrow> pystr option" where
  "token_text ev =
     (if ev_name ev \<noteq> py ''on_chat_model_stream'' then None
      else case ev_content ev of
          None \<Rightarrow> None | Some c \<Rightarrow> if truthy c then Some (content_text c) else None)"

record 'w server =
  sv_pull :: "'w \<Rightarrow> rat \<times> (exn + stream_event option) \<times> 'w"
  sv_state :: "'w \<Rightarrow> rat \<times> (exn + message list) \<times> 'w"
  sv_deliver :: "pystr \<Rightarrow> 'w \<Rightarrow> rat \<times> exn option \<times> 'w"
  sv_abandon :: "rat \<Rightarrow> 'w \<Rightarrow> 'w"

text \<open>A span of the tracer, with the attributes set on it.\<close>

record span =
  sp_name :: pystr
  sp_attributes :: "(pystr \<times> pystr) list"
  sp_ended :: bool

record 'w stream =
  clock :: rat
  outside :: 'w
  lines :: "pystr list"
  stream_log :: "(pystr \<times> pystr \<times> pystr \<times> pystr option) list"
  spans :: "span list"

definition wait_for ::
  "(rat \<Rightarrow> 'w \<Rightarrow> 'w) \<Rightarrow> ('w \<Rightarrow> rat \<times> (exn + 'a) \<times> 'w) \<Rightarrow> rat \<Rightarrow> ('w stream, 'a) prog" where
  "wait_for abandon op timeout s =
     (case op (outside s) of (d, r, w) \<Rightarrow>
        if d < timeout then (r, s\<lparr>clock := clock s + d, outside := w\<rparr>)
        else (Inl (TimeoutError []),
          s\<lparr>clock := clock s + timeout, outside := abandon timeout (outside s)\<rparr>))"

text \<open>\<open>yield line\<close>: until the consumer asks for the next line.\<close>

definition yield_line :: "'w server \<Rightarrow> pystr \<Rightarrow> ('w stream, unit) prog" where
  "yield_line srv line s =
     (case sv_deliver srv line (outside s) of (d, e, w) \<Rightarrow>
        (case e of None \<Rightarrow> Inr () | Some x \<Rightarrow> Inl x,
         s\<lparr>clock := clock s + d, outside := w, lines := lines s @ [line]\<rparr>))"

definition stream_timeout :: exn where
  "stream_timeout = TimeoutError (py ''chat stream exceeded CHAT_STREAM_TIMEOUT_SECONDS'')"

partial_function (option) consume ::
  "'w server \<Rightarrow> rat \<Rightarrow> 'w stream \<Rightarrow> ((exn + unit) \<times> 'w stream) option" where
  "consume srv deadline s =
     (if deadline - clock s \<le> 0 then Some (Inl stream_timeout, s)
      else case wait_for (sv_abandon srv) (sv_pull srv) (deadline - clock s) s of
          (Inl e, s1) \<Rightarrow> Some (Inl e, s1)
        | (Inr None, s1) \<Rightarrow> Some (Inr (), s1)
        | (Inr (Some ev), s1) \<Rightarrow>
            (case token_text ev of
               None \<Rightarrow> consume srv deadline s1
             | Some t \<Rightarrow>
                 (case yield_line srv (format_sse_event (build_token_event t)) s1 of
                    (Inl e, s2) \<Rightarrow> Some (Inl e, s2)
                  | (Inr u, s2) \<Rightarrow> consume srv deadline s2)))"

text \<open>The \<open>try\<close> block: the loop, the final state, the \<open>done\<close> event.\<close>

definition finish_stream :: "'w server \<Rightarrow> rat \<Rightarrow> pystr \<Rightarrow> ('w stream, unit) prog" where
  "finish_stream srv deadline thread_id s =
     (if deadline - clock s \<le> 0 then (Inl stream_timeout, s)
      else bind_p (wait_for (sv_abandon srv) (sv_state srv) (deadline - clock s))
        (\<lambda>ms. yield_line srv (format_sse_event (build_done_event thread_id (extract_final_text ms)))) s)"

definition stream_body :: "'w server \<Rightarrow> rat \<Rightarrow> pystr \<Rightarrow> 'w stream \<Rightarrow> ((exn + unit) \<times> 'w stream) option" where
  "stream_body srv deadline thread_id s =
     (case consume srv deadline s of
        None \<Rightarrow> None
      | Some (Inl e, s1) \<Rightarrow> Some (Inl e, s1)
      | Some (Inr u, s1) \<Rightarrow> Some (finish_stream srv deadline thread_id s1))"

text \<open>The \<open>except Exception\<close> handler.\<close>

definition handle_failure ::
  "'w server \<Rightarrow> pystr \<Rightarrow> pystr \<Rightarrow> pystr option \<Rightarrow> (exn + unit) \<times> 'w stream \<Rightarrow> (exn + unit) \<times> 'w stream" where
  "handle_failure srv thread_id uid trace_id rs =
     (case rs of
        (Inr u, s) \<Rightarrow> (Inr u, s)
      | (Inl e, s) \<Rightarrow>
          if is_Exception e
          then yield_line srv (format_sse_event (build_error_event (classify_error e)))
            (s\<lparr>stream_log := stream_log s @ [(thread_id, uid, type_name e, trace_id)]\<rparr>)
          else (Inl e, s))"

text \<open>The two together, within the logging context, which they read and leave alone.\<close>

definition guarded_body ::
  "'w server \<Rightarrow> rat \<Rightarrow> pystr \<Rightarrow> pystr \<Rightarrow> (log_context \<times> 'w stream, unit) block" where
  "guarded_body srv deadline thread_id uid cs =
     (case stream_body srv deadline thread_id (snd cs) of
        None \<Rightarrow> None
      | Some rs \<Rightarrow>
          (case handle_failure srv thread_id uid (fst cs (py ''trace_id'')) rs of
             (r, s') \<Rightarrow> Some (r, (fst cs, s'))))"

lemma guarded_body_eq_Some:
  "guarded_body srv deadline tid uid (ctx, s) = Some (r, (ctx', s')) \<longleftrightarrow>
     ctx' = ctx \<and> (\<exists>rs. stream_body srv deadline tid s = Some rs \<and>
       handle_failure srv tid uid (ctx (py ''trace_id'')) rs = (r, s'))"
  by (cases "stream_body srv deadline tid s")
    (auto simp: guarded_body_def split: prod.splits)

record run_config =
  rc_thread_id :: pystr
  rc_metadata :: "(pystr \<times> pystr) list"

definition run_config_of :: "(pystr \<Rightarrow> pystr) \<Rightarrow> pystr \<Rightarrow> pystr \<Rightarrow> run_config" where
  "run_config_of sha256_hex thread_id uid =
     \<lparr>rc_thread_id = thread_id,
      rc_metadata = [(py ''thread_id'', thread_id), (py ''user_id'', uid),
        (py ''prompt_version'', PROMPT_VERSION),
        (py ''prompt_hash'', system_prompt_hash sha256_hex SYSTEM_PROMPT)]\<rparr>"

definition initial_state :: "pystr \<Rightarrow> pystr \<Rightarrow> update" where
  "initial_state message uid =
     no_update\<lparr>up_messages := Some [HumanMessage (StrContent message)], up_user_id := Some uid,
       up_input_flags := Some []\<rparr>"

text \<open>
  \<open>with tracer.start_as_current_span(name) as span\<close>, with the attributes set on it first: however
  the block ends, the span is ended.
\<close>

definition open_span :: "pystr \<Rightarrow> (pystr \<times> pystr) list \<Rightarrow> 'w stream \<Rightarrow> 'w stream" where
  "open_span name attributes s =
     s\<lparr>spans := spans s @ [\<lparr>sp_name = name, sp_attributes = attributes, sp_ended = False\<rparr>]\<rparr>"

definition end_span :: "nat \<Rightarrow> 'w stream \<Rightarrow> 'w stream" where
  "end_span i s = s\<lparr>spans := (spans s)[i := (spans s ! i)\<lparr>sp_ended := True\<rparr>]\<rparr>"

definition in_span ::
  "pystr \<Rightarrow> (pystr \<times> pystr) list \<Rightarrow> (log_context \<times> 'w stream, 'a) block \<Rightarrow>
     (log_context \<times> 'w stream, 'a) block" where
  "in_span name attributes block cs =
     (case cs of (ctx, s) \<Rightarrow>
       map_option (\<lambda>(r, (ctx', s')). (r, (ctx', end_span (length (spans s)) s')))
         (block (ctx, open_span name attributes s)))"

definition request_attributes :: "(pystr \<Rightarrow> pystr) \<Rightarrow> pystr \<Rightarrow> pystr \<Rightarrow> (pystr \<times> pystr) list" where
  "request_attributes sha256_hex thread_id uid =
     [(py ''user_id'', uid), (py ''thread_id'', thread_id), (py ''prompt.version'', PROMPT_VERSION),
      (py ''prompt.hash'', system_prompt_hash sha256_hex SYSTEM_PROMPT)]"

text \<open>
  The generator, run to its end by its consumer. \<open>open_stream\<close> is the graph: an input and a run
  configuration give a server. \<open>span_id\<close> is the trace id of the request's span, if it is valid;
  the context is structlog's.
\<close>

definition stream_chat_events ::
  "(update \<Rightarrow> run_config \<Rightarrow> 'w server) \<Rightarrow> (pystr \<Rightarrow> pystr) \<Rightarrow> int option \<Rightarrow> pystr \<Rightarrow> pystr \<Rightarrow> pystr \<Rightarrow>
     rat \<Rightarrow> (log_context \<times> 'w stream, unit) block" where
  "stream_chat_events open_stream sha256_hex span_id message thread_id uid timeout_seconds cs =
     (let srv = open_stream (initial_state message uid) (run_config_of sha256_hex thread_id uid);
          deadline = clock (snd cs) + timeout_seconds;
          body = guarded_body srv deadline thread_id uid
      in in_span (py ''chat_request'') (request_attributes sha256_hex thread_id uid)
           (case span_id of
              Some trace_id \<Rightarrow> bind_trace_id (hex_pad 32 trace_id) body
            | None \<Rightarrow> body) cs)"

text \<open>\<open>POST /v1/chat\<close>; \<open>fresh\<close> is \<open>uuid.uuid4()\<close>.\<close>

definition chat ::
  "(update \<Rightarrow> run_config \<Rightarrow> 'w server) \<Rightarrow> (pystr \<Rightarrow> pystr) \<Rightarrow> int option \<Rightarrow> int \<Rightarrow> settings \<Rightarrow>
     chat_request \<Rightarrow> (log_context \<times> 'w stream, unit) block" where
  "chat open_stream sha256_hex span_id fresh settings body =
     (let thread_id = (case cr_thread_id body of
            None \<Rightarrow> uuid_text fresh | Some t \<Rightarrow> if t \<noteq> [] then t else uuid_text fresh);
          uid = (case cr_user_id body of
            None \<Rightarrow> DEFAULT_USER_ID | Some u \<Rightarrow> if u \<noteq> [] then u else DEFAULT_USER_ID)
      in stream_chat_events open_stream sha256_hex span_id (cr_message body) thread_id uid
           (CHAT_STREAM_TIMEOUT_SECONDS settings))"

section \<open>What a stream is made of\<close>

definition token_line :: "pystr \<Rightarrow> pystr" where
  "token_line t = format_sse_event (build_token_event t)"

text \<open>The events that may end a stream.\<close>

definition done_events :: "'w server \<Rightarrow> pystr \<Rightarrow> event set" where
  "done_events srv thread_id =
     {build_done_event thread_id (extract_final_text ms) | ms. \<exists>w d w'. sv_state srv w = (d, Inr ms, w')}"

definition error_events :: "event set" where
  "error_events =
     {build_error_event CASCADE_EXHAUSTED_MESSAGE, build_error_event TIMEOUT_MESSAGE,
      build_error_event INTERNAL_ERROR_MESSAGE}"

lemma classify_error_event: "build_error_event (classify_error e) \<in> error_events"
  by (cases e) (simp_all add: error_events_def)

text \<open>A consumer stops a generator only by exceptions outside \<open>Exception\<close>.\<close>

definition stops_by_base_exceptions :: "'w server \<Rightarrow> bool" where
  "stops_by_base_exceptions srv \<longleftrightarrow>
     (\<forall>line w d e w'. sv_deliver srv line w = (d, Some e, w') \<longrightarrow> \<not> is_Exception e)"

lemma stops_by_base_exceptionsD:
  "stops_by_base_exceptions srv \<Longrightarrow> yield_line srv line s = (Inl e, s') \<Longrightarrow> \<not> is_Exception e"
  unfolding stops_by_base_exceptions_def yield_line_def by (fastforce split: prod.splits option.splits)

lemma wait_for_frame:
  assumes "wait_for ab op t s = (r, s')"
  shows "lines s' = lines s" and "stream_log s' = stream_log s"
    and "r = Inr a \<Longrightarrow> \<exists>w d w'. op w = (d, Inr a, w')" and "spans s' = spans s"
  using assms by (auto simp: wait_for_def split: prod.splits if_splits)

lemma yield_line_frame:
  assumes "yield_line srv line s = (r, s')"
  shows "lines s' = lines s @ [line]" and "stream_log s' = stream_log s" and "spans s' = spans s"
  using assms by (auto simp: yield_line_def split: prod.splits)

text \<open>An invariant of the two operations of the loop holds when the loop ends.\<close>

lemma consume_invariant:
  assumes "consume srv deadline s = Some rs" and "P s"
    and pull: "\<And>s r s1. P s \<Longrightarrow> clock s < deadline \<Longrightarrow>
      wait_for (sv_abandon srv) (sv_pull srv) (deadline - clock s) s = (r, s1) \<Longrightarrow> P s1"
    and yield: "\<And>t s r s1. P s \<Longrightarrow> yield_line srv (token_line t) s = (r, s1) \<Longrightarrow> P s1"
  shows "P (snd rs)"
proof -
  have "srv' = srv \<longrightarrow> deadline' = deadline \<longrightarrow> P s' \<longrightarrow> P (snd rs')"
    if "consume srv' deadline' s' = Some rs'" for srv' deadline' s' rs'
  proof (rule consume.raw_induct [where P = "\<lambda>srv' deadline' s' rs'. srv' = srv \<longrightarrow>
        deadline' = deadline \<longrightarrow> P s' \<longrightarrow> P (snd rs')", OF _ that], intro impI)
    fix f :: "'a server \<Rightarrow> rat \<Rightarrow> 'a stream \<Rightarrow> ((exn + unit) \<times> 'a stream) option"
      and srv' deadline' s rs
    assume IH: "\<And>srv' deadline' s rs. f srv' deadline' s = Some rs \<Longrightarrow>
        srv' = srv \<longrightarrow> deadline' = deadline \<longrightarrow> P s \<longrightarrow> P (snd rs)"
      and eq: "(if deadline' - clock s \<le> 0 then Some (Inl stream_timeout, s)
        else case wait_for (sv_abandon srv') (sv_pull srv') (deadline' - clock s) s of
            (Inl e, s1) \<Rightarrow> Some (Inl e, s1)
          | (Inr None, s1) \<Rightarrow> Some (Inr (), s1)
          | (Inr (Some ev), s1) \<Rightarrow>
              (case token_text ev of
                 None \<Rightarrow> f srv' deadline' s1
               | Some t \<Rightarrow>
                   (case yield_line srv' (format_sse_event (build_token_event t)) s1 of
                      (Inl e, s2) \<Rightarrow> Some (Inl e, s2)
                    | (Inr u, s2) \<Rightarrow> f srv' deadline' s2))) = Some rs"
      and here: "srv' = srv" "deadline' = deadline" and P: "P s"
    show "P (snd rs)"
    proof (cases "deadline - clock s \<le> 0")
      case True
      with eq P here show ?thesis by auto
    next
      case False
      obtain r1 s1 where w: "wait_for (sv_abandon srv) (sv_pull srv) (deadline - clock s) s = (r1, s1)"
        by (cases "wait_for (sv_abandon srv) (sv_pull srv) (deadline - clock s) s")
      from pull [OF P _ w] False have P1: "P s1" by simp
      have yielded: "P s2" if "yield_line srv (format_sse_event (build_token_event t)) s1 = (r2, s2)" for t r2 s2
        using yield [OF P1, of t r2 s2] that by (simp add: token_line_def)
      have yielded': "P (snd (yield_line srv (format_sse_event (build_token_event t)) s1))" for t
        by (rule yielded) (rule surjective_pairing)
      have IH': "P (snd rs)" if "f srv deadline s = Some rs" "P s" for s rs
        using IH [OF that(1)] that(2) by blast
      from eq False w P1 show ?thesis unfolding here
        by (auto split: sum.splits option.splits prod.splits intro: IH' yielded yielded')
    qed
  qed
  with assms(1,2) show ?thesis by blast
qed

lemma consume_lines:
  assumes "consume srv deadline s = Some (r, s')"
  shows "(\<exists>ts. lines s' = lines s @ map token_line ts) \<and> stream_log s' = stream_log s"
proof -
  let ?P = "\<lambda>s1. (\<exists>ts. lines s1 = lines s @ map token_line ts) \<and> stream_log s1 = stream_log s"
  have "?P (snd (r, s'))"
  proof (rule consume_invariant [OF assms])
    show "?P s" by (intro conjI exI [of _ "[]"]) simp_all
  next
    fix s1 r1 s2
    assume "?P s1" "wait_for (sv_abandon srv) (sv_pull srv) (deadline - clock s1) s1 = (r1, s2)"
    then show "?P s2" using wait_for_frame(1,2) by metis
  next
    fix t s1 r1 s2
    assume P: "?P s1" and y: "yield_line srv (token_line t) s1 = (r1, s2)"
    from P obtain ts where "lines s1 = lines s @ map token_line ts" by blast
    with P yield_line_frame [OF y] show "?P s2"
      by (intro conjI exI [of _ "ts @ [t]"]) simp_all
  qed
  then show ?thesis by simp
qed

lemma finish_stream_cases:
  assumes "stops_by_base_exceptions srv" and "finish_stream srv deadline tid s = (r, s')"
  shows "stream_log s' = stream_log s \<and>
    ((\<exists>e. r = Inl e \<and> lines s' = lines s) \<or>
     (\<exists>ev \<in> done_events srv tid. lines s' = lines s @ [format_sse_event ev] \<and>
        (\<forall>e. r = Inl e \<longrightarrow> \<not> is_Exception e)))"
proof (cases "deadline - clock s \<le> 0")
  case True
  with assms(2) show ?thesis by (auto simp: finish_stream_def)
next
  case False
  obtain r1 s1 where w: "wait_for (sv_abandon srv) (sv_state srv) (deadline - clock s) s = (r1, s1)"
    by (cases "wait_for (sv_abandon srv) (sv_state srv) (deadline - clock s) s")
  show ?thesis
  proof (cases r1)
    case (Inl e)
    with w False assms(2) wait_for_frame(1,2) [OF w] show ?thesis
      by (auto simp: finish_stream_def bind_p_def)
  next
    case (Inr ms)
    let ?ev = "build_done_event tid (extract_final_text ms)"
    from Inr w False assms(2) have y: "yield_line srv (format_sse_event ?ev) s1 = (r, s')"
      by (simp add: finish_stream_def bind_p_def)
    from wait_for_frame(3) [OF w Inr] have "?ev \<in> done_events srv tid"
      unfolding done_events_def by blast
    with yield_line_frame [OF y] wait_for_frame(1,2) [OF w] stops_by_base_exceptionsD [OF assms(1)] y
    show ?thesis by auto
  qed
qed

lemma stream_body_cases:
  assumes "stops_by_base_exceptions srv" and "stream_body srv deadline tid s = Some (r, s')"
  shows "stream_log s' = stream_log s \<and> (\<exists>ts. (\<exists>e. r = Inl e \<and> lines s' = lines s @ map token_line ts) \<or>
     (\<exists>ev \<in> done_events srv tid. lines s' = lines s @ map token_line ts @ [format_sse_event ev] \<and>
        (\<forall>e. r = Inl e \<longrightarrow> \<not> is_Exception e)))"
proof -
  from assms(2) obtain r1 s1 where c: "consume srv deadline s = Some (r1, s1)"
    by (auto simp: stream_body_def split: option.splits prod.splits)
  from consume_lines [OF c] obtain ts where
    ts: "lines s1 = lines s @ map token_line ts" "stream_log s1 = stream_log s" by blast
  show ?thesis
  proof (cases r1)
    case (Inl e)
    with assms(2) c ts show ?thesis by (auto simp: stream_body_def)
  next
    case (Inr u)
    with assms(2) c have "finish_stream srv deadline tid s1 = (r, s')" by (simp add: stream_body_def)
    from finish_stream_cases [OF assms(1) this] ts show ?thesis
      by (intro conjI exI [of _ ts]) auto
  qed
qed

lemma stream_body_spans:
  assumes "stream_body srv deadline tid s = Some (r, s')"
  shows "spans s' = spans s"
proof -
  from assms obtain r1 s1 where c: "consume srv deadline s = Some (r1, s1)"
    by (auto simp: stream_body_def split: option.splits prod.splits)
  have "spans (snd (r1, s1)) = spans s"
    by (rule consume_invariant [OF c]) (auto dest: wait_for_frame(4) yield_line_frame(3))
  moreover have "spans s2 = spans s1" if "finish_stream srv deadline tid s1 = (r2, s2)" for r2 s2
    using that by (auto simp: finish_stream_def bind_p_def split: if_splits prod.splits sum.splits
        dest!: wait_for_frame(4) yield_line_frame(3))
  ultimately show ?thesis
    using assms c by (auto simp: stream_body_def split: sum.splits)
qed

definition stream_server ::
  "(update \<Rightarrow> run_config \<Rightarrow> 'w server) \<Rightarrow> (pystr \<Rightarrow> pystr) \<Rightarrow> pystr \<Rightarrow> pystr \<Rightarrow> pystr \<Rightarrow> 'w server" where
  "stream_server open_stream sha256_hex message tid uid =
     open_stream (initial_state message uid) (run_config_of sha256_hex tid uid)"

lemma open_span_simps [simp]:
  "clock (open_span n a s) = clock s" "outside (open_span n a s) = outside s"
  "lines (open_span n a s) = lines s" "stream_log (open_span n a s) = stream_log s"
  by (simp_all add: open_span_def)

lemma end_span_simps [simp]:
  "clock (end_span i s) = clock s" "outside (end_span i s) = outside s"
  "lines (end_span i s) = lines s" "stream_log (end_span i s) = stream_log s"
  by (simp_all add: end_span_def)

lemma in_span_eq_Some:
  "in_span n a block (ctx, s) = Some (r, (ctx', s')) \<longleftrightarrow>
     (\<exists>s1. block (ctx, open_span n a s) = Some (r, (ctx', s1)) \<and> s' = end_span (length (spans s)) s1)"
  by (auto simp: in_span_def)

abbreviation request_span :: "(pystr \<Rightarrow> pystr) \<Rightarrow> pystr \<Rightarrow> pystr \<Rightarrow> 'w stream \<Rightarrow> 'w stream" where
  "request_span sha256_hex tid uid \<equiv>
     open_span (py ''chat_request'') (request_attributes sha256_hex tid uid)"

lemma stream_parts:
  assumes "stream_chat_events open_stream sha256_hex span_id message tid uid tmo (ctx, s) = Some (r, (ctx', s'))"
  shows "\<exists>rs tr s1.
    stream_body (stream_server open_stream sha256_hex message tid uid) (clock s + tmo) tid
      (request_span sha256_hex tid uid s) = Some rs \<and>
    handle_failure (stream_server open_stream sha256_hex message tid uid) tid uid tr rs = (r, s1) \<and>
    s' = end_span (length (spans s)) s1 \<and>
    (case span_id of
       None \<Rightarrow> ctx' = ctx \<and> tr = ctx (py ''trace_id'')
     | Some n \<Rightarrow> ctx' = ctx(py ''trace_id'' := None) \<and> tr = Some (hex_pad 32 n))"
  using assms
  by (cases span_id)
    (auto simp: stream_chat_events_def stream_server_def in_span_eq_Some bind_trace_id_eq_Some
      guarded_body_eq_Some Let_def simp del: py_simps)

text \<open>What the consumer has received when the generator is left.\<close>

lemma stream_outcome:
  assumes "stops_by_base_exceptions (stream_server open_stream sha256_hex message tid uid)"
    and "stream_chat_events open_stream sha256_hex span_id message tid uid tmo (ctx, s) = Some (r, (ctx', s'))"
  shows "\<exists>ts final. lines s' = lines s @ map token_line ts @ final \<and>
    (final = [] \<or> (\<exists>ev \<in> done_events (stream_server open_stream sha256_hex message tid uid) tid \<union> error_events.
       final = [format_sse_event ev])) \<and>
    (r = Inr () \<longrightarrow> final \<noteq> []) \<and> (\<forall>e. r = Inl e \<longrightarrow> \<not> is_Exception e) \<and>
    (stream_log s' = stream_log s \<or>
     (\<exists>e tr. stream_log s' = stream_log s @ [(tid, uid, type_name e, tr)] \<and>
        final = [format_sse_event (build_error_event (classify_error e))]))"
proof -
  let ?srv = "stream_server open_stream sha256_hex message tid uid"
  let ?s = "request_span sha256_hex tid uid s"
  from stream_parts [OF assms(2)] obtain rs tr s2 where
    body: "stream_body ?srv (clock s + tmo) tid ?s = Some rs" and
    handled: "handle_failure ?srv tid uid tr rs = (r, s2)" and
    s': "s' = end_span (length (spans s)) s2" by blast
  have frame: "lines s' = lines s2" "stream_log s' = stream_log s2" by (simp_all add: s')
  obtain r1 s1 where rs: "rs = (r1, s1)" by (cases rs)
  from stream_body_cases [OF assms(1) body [unfolded rs]] obtain ts where
    log1: "stream_log s1 = stream_log s" and
    cases1: "(\<exists>e. r1 = Inl e \<and> lines s1 = lines s @ map token_line ts) \<or>
     (\<exists>ev \<in> done_events ?srv tid. lines s1 = lines s @ map token_line ts @ [format_sse_event ev] \<and>
        (\<forall>e. r1 = Inl e \<longrightarrow> \<not> is_Exception e))" by auto
  show ?thesis
  proof (cases "\<exists>e. r1 = Inl e \<and> is_Exception e")
    case True
    then obtain e where e: "r1 = Inl e" "is_Exception e" by blast
    let ?line = "format_sse_event (build_error_event (classify_error e))"
    from e cases1 have l1: "lines s1 = lines s @ map token_line ts" by auto
    from handled e rs have y: "yield_line ?srv ?line
        (s1\<lparr>stream_log := stream_log s1 @ [(tid, uid, type_name e, tr)]\<rparr>) = (r, s2)"
      by (simp add: handle_failure_def)
    from yield_line_frame [OF y] l1 log1 have
      "lines s2 = lines s @ map token_line ts @ [?line]"
      "stream_log s2 = stream_log s @ [(tid, uid, type_name e, tr)]" by simp_all
    moreover have "\<forall>e. r = Inl e \<longrightarrow> \<not> is_Exception e"
      using stops_by_base_exceptionsD [OF assms(1)] y by blast
    ultimately show ?thesis using classify_error_event [of e]
      by (intro exI [of _ ts] exI [of _ "[?line]"]) (auto simp: frame)
  next
    case False
    with handled rs have "r = r1" "s2 = s1"
      by (cases r1; auto simp: handle_failure_def)+
    with False log1 have
      end1: "\<And>e. r = Inl e \<Longrightarrow> \<not> is_Exception e" "stream_log s2 = stream_log s" by auto
    from cases1 consider e where "r = Inl e" "lines s2 = lines s @ map token_line ts"
      | ev where "ev \<in> done_events ?srv tid" "lines s2 = lines s @ map token_line ts @ [format_sse_event ev]"
      unfolding \<open>r = r1\<close> \<open>s2 = s1\<close> by blast
    then show ?thesis
    proof cases
      case 1
      with end1 show ?thesis by (intro exI [of _ ts] exI [of _ "[]"]) (auto simp: frame)
    next
      case 2
      with end1 show ?thesis by (intro exI [of _ ts] exI [of _ "[format_sse_event ev]"]) (auto simp: frame)
    qed
  qed
qed

section \<open>Properties\<close>

text \<open>C23. Every stream that ends has sent token lines followed by at most one terminal event, and
  nothing after it: a \<open>done\<close> event with the final text of the graph's state, or an \<open>error\<close> event
  with one of the three fixed messages, never the text of an exception. If the generator returns
  there is exactly one; only exceptions outside \<open>Exception\<close> leave it. An error is logged once,
  with the class of its exception.\<close>

theorem stream_ends_once:
  assumes "stops_by_base_exceptions (stream_server open_stream sha256_hex message tid uid)"
    and "stream_chat_events open_stream sha256_hex span_id message tid uid tmo (ctx, s) = Some (r, (ctx', s'))"
  shows "\<exists>ts final. lines s' = lines s @ map token_line ts @ final \<and>
    (final = [] \<or> (\<exists>ev \<in> done_events (stream_server open_stream sha256_hex message tid uid) tid \<union> error_events.
       final = [format_sse_event ev])) \<and>
    (r = Inr () \<longrightarrow> final \<noteq> []) \<and> (\<forall>e. r = Inl e \<longrightarrow> \<not> is_Exception e) \<and>
    (stream_log s' = stream_log s \<or>
     (\<exists>e tr. stream_log s' = stream_log s @ [(tid, uid, type_name e, tr)] \<and>
        final = [format_sse_event (build_error_event (classify_error e))]))"
  by (rule stream_outcome [OF assms])

text \<open>An example: one token, then the end of the events; the final state holds the answer.\<close>

definition example_server :: "nat server" where
  "example_server =
     \<lparr>sv_pull = (\<lambda>w. (1, (if w = 0 then Inr (Some \<lparr>ev_name = py ''on_chat_model_stream'',
          ev_content = Some (StrContent (py ''Bon''))\<rparr>) else Inr None), w + 1)),
      sv_state = (\<lambda>w. (1, Inr [HumanMessage (StrContent (py ''q'')), ai_text (py ''Bonjour'')], w)),
      sv_deliver = (\<lambda>line w. (0, None, w)), sv_abandon = (\<lambda>t w. w)\<rparr>"

definition example_stream :: "nat stream" where
  "example_stream = \<lparr>clock = 0, outside = 0, lines = [], stream_log = [], spans = []\<rparr>"

lemma example_base: "stops_by_base_exceptions example_server"
  by (simp add: stops_by_base_exceptions_def example_server_def)

lemma example_run:
  "stream_chat_events (\<lambda>_ _. example_server) (\<lambda>s. s) (Some 7) (py ''q'') (py ''t'') (py ''u'') 120
     (\<lambda>_. None, example_stream) =
   Some (Inr (), (\<lambda>_. None, \<lparr>clock = 3, outside = 2,
     lines = [token_line (py ''Bon''), format_sse_event (build_done_event (py ''t'') (py ''Bonjour''))],
     stream_log = [],
     spans = [\<lparr>sp_name = py ''chat_request'',
       sp_attributes = request_attributes (\<lambda>s. s) (py ''t'') (py ''u''), sp_ended = True\<rparr>]\<rparr>))"
proof -
  let ?s0 = "request_span (\<lambda>s. s) (py ''t'') (py ''u'') example_stream"
  let ?s1 = "?s0\<lparr>clock := 1, outside := 1, lines := [token_line (py ''Bon'')]\<rparr>"
  have "consume example_server 120 ?s0 = consume example_server 120 ?s1"
    by (subst consume.simps)
      (simp add: wait_for_def yield_line_def example_server_def example_stream_def open_span_def
        token_text_def token_line_def del: py_simps(2))
  moreover have "consume example_server 120 ?s1 = Some (Inr (), ?s1\<lparr>clock := 2, outside := 2\<rparr>)"
    by (subst consume.simps) (simp add: wait_for_def example_server_def del: py_simps(2))
  ultimately have "stream_body example_server 120 (py ''t'') ?s0 =
      Some (finish_stream example_server 120 (py ''t'') (?s1\<lparr>clock := 2, outside := 2\<rparr>))"
    by (simp add: stream_body_def del: py_simps)
  then show ?thesis
    by (simp add: stream_chat_events_def guarded_body_def in_span_def bind_trace_id_def handle_failure_def
        finish_stream_def bind_p_def wait_for_def yield_line_def example_server_def example_stream_def
        open_span_def end_span_def extract_final_text_def fun_eq_iff Let_def del: py_simps)
qed

theorem stream_ends_once_witness:
  "\<exists>ts final. [token_line (py ''Bon''), format_sse_event (build_done_event (py ''t'') (py ''Bonjour''))] =
       map token_line ts @ final \<and> final \<noteq> []"
proof -
  have "stops_by_base_exceptions (stream_server (\<lambda>_ _. example_server) (\<lambda>s. s) (py ''q'') (py ''t'') (py ''u''))"
    by (simp add: stream_server_def example_base)
  from stream_ends_once [OF this example_run] obtain ts final where
    "[token_line (py ''Bon''), format_sse_event (build_done_event (py ''t'') (py ''Bonjour''))] =
      lines example_stream @ map token_line ts @ final" "final \<noteq> []" by auto
  then show ?thesis by (auto simp: example_stream_def)
qed

lemma consume_ends_within:
  assumes "\<forall>w. \<delta> \<le> fst (sv_pull srv w)" and "\<forall>line w. 0 \<le> fst (sv_deliver srv line w)"
  shows "deadline - clock s \<le> of_nat n * \<delta> \<Longrightarrow> \<exists>rs. consume srv deadline s = Some rs"
proof (induction n arbitrary: s)
  case 0
  then show ?case by (subst consume.simps) simp
next
  case (Suc n)
  obtain d r w where pull: "sv_pull srv (outside s) = (d, r, w)"
    by (cases "sv_pull srv (outside s)")
  then have d: "\<delta> \<le> d" using assms(1) by (metis fst_conv)
  have next_ok: "\<exists>rs. consume srv deadline s1 = Some rs" if "clock s + d \<le> clock s1" for s1
    using Suc.prems d that by (intro Suc.IH) (simp add: algebra_simps)
  let ?s1 = "s\<lparr>clock := clock s + d, outside := w\<rparr>"
  show ?case
  proof (cases "deadline - clock s \<le> 0 \<or> d \<ge> deadline - clock s")
    case True
    with pull show ?thesis by (subst consume.simps) (auto simp: wait_for_def)
  next
    case False
    with pull have w: "wait_for (sv_abandon srv) (sv_pull srv) (deadline - clock s) s = (r, ?s1)"
      by (simp add: wait_for_def)
    have s1: "\<exists>rs. consume srv deadline ?s1 = Some rs" by (rule next_ok) simp
    have s2: "\<exists>rs. consume srv deadline s2 = Some rs" if "yield_line srv line ?s1 = (r2, s2)" for line r2 s2
    proof (rule next_ok)
      show "clock s + d \<le> clock s2"
        using that assms(2) [rule_format, of line w] by (auto simp: yield_line_def split: prod.splits)
    qed
    from False w s1 show ?thesis
      by (subst consume.simps) (auto split: sum.splits option.splits prod.splits dest: s2)
  qed
qed

lemma guarded_body_ends:
  assumes "\<exists>rs. consume srv deadline (snd cs) = Some rs"
  shows "\<exists>r cs'. guarded_body srv deadline tid uid cs = Some (r, cs')"
proof -
  from assms obtain r1 s1 where "consume srv deadline (snd cs) = Some (r1, s1)" by auto
  then have "\<exists>rs. stream_body srv deadline tid (snd cs) = Some rs"
    by (cases r1) (simp_all add: stream_body_def)
  then show ?thesis by (auto simp: guarded_body_def split: prod.split)
qed

text \<open>C30. Termination: if every step of the graph takes at least some positive time, and the consumer
  no negative one, the generator ends, for every timeout; no chain of events, however long, keeps
  a stream open past its deadline.\<close>

theorem stream_terminates:
  assumes "0 < \<delta>"
    and "\<forall>w. \<delta> \<le> fst (sv_pull (stream_server open_stream sha256_hex message tid uid) w)"
    and "\<forall>line w. 0 \<le> fst (sv_deliver (stream_server open_stream sha256_hex message tid uid) line w)"
  shows "\<exists>r cs'. stream_chat_events open_stream sha256_hex span_id message tid uid tmo cs = Some (r, cs')"
proof -
  let ?srv = "stream_server open_stream sha256_hex message tid uid"
  have body: "\<exists>r cs'. guarded_body ?srv deadline tid uid cs = Some (r, cs')" for deadline cs
  proof (rule guarded_body_ends)
    obtain n where "deadline - clock (snd cs) \<le> of_nat n * \<delta>"
      using assms(1) ex_less_of_nat_mult less_imp_le by metis
    then show "\<exists>rs. consume ?srv deadline (snd cs) = Some rs" by (rule consume_ends_within [OF assms(2,3)])
  qed
  obtain ctx s where cs: "cs = (ctx, s)" by (cases cs)
  from body [of "clock s + tmo" "(case span_id of None \<Rightarrow> ctx | Some n \<Rightarrow> ctx(py ''trace_id'' \<mapsto> hex_pad 32 n),
      request_span sha256_hex tid uid s)"] show ?thesis
    by (cases span_id)
      (auto simp: cs stream_chat_events_def stream_server_def in_span_def bind_trace_id_def Let_def
        simp del: py_simps)
qed

theorem stream_terminates_witness:
  "\<exists>r cs'. stream_chat_events (\<lambda>_ _. example_server) (\<lambda>s. s) None (py ''q'') (py ''t'') (py ''u'') 120
     (\<lambda>_. None, example_stream) = Some (r, cs')"
  by (rule stream_terminates [of 1]) (simp_all add: stream_server_def example_server_def)

text \<open>Deadline: with a consumer that takes no time, a stream is over when its timeout is, however
  long its steps would have taken.\<close>

theorem stream_within_deadline:
  assumes "stream_chat_events open_stream sha256_hex span_id message tid uid tmo (ctx, s) = Some (r, (ctx', s'))"
    and "\<forall>line w. fst (sv_deliver (stream_server open_stream sha256_hex message tid uid) line w) = 0"
  shows "clock s' \<le> max (clock s) (clock s + tmo)"
proof -
  let ?srv = "stream_server open_stream sha256_hex message tid uid"
  let ?dl = "clock s + tmo"
  let ?s = "request_span sha256_hex tid uid s"
  from stream_parts [OF assms(1)] obtain rs tr s3 where
    body: "stream_body ?srv ?dl tid ?s = Some rs" and
    handled: "handle_failure ?srv tid uid tr rs = (r, s3)" and
    s': "s' = end_span (length (spans s)) s3" by blast
  have yield: "clock s2 = clock s1" if "yield_line ?srv line s1 = (r1, s2)" for line s1 r1 s2
    using that assms(2) [rule_format, of line "outside s1"] by (auto simp: yield_line_def split: prod.splits)
  have wait: "clock s2 \<le> ?dl" if "wait_for ab op (?dl - clock s1) s1 = (r1, s2)"
    for ab :: "rat \<Rightarrow> 'a \<Rightarrow> 'a" and op :: "'a \<Rightarrow> rat \<times> (exn + 'b) \<times> 'a" and s1 r1 s2
    using that by (auto simp: wait_for_def split: prod.splits if_splits)
  from body obtain r1 s1 where c: "consume ?srv ?dl ?s = Some (r1, s1)"
    by (auto simp: stream_body_def split: option.splits prod.splits)
  have "clock (snd (r1, s1)) \<le> max (clock s) ?dl"
    by (rule consume_invariant [OF c]) (auto dest: yield wait)
  moreover have "clock s2 \<le> max (clock s) ?dl"
    if "finish_stream ?srv ?dl tid s1 = (r2, s2)" "clock s1 \<le> max (clock s) ?dl" for r2 s2
    using that wait yield
    by (auto simp: finish_stream_def bind_p_def split: if_splits prod.splits sum.splits) fastforce+
  ultimately have "clock (snd (finish_stream ?srv ?dl tid s1)) \<le> max (clock s) ?dl"
    by (metis prod.collapse snd_conv)
  with \<open>clock (snd (r1, s1)) \<le> max (clock s) ?dl\<close> have "clock (snd rs) \<le> max (clock s) ?dl"
    using body c by (auto simp: stream_body_def split: sum.splits)
  with handled show ?thesis unfolding s' end_span_simps
    by (auto simp: handle_failure_def split: sum.splits if_splits prod.splits dest: yield)
qed

theorem stream_within_deadline_witness:
  "\<exists>r cs'. stream_chat_events (\<lambda>_ _. example_server) (\<lambda>s. s) (Some 7) (py ''q'') (py ''t'') (py ''u'') 120
     (\<lambda>_. None, example_stream) = Some (r, cs') \<and> clock (snd cs') \<le> 120"
proof -
  have "\<forall>line w. fst (sv_deliver (stream_server (\<lambda>_ _. example_server) (\<lambda>s. s) (py ''q'') (py ''t'')
      (py ''u'')) line w) = 0"
    by (simp add: stream_server_def example_server_def)
  from stream_within_deadline [OF example_run this] example_run show ?thesis
    by (simp add: example_stream_def)
qed

text \<open>C34. Correlation: the request has one span, opened before anything else with the user, the thread
  and the version and hash of the prompt, and ended however the generator ends. With a valid span its
  trace id is in structlog's context while the stream runs, so that the error log of the stream
  carries it in its 32 hexadecimal digits, and it is out of the context when the generator ends;
  without one the context is left alone.\<close>

theorem trace_id_is_scoped:
  assumes "stops_by_base_exceptions (stream_server open_stream sha256_hex message tid uid)"
    and "stream_chat_events open_stream sha256_hex span_id message tid uid tmo (ctx, s) = Some (r, (ctx', s'))"
  shows "spans s' = spans s @ [\<lparr>sp_name = py ''chat_request'',
      sp_attributes = [(py ''user_id'', uid), (py ''thread_id'', tid), (py ''prompt.version'', PROMPT_VERSION),
        (py ''prompt.hash'', system_prompt_hash sha256_hex SYSTEM_PROMPT)], sp_ended = True\<rparr>] \<and>
    ctx' = (case span_id of None \<Rightarrow> ctx | Some n \<Rightarrow> ctx(py ''trace_id'' := None)) \<and>
    (\<forall>entry \<in> set (drop (length (stream_log s)) (stream_log s')).
       snd (snd (snd entry)) = (case span_id of None \<Rightarrow> ctx (py ''trace_id'') | Some n \<Rightarrow> Some (hex_pad 32 n)))"
proof -
  let ?srv = "stream_server open_stream sha256_hex message tid uid"
  let ?s = "request_span sha256_hex tid uid s"
  from stream_parts [OF assms(2)] obtain rs tr s2 where
    body: "stream_body ?srv (clock s + tmo) tid ?s = Some rs" and
    handled: "handle_failure ?srv tid uid tr rs = (r, s2)" and
    s': "s' = end_span (length (spans s)) s2" and
    tr: "case span_id of None \<Rightarrow> ctx' = ctx \<and> tr = ctx (py ''trace_id'')
      | Some n \<Rightarrow> ctx' = ctx(py ''trace_id'' := None) \<and> tr = Some (hex_pad 32 n)" by blast
  obtain r1 s1 where rs: "rs = (r1, s1)" by (cases rs)
  from stream_body_cases [OF assms(1) body [unfolded rs]] have "stream_log s1 = stream_log s" by simp
  with handled rs have "set (drop (length (stream_log s)) (stream_log s')) \<subseteq> {(tid, uid, n, tr) | n. True}"
    by (auto simp: s' handle_failure_def split: sum.splits if_splits dest: yield_line_frame(2))
  moreover have "spans s2 = spans ?s"
    using stream_body_spans [OF body [unfolded rs]] handled rs
    by (auto simp: handle_failure_def split: sum.splits if_splits dest: yield_line_frame(3))
  then have "spans s' = spans s @ [\<lparr>sp_name = py ''chat_request'',
      sp_attributes = request_attributes sha256_hex tid uid, sp_ended = True\<rparr>]"
    by (simp add: s' end_span_def open_span_def nth_append list_update_append del: py_simps)
  ultimately show ?thesis using tr unfolding request_attributes_def by (cases span_id) auto
qed

text \<open>An example of a graph that fails at its first step.\<close>

definition failing_server :: "nat server" where
  "failing_server = example_server\<lparr>sv_pull := (\<lambda>w. (1, (Inl (ValueError (py ''secret'')), w)))\<rparr>"

lemma failing_run:
  "stream_chat_events (\<lambda>_ _. failing_server) (\<lambda>s. s) (Some 7) (py ''q'') (py ''t'') (py ''u'') 120
     (\<lambda>_. None, example_stream) =
   Some (Inr (), (\<lambda>_. None, \<lparr>clock = 1, outside = 0,
     lines = [format_sse_event (build_error_event INTERNAL_ERROR_MESSAGE)],
     stream_log = [(py ''t'', py ''u'', py ''ValueError'', Some (hex_pad 32 7))],
     spans = [\<lparr>sp_name = py ''chat_request'',
       sp_attributes = request_attributes (\<lambda>s. s) (py ''t'') (py ''u''), sp_ended = True\<rparr>]\<rparr>))"
proof -
  let ?s0 = "request_span (\<lambda>s. s) (py ''t'') (py ''u'') example_stream"
  have "consume failing_server 120 ?s0 = Some (Inl (ValueError (py ''secret'')), ?s0\<lparr>clock := 1\<rparr>)"
    by (subst consume.simps)
      (simp add: wait_for_def failing_server_def example_stream_def open_span_def del: py_simps(2))
  then have "stream_body failing_server 120 (py ''t'') ?s0 =
      Some (Inl (ValueError (py ''secret'')), ?s0\<lparr>clock := 1\<rparr>)"
    by (simp add: stream_body_def del: py_simps)
  then show ?thesis
    by (simp add: stream_chat_events_def guarded_body_def in_span_def bind_trace_id_def handle_failure_def
        yield_line_def failing_server_def example_server_def example_stream_def open_span_def end_span_def
        fun_eq_iff Let_def eval_nat_numeral(3) del: py_simps(2))
qed

theorem trace_id_is_scoped_witness:
  "\<exists>s'. stream_chat_events (\<lambda>_ _. failing_server) (\<lambda>s. s) (Some 7) (py ''q'') (py ''t'') (py ''u'') 120
       (\<lambda>_. None, example_stream) = Some (Inr (), (\<lambda>_. None, s')) \<and> stream_log s' \<noteq> [] \<and>
     (\<forall>entry \<in> set (stream_log s'). snd (snd (snd entry)) = Some (hex_pad 32 7))"
proof -
  have "stops_by_base_exceptions (stream_server (\<lambda>_ _. failing_server) (\<lambda>s. s) (py ''q'') (py ''t'') (py ''u''))"
    by (simp add: stream_server_def failing_server_def example_server_def stops_by_base_exceptions_def)
  from trace_id_is_scoped [OF this failing_run] failing_run show ?thesis
    by (simp add: example_stream_def del: hex_pad.simps)
qed

section \<open>Thread identifiers\<close>

lemma replace_all_absent: "old \<noteq> [] \<Longrightarrow> hd old \<notin> set s \<Longrightarrow> replace_all old new s = s"
proof (induction s)
  case Nil
  show ?case by (simp add: replace_all.simps)
next
  case (Cons c s)
  then have "\<not> startswith (c # s) old" by (cases old) auto
  with Cons show ?case by (subst replace_all.simps) simp
qed

lemma replace_all_char: "replace_all [c] [] s = filter (\<lambda>x. x \<noteq> c) s"
proof (induction s)
  case Nil
  show ?case by (simp add: replace_all.simps)
next
  case (Cons x s)
  then show ?case by (subst replace_all.simps) simp
qed

lemma strip_chars_absent: "set cs \<inter> set s = {} \<Longrightarrow> strip_chars cs s = s"
proof -
  assume "set cs \<inter> set s = {}"
  then have "\<forall>c \<in> set s. c \<notin> set cs" by auto
  then have "dropWhile (\<lambda>c. c \<in> set cs) s = s" "dropWhile (\<lambda>c. c \<in> set cs) (rev s) = rev s"
    by (simp_all add: dropWhile_none)
  then show ?thesis by (simp add: strip_chars_def)
qed

text \<open>The characters of hexadecimal digits as they are printed.\<close>

definition hex_char :: "pychar \<Rightarrow> bool" where
  "hex_char c \<longleftrightarrow> (48 \<le> c \<and> c \<le> 57) \<or> (97 \<le> c \<and> c \<le> 102)"

lemma hex_pad_chars: "c \<in> set (hex_pad n k) \<Longrightarrow> hex_char c"
proof (induction n arbitrary: k)
  case (Suc n)
  have "hex_char (hex_digit (k mod 16))"
    using pos_mod_bound [of 16 k] pos_mod_sign [of 16 k] by (auto simp: hex_char_def hex_digit_def)
  with Suc show ?case by auto
qed simp

lemma digits16_foldl:
  "(\<forall>c \<in> set s. c \<noteq> 95 \<and> digit16 U c \<noteq> None) \<Longrightarrow> ok \<or> s \<noteq> [] \<Longrightarrow>
     digits16 U acc ok s = Some (foldl (\<lambda>a c. 16 * a + the (digit16 U c)) acc s)"
  by (induction s arbitrary: acc ok) (auto split: option.split)

lemma uuid_text_chars: "c \<in> set (uuid_text n) \<Longrightarrow> c = 45 \<or> hex_char c"
  by (auto simp: uuid_text_def Let_def dest!: in_set_takeD in_set_dropD hex_pad_chars)

lemma split_8_4_4_4:
  "take 8 h @ take 4 (drop 8 h) @ take 4 (drop 12 h) @ take 4 (drop 16 h) @ drop 20 h = h"
proof -
  have "take 4 (drop 16 h) @ drop 20 h = drop 16 h" using append_take_drop_id [of 4 "drop 16 h"] by simp
  moreover have "take 4 (drop 12 h) @ drop 16 h = drop 12 h" using append_take_drop_id [of 4 "drop 12 h"] by simp
  moreover have "take 4 (drop 8 h) @ drop 12 h = drop 8 h" using append_take_drop_id [of 4 "drop 8 h"] by simp
  ultimately show ?thesis by simp
qed

lemma uuid_text_digits: "filter (\<lambda>x. x \<noteq> 45) (uuid_text n) = hex_pad 32 n"
proof -
  have "filter (\<lambda>x. x \<noteq> 45) s = s" if "set s \<subseteq> set (hex_pad 32 n)" for s
  proof (rule filter_True)
    show "\<forall>x \<in> set s. x \<noteq> 45" using that hex_pad_chars by (fastforce simp: hex_char_def)
  qed
  note keep = this
  have sub: "set (take i (drop j (hex_pad 32 n))) \<subseteq> set (hex_pad 32 n)" for i j
    by (meson in_set_dropD in_set_takeD subsetI)
  show ?thesis
    using keep [OF sub [of 8 0]] keep [OF sub [of 4 8]] keep [OF sub [of 4 12]] keep [OF sub [of 4 16]]
      keep [OF set_drop_subset [of 20]] split_8_4_4_4 [of "hex_pad 32 n"]
    by (simp add: uuid_text_def Let_def del: hex_pad.simps)
qed

context unicode_db
begin

lemma digit16_hex_digit: "0 \<le> d \<Longrightarrow> d < 16 \<Longrightarrow> digit16 U (hex_digit d) = Some d"
  using hex_value_digit [of d] decimal_ascii [of "hex_digit d"]
  by (auto simp: digit16_def hex_digit_def is_ascii_def ascii_digit_def)

lemma foldl_hex_pad:
  "foldl (\<lambda>a c. 16 * a + the (digit16 U c)) acc (hex_pad n k) = 16 ^ n * acc + k mod 16 ^ n"
proof (induction n arbitrary: k)
  case (Suc n)
  have "k mod (16 * 16 ^ n) = 16 * (k div 16 mod 16 ^ n) + k mod 16"
    by (simp add: zmod_zmult2_eq)
  then show ?case by (simp add: Suc digit16_hex_digit distrib_left)
qed simp

lemma hex_char_digit16: "hex_char c \<Longrightarrow> digit16 U c \<noteq> None \<and> c \<noteq> 95 \<and> \<not> is_space c"
  using decimal_ascii [of c]
  by (auto simp: digit16_def hex_char_def hex_value_def is_ascii_def ascii_digit_def is_space_def)

lemma int16_hex_pad: "int16 U (hex_pad (Suc n) k) = Some (k mod 16 ^ Suc n)"
proof -
  let ?h = "hex_pad (Suc n) k"
  have ch: "\<forall>c \<in> set ?h. hex_char c" using hex_pad_chars by blast
  have "\<forall>c \<in> set ?h. \<not> is_space c" using ch hex_char_digit16 by blast
  then have strip: "py_strip ?h = ?h" by (rule py_strip_no_space)
  obtain c r where h: "?h = c # r" by (cases ?h) auto
  have "hex_char c" using ch unfolding h by simp
  then have c: "c \<noteq> 45" "c \<noteq> 43" by (auto simp: hex_char_def)
  have "?h ! 1 \<notin> {120, 88}" if "length ?h \<ge> 2"
    using that ch nth_mem [of 1 ?h] by (fastforce simp: hex_char_def)
  then have "unprefixed16 U ?h = digits16 U 0 False ?h"
    unfolding unprefixed16_def by auto
  also have "\<dots> = Some (k mod 16 ^ Suc n)"
    using digits16_foldl [of ?h U False 0] ch hex_char_digit16 foldl_hex_pad [of 0 "Suc n" k] h
    by auto
  finally show ?thesis using strip c h by (simp add: int16_def del: hex_pad.simps)
qed

lemma uuid_of_text:
  assumes "0 \<le> n" and "n < 2 ^ 128"
  shows "uuid_of U (uuid_text n) = Inr n"
proof -
  let ?t = "uuid_text n"
  have no: "c \<notin> set ?t" if "c > 102" for c
    using uuid_text_chars that by (fastforce simp: hex_char_def)
  have "replace_all (py ''urn:'') [] ?t = ?t" "replace_all (py ''uuid:'') [] ?t = ?t"
    using no [of 117] by (simp_all add: replace_all_absent)
  moreover have "strip_chars (py ''{}'') ?t = ?t"
    using no [of 123] no [of 125] by (simp add: strip_chars_absent)
  moreover have "replace_all (py ''-'') [] ?t = hex_pad 32 n"
    using replace_all_char [of 45 ?t] uuid_text_digits [of n] by simp
  moreover have "int16 U (hex_pad 32 n) = Some n"
    using int16_hex_pad [of 31 n] assms by simp
  ultimately show ?thesis
    using assms by (simp add: uuid_of_def Let_def del: hex_pad.simps py_simps)
qed

end

text \<open>Thread ids round-trip: the id the endpoint generates for a new thread, sent back in a later
  request, is read as the same UUID and passes validation unchanged.\<close>

theorem generated_thread_id_accepted:
  assumes "unicode_db U" and "0 \<le> n" and "n < 2 ^ 128" and "cr_message body \<noteq> []"
  shows "uuid_of U (uuid_text n) = Inr n \<and>
    validate_request U (body\<lparr>cr_thread_id := Some (uuid_text n)\<rparr>) =
      Inr (body\<lparr>cr_thread_id := Some (uuid_text n)\<rparr>)"
  using unicode_db.uuid_of_text [OF assms(1-3)] assms(4)
  by (simp add: validate_request_def thread_id_must_be_a_valid_uuid_def)

theorem generated_thread_id_accepted_witness:
  "uuid_of latin1_db (uuid_text 42) = Inr 42"
  using generated_thread_id_accepted [OF latin1.unicode_db_axioms, of 42
      "\<lparr>cr_message = py ''q'', cr_thread_id = None, cr_user_id = None\<rparr>"] by simp

end
