(* ===== verification/Threads.thy ===== *)
theory Threads
  imports Chat
begin

text \<open>
  A conversation thread over its life: the turns \<open>POST /v1/chat\<close> makes on one checkpoint.

  \<open>thread_run\<close> takes every turn to its end. \<open>thread_life\<close> follows a thread superstep by superstep
  and lets a turn be given up between any two of them, as the stream does when its time is over or
  its consumer goes away. The lemmas show what holds at every moment of such a life.
\<close>

section \<open>A thread over its life\<close>

text \<open>
  The messages a thread receives, one \<open>POST /v1/chat\<close> each: every turn invokes the graph with the
  input \<open>initial_state\<close> builds, on the state the checkpointer kept from the turn before (also from a
  turn that failed).
\<close>

fun thread_run ::
  "('w graph \<Rightarrow> update \<Rightarrow> ('w thread, agent_state) prog) \<Rightarrow> 'w graph \<Rightarrow> (pystr \<times> pystr) list \<Rightarrow>
     'w thread \<Rightarrow> (exn + agent_state) list \<times> 'w thread" where
  "thread_run invoke g [] t = ([], t)"
| "thread_run invoke g ((message, uid) # turns) t =
     (case invoke g (initial_state message uid) t of (r, t1) \<Rightarrow>
       (case thread_run invoke g turns t1 of (rs, t2) \<Rightarrow> (r # rs, t2)))"

fun is_tool_result :: "message \<Rightarrow> bool" where
  "is_tool_result (ToolMessage c i) = True"
| "is_tool_result m = False"

definition tool_results :: "message list \<Rightarrow> nat" where
  "tool_results ms = length (filter is_tool_result ms)"

lemma tool_results_simps [simp]:
  "tool_results [] = 0"
  "tool_results (m # ms) = (if is_tool_result m then 1 else 0) + tool_results ms"
  "tool_results (xs @ ys) = tool_results xs + tool_results ys"
  by (simp_all add: tool_results_def)

text \<open>A model that makes at most \<open>k\<close> calls in a message.\<close>

definition calls_at_most :: "nat \<Rightarrow> message \<Rightarrow> bool" where
  "calls_at_most k m \<longleftrightarrow> is_ai m \<and> length (tool_calls m) \<le> k"

lemma is_ai_not_tool_result: "is_ai m \<Longrightarrow> \<not> is_tool_result m"
  by (cases m) simp_all

lemma ai_text_not_tool_result [simp]: "\<not> is_tool_result (ai_text s)"
  by (rule is_ai_not_tool_result) simp

lemma answers_calls_results: "answers_calls calls res \<Longrightarrow> tool_results res \<le> length calls"
  unfolding answers_calls_def tool_results_def
  by (metis length_filter_le list_all2_lengthD)

lemma agent_turn_results:
  "agent_turn (calls_at_most k) answers_calls fails r n ms e \<Longrightarrow> tool_results ms \<le> k * n"
proof (induction rule: agent_turn.induct)
  case (tools m r res n ms e)
  then have "tool_results res \<le> k" using answers_calls_results by (fastforce simp: calls_at_most_def)
  with tools show ?case by (simp add: calls_at_most_def is_ai_not_tool_result)
qed (simp_all add: calls_at_most_def is_ai_not_tool_result)

lemma initial_state_applied:
  assumes "langgraph invoke limit add tc"
  shows "messages (apply_update add (initial_state message uid) st) =
      messages st @ [HumanMessage (StrContent message)]"
    and "rounds (apply_update add (initial_state message uid) st) = rounds st"
  using langgraph.add_messages [OF assms]
  by (simp_all add: apply_update_def initial_state_def no_update_def rounds_def split: option.split)

lemma latest_text_applied:
  "langgraph invoke limit add tc \<Longrightarrow>
    latest_text (messages (apply_update add (initial_state message uid) st)) = message"
  by (simp add: initial_state_applied latest_text_def)

text \<open>What one more turn can add to the thread.\<close>

definition within_budget :: "nat \<Rightarrow> agent_state \<Rightarrow> bool" where
  "within_budget k st \<longleftrightarrow> 0 \<le> rounds st \<and> rounds st \<le> MAX_TOOL_ROUNDS \<and>
     int (tool_results (messages st)) \<le> int k * rounds st"

lemma turn_within_budget:
  assumes lang: "langgraph invoke limit add tc" and "13 \<le> limit"
    and parts: "agent_parts (calls_at_most k) answers_calls fails llm tn"
    and st: "within_budget k st"
    and run: "invoke (agent_graph U tc tn llm) (initial_state message uid) (st, w) = (r, (st', w'))"
  shows "within_budget k st'"
proof -
  let ?inp = "initial_state message uid"
  note app = initial_state_applied [OF lang, of message uid st]
  have st0: "within_budget k (apply_update add ?inp st)"
    using st by (simp add: within_budget_def app)
  show ?thesis
  proof (cases "run_input_guardrails U (latest_text (messages (apply_update add ?inp st))) MAX_INPUT_LENGTH")
    case (Inl e)
    from langgraph.invoke_raises [OF lang Inl, of tn llm w] run assms(2) st0 show ?thesis by simp
  next
    case (Inr verdict)
    show ?thesis
    proof (cases "gr_ok verdict")
      case False
      from langgraph.invoke_blocked [OF lang Inr False, of tn llm w] run assms(2)
      have "st' = (apply_update add ?inp st)\<lparr>messages := messages (apply_update add ?inp st) @
          [ai_text REFUSAL_MESSAGE_FR], input_flags := gr_flags verdict\<rparr>" by (simp add: Let_def)
      with st0 show ?thesis by (simp add: within_budget_def rounds_def)
    next
      case True
      have "2 * nat (MAX_TOOL_ROUNDS - rounds (apply_update add ?inp st)) + 3 \<le> limit"
        using conjunct1 [OF st0 [unfolded within_budget_def]] assms(2) by (simp add: MAX_TOOL_ROUNDS_def)
      from langgraph.invoke_agent [OF lang Inr True parts this, of w] run obtain n ms e where
        turn: "agent_turn (calls_at_most k) answers_calls fails (rounds (apply_update add ?inp st)) n ms e" and
        st': "messages st' = messages (apply_update add ?inp st) @ ms"
          "rounds st' = rounds (apply_update add ?inp st) + int n" by auto
      from agent_turn_results [OF turn] have "int (tool_results ms) \<le> int k * int n"
        by (metis of_nat_le_iff of_nat_mult)
      with st0 st' agent_turn_rounds [OF turn] show ?thesis
        by (auto simp: within_budget_def distrib_left)
    qed
  qed
qed

lemma thread_within_budget:
  assumes "langgraph invoke limit add tc" and "13 \<le> limit"
    and "agent_parts (calls_at_most k) answers_calls fails llm tn"
  shows "within_budget k st \<Longrightarrow>
    thread_run invoke (agent_graph U tc tn llm) turns (st, w) = (rs, (st', w')) \<Longrightarrow> within_budget k st'"
proof (induction turns arbitrary: st w rs)
  case (Cons turn turns)
  obtain message uid where turn: "turn = (message, uid)" by force
  obtain r st1 w1 where 1: "invoke (agent_graph U tc tn llm) (initial_state message uid) (st, w) = (r, (st1, w1))"
    by (metis prod.collapse)
  from Cons.IH [OF turn_within_budget [OF assms Cons.prems(1) 1], of w1] Cons.prems(2) show ?case
    by (auto simp: turn 1 split: prod.splits)
qed simp

section \<open>Superstep by superstep\<close>

text \<open>
  A thread at rest, with what its checkpoint holds, or in the middle of a turn. A turn starts from
  the checkpoint, at the entry of the graph, whatever the turn before was doing; it may be given up
  between any two supersteps, and the supersteps it committed stay. While a thread is at rest the
  world goes on.
\<close>

datatype 'w life = Quiet agent_state 'w | Active "'w run"

fun run_channels :: "'w run \<Rightarrow> agent_state" where
  "run_channels (Running n st w) = st"
| "run_channels (Raised e st w) = st"

fun life_channels :: "'w life \<Rightarrow> agent_state" where
  "life_channels (Quiet st w) = st"
| "life_channels (Active c) = run_channels c"

inductive life_step :: "add_messages \<Rightarrow> 'w graph \<Rightarrow> 'w life \<Rightarrow> 'w life \<Rightarrow> bool" for add g where
  turn: "life_step add g (Quiet st w)
    (Active (Running (g_entry g) (apply_update add (initial_state message uid) st) w))"
| advance: "superstep add g c c' \<Longrightarrow> life_step add g (Active c) (Active c')"
| stop: "life_step add g (Active c) (Quiet (run_channels c) w)"

definition thread_life :: "add_messages \<Rightarrow> 'w graph \<Rightarrow> 'w life \<Rightarrow> bool" where
  "thread_life add g l \<longleftrightarrow> (\<exists>w. (life_step add g)\<^sup>*\<^sup>* (Quiet empty_channels w) l)"

lemma thread_life_born: "thread_life add g (Quiet empty_channels w)"
  by (auto simp: thread_life_def)

lemma thread_life_step: "thread_life add g l \<Longrightarrow> life_step add g l l' \<Longrightarrow> thread_life add g l'"
  by (auto simp: thread_life_def intro: rtranclp.rtrancl_into_rtrancl)

lemma thread_life_induct [consumes 1, case_names born step]:
  assumes "thread_life add g l" and "\<And>w. P (Quiet empty_channels w)"
    and "\<And>l l'. P l \<Longrightarrow> life_step add g l l' \<Longrightarrow> P l'"
  shows "P l"
proof -
  from assms(1) obtain w where "(life_step add g)\<^sup>*\<^sup>* (Quiet empty_channels w) l"
    by (auto simp: thread_life_def)
  then show ?thesis by (induction rule: rtranclp_induct) (use assms(2,3) in blast)+
qed

fun is_system :: "message \<Rightarrow> bool" where
  "is_system (SystemMessage c) = True"
| "is_system m = False"

fun is_human :: "message \<Rightarrow> bool" where
  "is_human (HumanMessage c) = True"
| "is_human m = False"

text \<open>The channels between two supersteps.\<close>

definition channels_ok :: "nat \<Rightarrow> agent_state \<Rightarrow> bool" where
  "channels_ok k st \<longleftrightarrow> within_budget k st \<and>
     (\<forall>m \<in> set (messages st). \<not> is_system m) \<and>
     (messages st \<noteq> [] \<longrightarrow> is_human (hd (messages st))) \<and>
     (\<forall>f \<in> set (input_flags st). startswith f BLOCKED_FLAG_PREFIX \<or> startswith f PII_FLAG_PREFIX)"

text \<open>What a node is entered with.\<close>

definition entered_well :: "nat \<Rightarrow> pystr \<Rightarrow> agent_state \<Rightarrow> bool" where
  "entered_well k n st \<longleftrightarrow> n = END \<or> messages st \<noteq> [] \<and>
     (n = GUARD_INPUT \<and> is_human (last (messages st)) \<or>
      \<not> has_blocked_flag (input_flags st) \<and>
        (n = AGENT \<and> \<not> is_ai (last (messages st)) \<or>
         n = TOOLS_NODE \<and> calls_at_most k (last (messages st)) \<and>
           tool_calls (last (messages st)) \<noteq> [] \<and> rounds st < MAX_TOOL_ROUNDS \<or>
         n = BUDGET_EXCEEDED \<and> tool_calls (last (messages st)) \<noteq> [] \<and> rounds st = MAX_TOOL_ROUNDS))"

fun run_ok :: "nat \<Rightarrow> (exn \<Rightarrow> bool) \<Rightarrow> 'w run \<Rightarrow> bool" where
  "run_ok k fails (Running n st w) = (channels_ok k st \<and> entered_well k n st)"
| "run_ok k fails (Raised e st w) = (channels_ok k st \<and> fails e)"

fun life_ok :: "nat \<Rightarrow> (exn \<Rightarrow> bool) \<Rightarrow> 'w life \<Rightarrow> bool" where
  "life_ok k fails (Quiet st w) = channels_ok k st"
| "life_ok k fails (Active c) = run_ok k fails c"

lemma run_ok_channels: "run_ok k fails c \<Longrightarrow> channels_ok k (run_channels c)"
  by (cases c) simp_all

lemma ai_kinds: "is_ai m \<Longrightarrow> \<not> is_system m \<and> \<not> is_human m \<and> \<not> is_tool_result m"
  by (cases m) simp_all

lemma run_input_guardrails_flag_forms:
  assumes "run_input_guardrails U inp n = Inr r"
  shows "\<forall>f \<in> set (gr_flags r). startswith f BLOCKED_FLAG_PREFIX \<or> startswith f PII_FLAG_PREFIX"
proof (cases "check_pii U inp")
  case (Inr p)
  with assms show ?thesis
    by (cases "refusal_of U inp n"; cases "cr_reason p")
      (auto simp: run_input_guardrails_eq)
qed (use assms in \<open>simp add: run_input_guardrails_eq\<close>)

lemma answers_calls_kinds:
  "answers_calls calls res \<Longrightarrow> m \<in> set res \<Longrightarrow> \<not> is_system m \<and> \<not> is_ai m"
  unfolding answers_calls_def
  by (induction rule: list_all2_induct) (auto split: message.splits)

lemma channels_ok_append:
  assumes "channels_ok k st" and "messages st \<noteq> []" and "messages st' = messages st @ ms"
    and "input_flags st' = input_flags st" and "rounds st' = rounds st + int n"
    and "rounds st' \<le> MAX_TOOL_ROUNDS" and "tool_results ms \<le> k * n" and "\<forall>m \<in> set ms. \<not> is_system m"
  shows "channels_ok k st'"
proof -
  have "int (tool_results ms) \<le> int k * int n"
    using assms(7) by (metis of_nat_le_iff of_nat_mult)
  with assms show ?thesis by (auto simp: channels_ok_def within_budget_def distrib_left)
qed

lemma initial_state_flags:
  "input_flags (apply_update add (initial_state message uid) st) = []"
  by (simp add: apply_update_def initial_state_def no_update_def)

text \<open>
  From a well-formed configuration that has not reached the end, the graph can take a step, and
  the configuration after it is well-formed again.
\<close>

text \<open>The exceptions the guard node may raise.\<close>

definition guard_raises :: "unidb \<Rightarrow> (exn \<Rightarrow> bool) \<Rightarrow> bool" where
  "guard_raises U fails \<longleftrightarrow>
     (\<forall>t e. run_input_guardrails U t MAX_INPUT_LENGTH = Inl e \<longrightarrow> fails e)"

lemma run_progress:
  assumes lang: "langgraph invoke limit add tc"
    and parts: "agent_parts (calls_at_most k) answers_calls fails llm tn"
    and guard: "guard_raises U fails"
    and ok: "channels_ok k st" "entered_well k n st" and "n \<noteq> END"
  shows "\<exists>c. superstep add (agent_graph U tc tn llm) (Running n st w) c \<and> run_ok k fails c"
proof -
  let ?g = "agent_graph U tc tn llm"
  note grow = channels_ok_append [OF ok(1)]
  have ne: "messages st \<noteq> []" and r: "0 \<le> rounds st" "rounds st \<le> MAX_TOOL_ROUNDS"
    using ok \<open>n \<noteq> END\<close> by (auto simp: entered_well_def channels_ok_def within_budget_def)
  from ok(2) \<open>n \<noteq> END\<close> consider (entry) "n = GUARD_INPUT"
    | (agent) "n = AGENT" "\<not> has_blocked_flag (input_flags st)"
    | (tools) "n = TOOLS_NODE" "\<not> has_blocked_flag (input_flags st)" "rounds st < MAX_TOOL_ROUNDS"
        "calls_at_most k (last (messages st))" "tool_calls (last (messages st)) \<noteq> []"
    | (budget) "n = BUDGET_EXCEEDED" by (auto simp: entered_well_def)
  then show ?thesis
  proof cases
    case entry
    show ?thesis
    proof (cases "run_input_guardrails U (latest_text (messages st)) MAX_INPUT_LENGTH")
      case (Inl e)
      with langgraph.guard_step_raises [OF lang Inl, of tn llm w] ok(1) \<open>n = GUARD_INPUT\<close> guard show ?thesis
        by (auto simp: guard_raises_def)
    next
      case (Inr res)
      let ?st = "st\<lparr>messages := messages st @ (if gr_ok res then [] else [ai_text REFUSAL_MESSAGE_FR]),
          input_flags := gr_flags res\<rparr>"
      have "channels_ok k ?st" and "gr_ok res \<longrightarrow> entered_well k AGENT ?st"
        using ok ne entry run_input_guardrails_flag_forms [OF Inr] run_input_guardrails_flags(1) [OF Inr]
        by (auto simp: channels_ok_def within_budget_def entered_well_def rounds_def ai_kinds)
      with langgraph.guard_step [OF lang Inr, of tn llm w] entry show ?thesis
        by (intro exI) (auto simp: entered_well_def)
    qed
  next
    case agent
    obtain rm w1 where llm: "llm (agent_request st) w = (rm, w1)" by fastforce
    show ?thesis
    proof (cases rm)
      case (Inl e)
      with langgraph.agent_step_fails [OF lang, of llm st w e w1 U tn] llm agent ok(1)
        agent_partsD(2) [OF parts] show ?thesis by fastforce
    next
      case (Inr m)
      have m: "calls_at_most k m" using agent_partsD(1) [OF parts] llm Inr by blast
      have "channels_ok k (st\<lparr>messages := messages st @ [m]\<rparr>)"
        by (rule grow [OF ne, of _ "[m]" 0]) (use m r in \<open>simp_all add: rounds_def calls_at_most_def ai_kinds\<close>)
      with langgraph.agent_step [OF lang, of llm st w m w1 U tn] llm Inr agent m r show ?thesis
        by (intro exI conjI) (auto simp: entered_well_def rounds_def)
    qed
  next
    case tools
    obtain rt w1 where tn: "tn st w = (rt, w1)" by fastforce
    show ?thesis
    proof (cases rt)
      case (Inl e)
      with langgraph.tools_step_fails [OF lang, of tn st w e w1 U llm] tn tools ok(1)
        agent_partsD(4) [OF parts ne] show ?thesis by fastforce
    next
      case (Inr res)
      have res: "answers_calls (tool_calls (last (messages st))) res"
        using agent_partsD(3) [OF parts ne] tn Inr by blast
      let ?st = "st\<lparr>messages := messages st @ res, tool_rounds := Some (rounds st + 1)\<rparr>"
      have "res \<noteq> []" using res tools(5) by (auto simp: answers_calls_def)
      moreover have "tool_results res \<le> k"
        using answers_calls_results [OF res] tools(4) by (simp add: calls_at_most_def)
      then have "channels_ok k ?st"
        by (intro grow [OF ne, of _ res 1])
          (use answers_calls_kinds [OF res] tools(3) in \<open>simp_all add: rounds_def\<close>)
      ultimately show ?thesis
        using langgraph.tools_step [OF lang, of tn st w res w1 U llm] tn Inr tools(1,2)
          answers_calls_kinds [OF res, of "last res"]
        by (intro exI conjI) (auto simp: entered_well_def)
    qed
  next
    case budget
    have "channels_ok k (st\<lparr>messages := messages st @ [ai_text BUDGET_EXCEEDED_MESSAGE_FR]\<rparr>)"
      by (rule grow [OF ne, of _ "[ai_text BUDGET_EXCEEDED_MESSAGE_FR]" 0])
        (use r in \<open>simp_all add: rounds_def ai_kinds\<close>)
    with langgraph.budget_step [OF lang, of U tn llm st w] budget show ?thesis
      by (intro exI conjI) (auto simp: entered_well_def)
  qed
qed


lemma agent_parts_weaken:
  assumes "agent_parts says answers fails llm tn" and "\<And>e. fails e \<Longrightarrow> fails' e"
  shows "agent_parts says answers fails' llm tn"
proof -
  have "case llm x w of (Inr m, w') \<Rightarrow> says m | (Inl e, w') \<Rightarrow> fails' e" for x w
    using agent_partsD(1,2) [OF assms(1)] assms(2)
    by (cases "llm x w"; cases "fst (llm x w)") auto
  moreover have "case tn st w of (Inr res, w') \<Rightarrow> answers (tool_calls (last (messages st))) res
      | (Inl e, w') \<Rightarrow> fails' e" if "messages st \<noteq> []" for st w
    using agent_partsD(3,4) [OF assms(1) that] assms(2)
    by (cases "tn st w"; cases "fst (tn st w)") auto
  ultimately show ?thesis by (simp add: agent_parts_def)
qed

lemma guard_failure:
  "unicode_db U \<Longrightarrow> guard_raises U (\<lambda>e. fails e \<or> e = int_value_error)"
  using unicode_db.check_pii_error_iff
  by (auto simp: guard_raises_def run_input_guardrails_eq bindE_eq_Inl_iff)

lemma life_step_ok:
  assumes lang: "langgraph invoke limit add tc"
    and parts: "agent_parts (calls_at_most k) answers_calls fails llm tn"
    and guard: "guard_raises U fails"
    and "life_step add (agent_graph U tc tn llm) l l'" and "life_ok k fails l"
  shows "life_ok k fails l'"
  using assms(4,5)
proof (cases rule: life_step.cases)
  case (turn st w message uid)
  with assms(5) initial_state_applied [OF lang, of message uid st] show ?thesis
    by (auto simp: channels_ok_def within_budget_def entered_well_def agent_graph_nodes
        initial_state_flags hd_append)
next
  case (advance c c')
  then obtain n st w where c: "c = Running n st w" "n \<noteq> END"
    by (auto elim: superstep.cases)
  with advance assms(5) have "channels_ok k st" "entered_well k n st" by simp_all
  from run_progress [where w = w, OF lang parts guard this c(2)] advance(3) [unfolded c] advance(2)
  show ?thesis by (auto dest: superstep_deterministic)
next
  case (stop c w)
  with assms(5) run_ok_channels show ?thesis by fastforce
qed

lemma thread_life_invariant:
  assumes "langgraph invoke limit add tc" and "unicode_db U"
    and parts: "agent_parts (calls_at_most k) answers_calls fails llm tn"
    and "thread_life add (agent_graph U tc tn llm) l"
  shows "life_ok k (\<lambda>e. fails e \<or> e = int_value_error) l"
  using assms(4)
proof (induction rule: thread_life_induct)
  case born
  show ?case by (simp add: channels_ok_def within_budget_def empty_channels_def rounds_def MAX_TOOL_ROUNDS_def)
next
  case (step l l')
  have "agent_parts (calls_at_most k) answers_calls (\<lambda>e. fails e \<or> e = int_value_error) llm tn"
    by (rule agent_parts_weaken [OF parts]) simp
  from life_step_ok [OF assms(1) this guard_failure [OF assms(2)] step(2,1)] show ?case .
qed

lemma admitted_step:
  assumes "langgraph invoke limit add tc"
    and "run_input_guardrails U message MAX_INPUT_LENGTH = Inr r" and "gr_ok r"
  shows "superstep add (agent_graph U tc tn llm)
    (Running (g_entry (agent_graph U tc tn llm)) (apply_update add (initial_state message uid) st) w)
    (Running AGENT ((apply_update add (initial_state message uid) st)\<lparr>input_flags := gr_flags r\<rparr>) w)"
  using langgraph.guard_step [OF assms(1), of U "apply_update add (initial_state message uid) st" r tn llm w]
    assms(2,3)
  by (simp add: latest_text_applied [OF assms(1)] agent_graph_nodes)

text \<open>What a user says next does not answer a call.\<close>

lemma all_answered_human:
  "all_answered (xs @ HumanMessage c # ys) \<longleftrightarrow> all_answered xs \<and> all_answered ys"
proof (induction xs)
  case (Cons m xs)
  show ?case
  proof (cases "length (tool_calls m) \<le> length xs")
    case True
    with Cons show ?thesis by auto
  next
    case False
    let ?k = "length (tool_calls m)"
    from False have "HumanMessage c = take ?k (xs @ HumanMessage c # ys) ! length xs" by (simp add: nth_append)
    then have "\<not> answers_calls (tool_calls m) (take ?k (xs @ HumanMessage c # ys))"
      using False by (auto simp: answers_calls_def list_all2_conv_all_nth intro!: exI [of _ "length xs"])
    moreover have "\<not> answers_calls (tool_calls m) (take ?k xs)"
      using False answers_calls_length by fastforce
    ultimately show ?thesis by simp
  qed
qed simp

lemma superstep_extends:
  assumes "langgraph invoke limit add tc" and "superstep add g c c'"
  shows "\<exists>ms. messages (run_channels c') = messages (run_channels c) @ ms"
  using assms(2)
  by cases (auto simp: apply_update_def langgraph.add_messages [OF assms(1)] split: option.split)

lemma life_extends:
  assumes lang: "langgraph invoke limit add tc" and "(life_step add g)\<^sup>*\<^sup>* (Quiet st w) l"
  shows "(\<exists>w'. l = Quiet (life_channels l) w') \<and> messages (life_channels l) = messages st \<or>
    (\<exists>c ms. messages (life_channels l) = messages st @ HumanMessage c # ms)"
  using assms(2)
proof (induction rule: rtranclp_induct)
  case (step l l')
  from step(2) show ?case
  proof cases
    case (turn st2 w2 message uid)
    with step.IH initial_state_applied(1) [OF lang] show ?thesis by auto
  next
    case (advance c c')
    with step.IH superstep_extends [OF lang advance(3)] show ?thesis by auto
  next
    case (stop c w2)
    with step.IH show ?thesis by auto
  qed
qed simp

text \<open>An example: the model of \<open>insisting_model\<close> has asked for a tool on a new thread.\<close>

abbreviation insisting_graph :: "nat graph" where
  "insisting_graph \<equiv> agent_graph latin1_db tools_condition_ref example_tools insisting_model"

lemma insisting_parts: "agent_parts (calls_at_most 1) answers_calls (\<lambda>_. False) insisting_model example_tools"
  by (simp add: agent_parts_def insisting_model_def example_tools_def answers_calls_def calls_at_most_def
      list_all2_map2 list_all2_same)

lemma example_verdicts:
  obtains r r' where "run_input_guardrails latin1_db (py ''bonjour'') MAX_INPUT_LENGTH = Inr r" "gr_ok r"
    and "run_input_guardrails latin1_db (py ''jailbreak'') MAX_INPUT_LENGTH = Inr r'" "\<not> gr_ok r'"
proof -
  have "case run_input_guardrails latin1_db (py ''bonjour'') MAX_INPUT_LENGTH of
      Inl e \<Rightarrow> False | Inr r \<Rightarrow> gr_ok r" by code_simp
  moreover have "case run_input_guardrails latin1_db (py ''jailbreak'') MAX_INPUT_LENGTH of
      Inl e \<Rightarrow> False | Inr r \<Rightarrow> \<not> gr_ok r" by code_simp
  ultimately show thesis using that by (blast dest: sum_case_Inr)
qed

lemma insisting_at_tools: "\<exists>st. thread_life (@) insisting_graph (Active (Running TOOLS_NODE st 1))"
proof -
  obtain r where r: "run_input_guardrails latin1_db (py ''bonjour'') MAX_INPUT_LENGTH = Inr r" "gr_ok r"
    by (rule example_verdicts)
  let ?st0 = "apply_update (@) (initial_state (py ''bonjour'') (py ''u'')) empty_channels"
  let ?st1 = "?st0\<lparr>input_flags := gr_flags r\<rparr>"
  have at_agent: "thread_life (@) insisting_graph (Active (Running AGENT ?st1 0))"
    by (rule thread_life_step [OF thread_life_step [OF thread_life_born life_step.turn]
          life_step.advance [OF admitted_step [OF lg.langgraph_axioms [of 25] r]]])
  have "\<not> MAX_TOOL_ROUNDS \<le> rounds ?st1"
    by (simp add: rounds_def MAX_TOOL_ROUNDS_def apply_update_def initial_state_def no_update_def empty_channels_def)
  with lg.agent_step [where llm = insisting_model and st = ?st1 and w = 0 and w' = 1 and U = latin1_db
      and tn = example_tools]
  have "\<exists>st2. superstep (@) insisting_graph (Running AGENT ?st1 0) (Running TOOLS_NODE st2 1)"
    by (auto simp: insisting_model_def)
  with at_agent show ?thesis by (blast intro: thread_life_step life_step.advance)
qed

section \<open>Properties\<close>

text \<open>C13. Well-formed threads: whatever the turns of a thread are, and wherever they are given up, the
  tool-round counter stays between 0 and \<open>MAX_TOOL_ROUNDS\<close> and the checkpoint holds at most \<open>k\<close> tool
  results per round when the model makes at most \<open>k\<close> calls at a time; the system prompt is never
  stored, the first message is a user's, every flag has one of the two prefixes; the agent and the
  tools are entered only without a blocking flag, the tools only with calls to answer and rounds
  left, the budget node only with the rounds used up. No such configuration is stuck: until its
  end is reached a turn can take a step, and it fails only by an exception of the model, of the
  tools or of the guard's \<open>int\<close>.\<close>

theorem thread_life_well_formed:
  assumes "langgraph invoke limit add tc" and "unicode_db U"
    and "agent_parts (calls_at_most k) answers_calls fails llm tn"
    and "thread_life add (agent_graph U tc tn llm) l"
  shows "life_ok k (\<lambda>e. fails e \<or> e = int_value_error) l \<and>
    (\<forall>n st w. l = Active (Running n st w) \<longrightarrow> n \<noteq> END \<longrightarrow>
      (\<exists>c. superstep add (agent_graph U tc tn llm) (Running n st w) c))"
proof (intro conjI allI impI)
  show ok: "life_ok k (\<lambda>e. fails e \<or> e = int_value_error) l"
    by (rule thread_life_invariant [OF assms])
  fix n st w assume l: "l = Active (Running n st w)" "n \<noteq> END"
  have "agent_parts (calls_at_most k) answers_calls (\<lambda>e. fails e \<or> e = int_value_error) llm tn"
    by (rule agent_parts_weaken [OF assms(3)]) simp
  from run_progress [OF assms(1) this guard_failure [OF assms(2)] _ _ l(2)] ok l
  show "\<exists>c. superstep add (agent_graph U tc tn llm) (Running n st w) c" by auto
qed


theorem thread_life_well_formed_witness:
  "\<exists>st. thread_life (@) insisting_graph (Active (Running TOOLS_NODE st 1)) \<and>
     channels_ok 1 st \<and> calls_at_most 1 (last (messages st)) \<and> tool_calls (last (messages st)) \<noteq> [] \<and>
     (\<exists>c. superstep (@) insisting_graph (Running TOOLS_NODE st 1) c)"
proof -
  from insisting_at_tools obtain st where
    st: "thread_life (@) insisting_graph (Active (Running TOOLS_NODE st 1))" by blast
  from thread_life_well_formed [OF lg.langgraph_axioms [of 25] latin1.unicode_db_axioms insisting_parts st] st
  show ?thesis by (intro exI [of _ st]) (simp add: entered_well_def)
qed


text \<open>C14. A turn that is given up between the agent and the tools, or fails in the tools, leaves the calls
  of its last message unanswered for good: whatever the turns after it do, the thread never has
  all its tool calls answered again, since the next message in it is the user's.\<close>

theorem abandoned_calls_stay_unanswered:
  assumes "langgraph invoke limit add tc" and "unicode_db U"
    and "agent_parts (calls_at_most k) answers_calls fails llm tn"
    and "thread_life add (agent_graph U tc tn llm) (Active (Running TOOLS_NODE st w))"
    and "(life_step add (agent_graph U tc tn llm))\<^sup>*\<^sup>* (Quiet st w') l"
  shows "\<not> all_answered (messages (life_channels l))"
proof -
  from thread_life_invariant [OF assms(1-4)] have "messages st \<noteq> []" "tool_calls (last (messages st)) \<noteq> []"
    by (simp_all add: entered_well_def)
  then have "\<not> all_answered [last (messages st)]" by (auto simp: answers_calls_def)
  with \<open>messages st \<noteq> []\<close> have "\<not> all_answered (messages st)"
    using all_answered_suffix by (metis append_butlast_last_id)
  with life_extends [OF assms(1,5)] show ?thesis by (auto simp: all_answered_human)
qed

theorem abandoned_calls_stay_unanswered_witness:
  "\<exists>st st'. (life_step (@) insisting_graph)\<^sup>*\<^sup>* (Quiet st 1)
       (Active (Running GUARD_INPUT st' (1::nat))) \<and>
     latest_text (messages st') = py ''encore'' \<and> \<not> all_answered (messages st')"
proof -
  from insisting_at_tools obtain st where
    st: "thread_life (@) insisting_graph (Active (Running TOOLS_NODE st 1))" by blast
  let ?st' = "apply_update (@) (initial_state (py ''encore'') (py ''u'')) st"
  have later: "(life_step (@) insisting_graph)\<^sup>*\<^sup>* (Quiet st 1) (Active (Running GUARD_INPUT ?st' 1))"
    using life_step.turn [of "(@)" insisting_graph st 1 "py ''encore''" "py ''u''"]
    by (simp only: agent_graph_nodes r_into_rtranclp)
  from abandoned_calls_stay_unanswered [OF lg.langgraph_axioms [of 25] latin1.unicode_db_axioms
      insisting_parts st later] later
  show ?thesis
    by (intro exI [of _ st] exI [of _ ?st'])
      (simp add: latest_text_applied [OF lg.langgraph_axioms [of 25]])
qed

text \<open>C15. A message the guardrails refuse stays in the thread, and the guardrails look at the latest
  message only: the turn that refuses it leaves the model alone, but in the next admitted turn the
  request to the model is the system prompt and the whole history, the refused message included.\<close>

theorem refused_message_reaches_next_request:
  assumes "langgraph invoke limit add tc" and "1 \<le> limit"
    and "run_input_guardrails U refused MAX_INPUT_LENGTH = Inr r" and "\<not> gr_ok r"
    and "run_input_guardrails U message MAX_INPUT_LENGTH = Inr r'" and "gr_ok r'"
  shows "\<exists>st1 st2.
    invoke (agent_graph U tc tn llm) (initial_state refused uid) (st, w) = (Inr st1, (st1, w)) \<and>
    superstep add (agent_graph U tc tn llm)
      (Running GUARD_INPUT (apply_update add (initial_state message uid) st1) w) (Running AGENT st2 w) \<and>
    agent_request st2 = SequenceInput (map Msg (SystemMessage (StrContent SYSTEM_PROMPT) # messages st @
      [HumanMessage (StrContent refused), ai_text REFUSAL_MESSAGE_FR, HumanMessage (StrContent message)]))"
proof -
  let ?g = "agent_graph U tc tn llm"
  have "run_input_guardrails U (latest_text (messages (apply_update add (initial_state refused uid) st)))
      MAX_INPUT_LENGTH = Inr r"
    using assms(3) by (simp add: latest_text_applied [OF assms(1)])
  from langgraph.invoke_blocked [OF assms(1) this assms(4,2), of tn llm w] obtain st1 where
    inv: "invoke ?g (initial_state refused uid) (st, w) = (Inr st1, (st1, w))" and
    st1: "messages st1 = messages st @ [HumanMessage (StrContent refused), ai_text REFUSAL_MESSAGE_FR]"
    by (auto simp: Let_def initial_state_applied(1) [OF assms(1)])
  from inv st1 admitted_step [OF assms(1,5,6), of tn llm uid st1 w] show ?thesis
    by (auto simp: agent_graph_nodes agent_request_def initial_state_applied(1) [OF assms(1)])
qed


theorem refused_message_reaches_next_request_witness:
  "\<exists>st1 st2. superstep (@) insisting_graph
      (Running GUARD_INPUT (apply_update (@) (initial_state (py ''bonjour'') (py ''u'')) st1) 0)
      (Running AGENT st2 0) \<and>
    agent_request st2 = SequenceInput (map Msg [SystemMessage (StrContent SYSTEM_PROMPT),
      HumanMessage (StrContent (py ''jailbreak'')), ai_text REFUSAL_MESSAGE_FR,
      HumanMessage (StrContent (py ''bonjour''))])"
proof -
  obtain r r' where ok: "run_input_guardrails latin1_db (py ''bonjour'') MAX_INPUT_LENGTH = Inr r" "gr_ok r"
    and no: "run_input_guardrails latin1_db (py ''jailbreak'') MAX_INPUT_LENGTH = Inr r'" "\<not> gr_ok r'"
    by (rule example_verdicts)
  from refused_message_reaches_next_request [OF lg.langgraph_axioms [of 25] _ no ok,
      of example_tools insisting_model "py ''u''" empty_channels 0]
  show ?thesis by (auto simp: empty_channels_def)
qed

end
