(* ===== verification/Tools.thy ===== *)
theory Tools
  imports SearchAids Threads
begin

text \<open>
  The search tool behind the graph's \<open>ToolNode\<close>: which calls it answers with what, and what the tool
  messages of a thread are worth.

  \<open>ToolNode\<close> is LangGraph's. What its documentation promises is the locale \<open>tool_executor\<close>: it runs
  the calls of the last message, each as a unit and in any order, and gives one \<open>ToolMessage\<close> per
  call, in the order of the calls: the rendered result, or a text about the exception it handled.
  \<open>tool_node_ref\<close> is a node with this contract.
\<close>

section \<open>A call of the tool\<close>

text \<open>
  The tools registered are \<open>TOOLS\<close>. \<open>parse\<close> is pydantic on the arguments the model wrote (types and
  required fields); the bound of the schema is \<open>validate_search_args\<close>.
\<close>

definition run_tool ::
  "unidb \<Rightarrow> 'w corpus_reader \<Rightarrow> pystr \<Rightarrow> (pystr \<Rightarrow> exn + search_args) \<Rightarrow> tool_call \<Rightarrow>
     (corpus_cache \<times> 'w, aid_result list) prog" where
  "run_tool U read default_path parse call =
     (if tc_name call \<notin> set TOOLS then raise_p (OtherException (py ''InvalidTool'') (tc_name call))
      else case parse (tc_args call) of
          Inl e \<Rightarrow> raise_p e
        | Inr args \<Rightarrow> search_aids U read default_path args)"

text \<open>Any number of calls, one after the other.\<close>

definition after_calls :: "(tool_call \<Rightarrow> ('s, 'a) prog) \<Rightarrow> 's \<Rightarrow> 's \<Rightarrow> bool" where
  "after_calls run = (\<lambda>s s'. \<exists>call r. run call s = (r, s'))\<^sup>*\<^sup>*"

definition tool_answer ::
  "(aid_result list \<Rightarrow> pystr) \<Rightarrow> (tool_call \<Rightarrow> exn \<Rightarrow> pystr) \<Rightarrow> tool_call \<Rightarrow> exn + aid_result list \<Rightarrow> message" where
  "tool_answer render error_text call r =
     ToolMessage (StrContent (case r of Inl e \<Rightarrow> error_text call e | Inr rows \<Rightarrow> render rows)) (tc_id call)"

locale tool_executor =
  fixes node :: "agent_state \<Rightarrow> ('s, message list) prog"
    and run :: "tool_call \<Rightarrow> ('s, aid_result list) prog"
    and render :: "aid_result list \<Rightarrow> pystr"
    and error_text :: "tool_call \<Rightarrow> exn \<Rightarrow> pystr"
  assumes answers: "messages st \<noteq> [] \<Longrightarrow> node st s = (Inr res, s') \<Longrightarrow>
      list_all2 (\<lambda>call m. \<exists>s1 r s2. after_calls run s s1 \<and> run call s1 = (r, s2) \<and>
        m = tool_answer render error_text call r) (tool_calls (last (messages st))) res"
    and effects: "node st s = (r, s') \<Longrightarrow> after_calls run s s'"

text \<open>A node with this contract: the calls in their order, every exception of an \<open>Exception\<close> handled.\<close>

fun run_calls ::
  "(tool_call \<Rightarrow> ('s, aid_result list) prog) \<Rightarrow> (aid_result list \<Rightarrow> pystr) \<Rightarrow> (tool_call \<Rightarrow> exn \<Rightarrow> pystr) \<Rightarrow>
     tool_call list \<Rightarrow> ('s, message list) prog" where
  "run_calls run render error_text [] s = (Inr [], s)"
| "run_calls run render error_text (call # calls) s =
     (case run call s of (r, s1) \<Rightarrow>
       if (case r of Inl e \<Rightarrow> \<not> is_Exception e | Inr rows \<Rightarrow> False) then (Inl (projl r), s1)
       else bind_p (run_calls run render error_text calls)
         (\<lambda>ms. return_p (tool_answer render error_text call r # ms)) s1)"

definition tool_node_ref ::
  "(tool_call \<Rightarrow> ('s, aid_result list) prog) \<Rightarrow> (aid_result list \<Rightarrow> pystr) \<Rightarrow> (tool_call \<Rightarrow> exn \<Rightarrow> pystr) \<Rightarrow>
     agent_state \<Rightarrow> ('s, message list) prog" where
  "tool_node_ref run render error_text st =
     (if messages st = [] then raise_p (ValueError (py ''No message found in input''))
      else run_calls run render error_text (tool_calls (last (messages st))))"

lemma after_calls_refl [simp]: "after_calls run s s"
  by (simp add: after_calls_def)

lemma after_calls_step: "run call s = (r, s1) \<Longrightarrow> after_calls run s1 s2 \<Longrightarrow> after_calls run s s2"
  unfolding after_calls_def by (rule converse_rtranclp_into_rtranclp) blast+

lemma run_calls_contract:
  "run_calls run render error_text calls s = (r, s') \<Longrightarrow> after_calls run s s' \<and>
    (\<forall>res. r = Inr res \<longrightarrow> list_all2 (\<lambda>call m. \<exists>s1 r s2. after_calls run s s1 \<and>
      run call s1 = (r, s2) \<and> m = tool_answer render error_text call r) calls res)"
proof (induction calls arbitrary: s r s')
  case (Cons call calls)
  obtain r1 s1 where c: "run call s = (r1, s1)" by fastforce
  obtain r2 s2 where rest: "run_calls run render error_text calls s1 = (r2, s2)" by fastforce
  have later: "after_calls run s s3" if "after_calls run s1 s3" for s3
    using c that by (rule after_calls_step)
  show ?case
  proof (cases "\<exists>e. r1 = Inl e \<and> \<not> is_Exception e")
    case True
    with c Cons.prems later [OF after_calls_refl] show ?thesis by auto
  next
    case False
    then have r: "(r, s') = (case r2 of Inl e \<Rightarrow> Inl e
        | Inr ms \<Rightarrow> Inr (tool_answer render error_text call r1 # ms), s2)"
      using c rest Cons.prems
      by (cases r2) (auto simp: bind_p_def return_p_def split: sum.splits)
    from Cons.IH [OF rest] have IH: "after_calls run s1 s2" and
      ms: "\<And>ms. r2 = Inr ms \<Longrightarrow> list_all2 (\<lambda>call m. \<exists>s' r s2. after_calls run s1 s' \<and>
        run call s' = (r, s2) \<and> m = tool_answer render error_text call r) calls ms" by auto
    have "list_all2 (\<lambda>call m. \<exists>s' r s2. after_calls run s s' \<and>
        run call s' = (r, s2) \<and> m = tool_answer render error_text call r) calls ms" if "r2 = Inr ms" for ms
      using ms [OF that] by (rule list_all2_mono) (blast intro: later)
    with c r IH show ?thesis
      by (cases r2) (auto intro: later exI [of _ s])
  qed
qed simp

interpretation ref_node: tool_executor "tool_node_ref run render error_text" run render error_text
  for run render error_text
proof (unfold_locales, goal_cases)
  case (1 st s res s')
  then show ?case
    using run_calls_contract [of run render error_text "tool_calls (last (messages st))" s "Inr res" s']
    by (simp add: tool_node_ref_def)
next
  case (2 st s r s')
  then show ?case
    using run_calls_contract [of run render error_text "tool_calls (last (messages st))" s r s']
    by (auto simp: tool_node_ref_def raise_p_def split: if_splits)
qed


section \<open>The corpus\<close>

text \<open>The file holds \<open>corpus\<close>, and so does the cache of \<open>_load_corpus\<close> if it holds anything.\<close>

definition file_holds :: "'w corpus_reader \<Rightarrow> pystr \<Rightarrow> aid_record list \<Rightarrow> bool" where
  "file_holds read default_path corpus \<longleftrightarrow> (\<forall>w c w'. read default_path w = (Inr c, w') \<longrightarrow> c = corpus)"

definition cache_holds :: "'c \<Rightarrow> 'c cache \<times> 'w \<Rightarrow> bool" where
  "cache_holds corpus s \<longleftrightarrow> fst s \<in> {None, Some (None, corpus)}"

lemma file_holdsD: "file_holds read path corpus \<Longrightarrow> read path w = (Inr c, w') \<Longrightarrow> c = corpus"
  by (auto simp: file_holds_def)

lemma load_corpus_holds:
  assumes "file_holds read default_path corpus" and "cache_holds corpus s"
    and "load_corpus read default_path None s = (r, s')"
  shows "cache_holds corpus s' \<and> (\<forall>c. r = Inr c \<longrightarrow> c = corpus)"
  using assms
  by (cases s)
    (auto simp: load_corpus_def cache_holds_def split: prod.splits sum.splits dest!: file_holdsD [OF assms(1)])

text \<open>What the answer to a call may be.\<close>

definition search_answer ::
  "unidb \<Rightarrow> (pystr \<Rightarrow> exn + search_args) \<Rightarrow> aid_record list \<Rightarrow> tool_call \<Rightarrow> exn + aid_result list \<Rightarrow> bool" where
  "search_answer U parse corpus call r \<longleftrightarrow>
     (case r of
        Inl e \<Rightarrow> True
      | Inr rows \<Rightarrow> tc_name call = py ''search_aids'' \<and>
          (\<exists>args. parse (tc_args call) = Inr args \<and> sa_query args \<noteq> [] \<and>
             rows = search_aids_corpus U (sa_query args) (sa_category args) corpus))"

lemma run_tool_answer:
  assumes "file_holds read default_path corpus" and "cache_holds corpus s"
    and "run_tool U read default_path parse call s = (r, s')"
  shows "cache_holds corpus s' \<and> search_answer U parse corpus call r"
proof (cases "tc_name call \<in> set TOOLS \<and> (\<exists>args. parse (tc_args call) = Inr args \<and> sa_query args \<noteq> [])")
  case True
  then obtain args where args: "parse (tc_args call) = Inr args" "sa_query args \<noteq> []" by blast
  obtain r1 s1 where load: "load_corpus read default_path None s = (r1, s1)"
    by (cases "load_corpus read default_path None s")
  have name: "tc_name call = py ''search_aids''" using True by (simp add: TOOLS_def del: py_simps)
  have valid: "validate_search_args args = Inr args"
    using args(2) by (cases "sa_query args") (simp_all add: validate_search_args_def)
  from True args(1) valid have "run_tool U read default_path parse call s =
      bind_p (load_corpus read default_path None) (\<lambda>corpus.
        return_p (search_aids_corpus U (sa_query args) (sa_category args) corpus)) s"
    by (simp add: run_tool_def search_aids_def)
  with assms(3) load_corpus_holds [OF assms(1,2) load] load args name show ?thesis
    by (cases r1) (auto simp: bind_p_def return_p_def search_answer_def)
next
  case False
  with assms(2,3) show ?thesis
    by (auto simp: run_tool_def search_aids_def validate_search_args_def raise_p_def search_answer_def
        split: if_splits sum.splits)
qed

lemma after_calls_holds:
  assumes "file_holds read default_path corpus"
    and "after_calls (run_tool U read default_path parse) s s'" and "cache_holds corpus s"
  shows "cache_holds corpus s'"
  using assms(2,3) unfolding after_calls_def
  by (induction rule: rtranclp_induct) (auto dest: run_tool_answer [OF assms(1)])

text \<open>
  Every tool message of a conversation answers a call made in it: by a text about an exception, or
  by the rendered results of the search the call asked for, over the corpus.
\<close>

definition grounded ::
  "unidb \<Rightarrow> (pystr \<Rightarrow> exn + search_args) \<Rightarrow> aid_record list \<Rightarrow> (aid_result list \<Rightarrow> pystr) \<Rightarrow>
     (tool_call \<Rightarrow> exn \<Rightarrow> pystr) \<Rightarrow> message list \<Rightarrow> bool" where
  "grounded U parse corpus render error_text ms \<longleftrightarrow>
     (\<forall>m \<in> set ms. is_tool_result m \<longrightarrow> (\<exists>a \<in> set ms. \<exists>call \<in> set (tool_calls a). \<exists>r.
        m = tool_answer render error_text call r \<and> search_answer U parse corpus call r))"

lemma grounded_append:
  "grounded U parse corpus render error_text ms \<Longrightarrow>
    (\<And>m. m \<in> set ns \<Longrightarrow> is_tool_result m \<Longrightarrow> \<exists>a \<in> set ms. \<exists>call \<in> set (tool_calls a). \<exists>r.
      m = tool_answer render error_text call r \<and> search_answer U parse corpus call r) \<Longrightarrow>
    grounded U parse corpus render error_text (ms @ ns)"
  unfolding grounded_def by (auto; blast)


section \<open>Threads\<close>

definition sound_thread ::
  "unidb \<Rightarrow> (pystr \<Rightarrow> exn + search_args) \<Rightarrow> aid_record list \<Rightarrow> (aid_result list \<Rightarrow> pystr) \<Rightarrow>
     (tool_call \<Rightarrow> exn \<Rightarrow> pystr) \<Rightarrow> agent_state \<Rightarrow> corpus_cache \<times> 'w \<Rightarrow> bool" where
  "sound_thread U parse corpus render error_text st s \<longleftrightarrow>
     messages st \<noteq> [] \<and> 0 \<le> rounds st \<and>
     grounded U parse corpus render error_text (messages st) \<and> cache_holds corpus s"

text \<open>A model speaks as an AI and leaves the corpus alone.\<close>

definition plain_model :: "(corpus_cache \<times> 'w) language_model \<Rightarrow> bool" where
  "plain_model llm \<longleftrightarrow>
     (\<forall>x s r s'. llm x s = (r, s') \<longrightarrow> fst s' = fst s \<and> (\<forall>m. r = Inr m \<longrightarrow> is_ai m))"

lemma plain_modelD:
  assumes "plain_model llm" and "llm x s = (r, s')" and "cache_holds corpus s"
  shows "cache_holds corpus s' \<and> (\<forall>m. r = Inr m \<longrightarrow> is_ai m)"
proof -
  from assms(1,2) have "fst s' = fst s \<and> (\<forall>m. r = Inr m \<longrightarrow> is_ai m)"
    unfolding plain_model_def by blast
  with assms(3) show ?thesis by (simp add: cache_holds_def)
qed

lemma sound_threadI:
  assumes "langgraph invoke limit add tc"
    and "sound_thread U parse corpus render error_text st s" and "cache_holds corpus s'"
    and "\<forall>ms. up_messages upd = Some ms \<longrightarrow> (\<forall>m \<in> set ms. is_tool_result m \<longrightarrow>
      (\<exists>call \<in> set (tool_calls (last (messages st))). \<exists>r.
        m = tool_answer render error_text call r \<and> search_answer U parse corpus call r))"
    and "\<forall>n. up_tool_rounds upd = Some n \<longrightarrow> 0 \<le> n"
  shows "sound_thread U parse corpus render error_text (apply_update add upd st) s'"
proof -
  have "grounded U parse corpus render error_text (messages (apply_update add upd st))"
  proof (cases "up_messages upd")
    case None
    with assms(2) show ?thesis by (simp add: apply_update_def sound_thread_def)
  next
    case (Some ms)
    have "last (messages st) \<in> set (messages st)" using assms(2) by (simp add: sound_thread_def)
    with assms(4) Some have "grounded U parse corpus render error_text (messages st @ ms)"
      using assms(2) by (intro grounded_append) (auto simp only: sound_thread_def, blast)
    with Some show ?thesis by (simp add: apply_update_def langgraph.add_messages [OF assms(1)])
  qed
  moreover have "messages (apply_update add upd st) \<noteq> []" "0 \<le> rounds (apply_update add upd st)"
    using assms(2,5)
    by (auto simp: sound_thread_def apply_update_def langgraph.add_messages [OF assms(1)] rounds_def
        split: option.splits)
  ultimately show ?thesis using assms(3) by (simp add: sound_thread_def)
qed

lemma node_sound:
  assumes lang: "langgraph invoke limit add tc"
    and exec: "tool_executor node (run_tool U read path parse) render error_text"
    and corp: "file_holds read path corpus" and llm: "plain_model llm"
    and st: "sound_thread U parse corpus render error_text st s"
    and f: "map_of (g_nodes (agent_graph U tc node llm)) n = Some f" "f st s = (r, s')"
  shows "cache_holds corpus s' \<and>
    (\<forall>upd. r = Inr upd \<longrightarrow> sound_thread U parse corpus render error_text (apply_update add upd st) s')"
proof -
  note intro = sound_threadI [OF lang st]
  have cache: "cache_holds corpus s" using st by (simp add: sound_thread_def)
  from agent_graph_node_cases [OF f(1)] consider (guard) "f = pure_node (guard_input U)"
    | (agent) "f = call_agent llm" | (tools) "f = run_tools node" | (budget) "f = pure_node budget_exceeded"
    by blast
  then show ?thesis
  proof cases
    case guard
    with f(2) cache show ?thesis
      by (auto simp: pure_node_def guard_input_def Let_def no_update_def bindE_eq_Inr_iff split: if_splits intro!: intro)
  next
    case agent
    obtain rm s1 where m: "llm (agent_request st) s = (rm, s1)" by (cases "llm (agent_request st) s")
    from plain_modelD [OF llm m cache] agent f(2) m show ?thesis
      by (cases rm)
        (auto simp: call_agent_def bind_p_def return_p_def no_update_def is_ai_not_tool_result intro!: intro)
  next
    case budget
    with f(2) cache show ?thesis
      by (auto simp: pure_node_def budget_exceeded_def no_update_def intro!: intro)
  next
    case tools
    obtain rt s1 where t: "node st s = (rt, s1)" by (cases "node st s")
    from after_calls_holds [OF corp tool_executor.effects [OF exec t] cache]
    have s1: "cache_holds corpus s1" .
    show ?thesis
    proof (cases rt)
      case (Inl e)
      with tools f(2) t s1 show ?thesis by (auto simp: run_tools_def bind_p_def)
    next
      case (Inr res)
      have ne: "messages st \<noteq> []" and nn: "0 \<le> rounds st" using st by (simp_all add: sound_thread_def)
      have "\<exists>call \<in> set (tool_calls (last (messages st))). \<exists>r.
          m = tool_answer render error_text call r \<and> search_answer U parse corpus call r"
        if m: "m \<in> set res" for m
      proof -
        from tool_executor.answers [OF exec ne t [unfolded Inr]] m obtain call s2 r s3 where
          c: "call \<in> set (tool_calls (last (messages st)))" and
          run: "after_calls (run_tool U read path parse) s s2" "run_tool U read path parse call s2 = (r, s3)"
            "m = tool_answer render error_text call r"
          by (fastforce simp: list_all2_conv_all_nth in_set_conv_nth)
        from run_tool_answer [OF corp after_calls_holds [OF corp run(1) cache] run(2)] c run(3)
        show ?thesis by blast
      qed
      with tools f(2) t Inr s1 nn show ?thesis
        by (auto simp: run_tools_def bind_p_def return_p_def no_update_def intro!: intro)
    qed
  qed
qed

lemma supersteps_sound:
  assumes "langgraph invoke limit add tc"
    and "tool_executor node (run_tool U read path parse) render error_text"
    and "file_holds read path corpus" and "plain_model llm"
    and "(superstep add (agent_graph U tc node llm))\<^sup>*\<^sup>* c c'"
    and "sound_thread U parse corpus render error_text (run_channels c) (run_world c)"
  shows "sound_thread U parse corpus render error_text (run_channels c') (run_world c')"
  using assms(5,6)
proof (induction rule: rtranclp_induct)
  case (step c1 c2)
  from step have st: "sound_thread U parse corpus render error_text (run_channels c1) (run_world c1)" by blast
  from step(2) show ?case
  proof cases
    case (commit n f st w upd w' m)
    from node_sound [OF assms(1-4) _ commit(4,5)] commit st show ?thesis by auto
  next
    case (node_raises n f st w e w')
    from node_sound [OF assms(1-4) _ node_raises(4,5)] node_raises st show ?thesis
      by (auto simp: sound_thread_def)
  next
    case (route_raises n f st w upd w' e)
    from node_sound [OF assms(1-4) _ route_raises(4,5)] route_raises st show ?thesis
      by (auto simp: sound_thread_def)
  qed
qed


lemma initial_sound:
  assumes lang: "langgraph invoke limit add tc" and "0 \<le> rounds st"
    and "grounded U parse corpus render error_text (messages st)" and "cache_holds corpus s"
  shows "sound_thread U parse corpus render error_text (apply_update add (initial_state message uid) st) s"
  using assms(2-4) grounded_append [of U parse corpus render error_text "messages st"
      "[HumanMessage (StrContent message)]"]
  by (simp add: sound_thread_def initial_state_applied [OF lang])

lemma turn_sound:
  assumes lang: "langgraph invoke limit add tc" and "13 \<le> limit"
    and exec: "tool_executor node (run_tool U read path parse) render error_text"
    and corp: "file_holds read path corpus" and llm: "plain_model llm"
    and st: "0 \<le> rounds st" "grounded U parse corpus render error_text (messages st)" "cache_holds corpus s"
    and run: "invoke (agent_graph U tc node llm) (initial_state message uid) (st, s) = (r, (st', s'))"
  shows "sound_thread U parse corpus render error_text st' s'"
proof -
  let ?g = "agent_graph U tc node llm"
  let ?st0 = "apply_update add (initial_state message uid) st"
  note app = initial_state_applied [OF lang, of message uid st]
  note sound0 = initial_sound [OF lang st, of message uid]
  have steps: "sound_thread U parse corpus render error_text (run_channels c) (run_world c)"
    if "(superstep add ?g)\<^sup>*\<^sup>* (Running GUARD_INPUT ?st0 s) c" for c
    by (rule supersteps_sound [OF lang exec corp llm that]) (simp add: sound0)
  show ?thesis
  proof (cases "run_input_guardrails U (latest_text (messages ?st0)) MAX_INPUT_LENGTH")
    case (Inl e)
    from langgraph.invoke_raises [OF lang Inl, of node llm s] run assms(2) sound0 show ?thesis by simp
  next
    case (Inr verdict)
    show ?thesis
    proof (cases "gr_ok verdict")
      case False
      from langgraph.guard_step [OF lang Inr, of node llm s] False
      have "superstep add ?g (Running GUARD_INPUT ?st0 s) (Running END (?st0\<lparr>messages := messages ?st0 @
          [ai_text REFUSAL_MESSAGE_FR], input_flags := gr_flags verdict\<rparr>) s)" by simp
      from steps [OF r_into_rtranclp, OF this] langgraph.invoke_blocked [OF lang Inr False, of node llm s]
        run assms(2) show ?thesis by (simp add: Let_def)
    next
      case True
      have parts: "agent_parts (\<lambda>_. True) (\<lambda>_ _. True) (\<lambda>_. True) llm node"
        by (simp add: agent_parts_def split: prod.split sum.split)
      have "2 * nat (MAX_TOOL_ROUNDS - rounds ?st0) + 3 \<le> limit"
        using assms(2) st(1) by (simp add: app MAX_TOOL_ROUNDS_def)
      from langgraph.invoke_agent [OF lang Inr True parts this, of s] run obtain e where
        "(superstep add ?g)\<^sup>*\<^sup>* (Running GUARD_INPUT ?st0 s)
          (case e of Failure x \<Rightarrow> Raised x st' s' | _ \<Rightarrow> Running END st' s')" by auto
      from steps [OF this] show ?thesis by (cases e) simp_all
    qed
  qed
qed

lemma turns_sound:
  assumes "langgraph invoke limit add tc" and "13 \<le> limit"
    and "tool_executor node (run_tool U read path parse) render error_text"
    and "file_holds read path corpus" and "plain_model llm"
  shows "0 \<le> rounds st \<Longrightarrow> grounded U parse corpus render error_text (messages st) \<Longrightarrow> cache_holds corpus s \<Longrightarrow>
    thread_run invoke (agent_graph U tc node llm) turns (st, s) = (rs, (st', s')) \<Longrightarrow>
    grounded U parse corpus render error_text (messages st') \<and> cache_holds corpus s'"
proof (induction turns arbitrary: st s rs)
  case (Cons turn turns)
  obtain message uid where turn: "turn = (message, uid)" by force
  obtain r st1 s1 where 1: "invoke (agent_graph U tc node llm) (initial_state message uid) (st, s) = (r, (st1, s1))"
    by (metis prod.collapse)
  from turn_sound [OF assms Cons.prems(1-3) 1] have "0 \<le> rounds st1"
    "grounded U parse corpus render error_text (messages st1)" "cache_holds corpus s1"
    by (simp_all add: sound_thread_def)
  from Cons.IH [OF this] Cons.prems(4) show ?case by (auto simp: turn 1 split: prod.splits)
qed simp

section \<open>Properties\<close>

text \<open>C16. Grounding: over any number of turns of a thread, whatever the model asks and whenever the corpus
  is first read, every tool message of the thread answers a call the model made in it, and holds
  either a text about an exception or the rendered result of \<open>search_aids_corpus\<close> for the query and
  the category of that very call, which was one of \<open>search_aids\<close> with a query that is not empty, on
  the one corpus of the file. The model is never shown an aid that is not in the corpus.\<close>

theorem tool_messages_are_grounded:
  assumes "langgraph invoke limit add tc" and "13 \<le> limit"
    and "tool_executor node (run_tool U read path parse) render error_text"
    and "file_holds read path corpus" and "plain_model llm"
    and "thread_run invoke (agent_graph U tc node llm) turns (empty_channels, (None, w)) = (rs, (st, s))"
    and "ToolMessage x i \<in> set (messages st)"
  shows "\<exists>m \<in> set (messages st). \<exists>call \<in> set (tool_calls m). tc_id call = i \<and>
    ((\<exists>e. x = StrContent (error_text call e)) \<or>
     (\<exists>args. tc_name call = py ''search_aids'' \<and> parse (tc_args call) = Inr args \<and> sa_query args \<noteq> [] \<and>
        x = StrContent (render (search_aids_corpus U (sa_query args) (sa_category args) corpus))))"
proof -
  have "grounded U parse corpus render error_text (messages st)"
    using turns_sound [OF assms(1-5) _ _ _ assms(6)]
    by (simp add: empty_channels_def rounds_def grounded_def cache_holds_def)
  with assms(7) obtain m call r where "m \<in> set (messages st)" "call \<in> set (tool_calls m)"
    "ToolMessage x i = tool_answer render error_text call r" "search_answer U parse corpus call r"
    unfolding grounded_def by fastforce
  then show ?thesis
    by (intro bexI [of _ m] bexI [of _ call])
      (auto simp: tool_answer_def search_answer_def split: sum.splits)
qed


text \<open>An example: a model that searches once and then answers, on the corpus of the search's example.\<close>

definition searching_model :: "(corpus_cache \<times> nat) language_model" where
  "searching_model x s =
     (Inr (case x of
         SequenceInput ms \<Rightarrow> (case last ms of
             Msg (HumanMessage c) \<Rightarrow> AIMessage (StrContent [])
               [\<lparr>tc_name = py ''search_aids'', tc_args = py ''velo neuf'', tc_id = py ''c1''\<rparr>]
           | _ \<Rightarrow> ai_text (py ''Voici.''))
       | _ \<Rightarrow> ai_text []), s)"

definition example_node :: "agent_state \<Rightarrow> (corpus_cache \<times> nat, message list) prog" where
  "example_node = tool_node_ref
     (run_tool latin1_db (\<lambda>path w. (Inr example_corpus, w + 1)) (py ''data'')
       (\<lambda>q. Inr \<lparr>sa_query = q, sa_category = None\<rparr>))
     (\<lambda>rows. concat (map res_id rows)) (\<lambda>call e. [])"

lemma searching_run:
  "case thread_run (invoke_ref 25 (@)) (agent_graph latin1_db tools_condition_ref example_node searching_model)
      [(py ''bonjour'', py ''u'')] (empty_channels, (None, 0)) of
     (rs, (st, s)) \<Rightarrow> messages st ! 2 = ToolMessage (StrContent [2, 5, 1]) (py ''c1'') \<and>
       length (messages st) = 4"
  by code_simp

theorem tool_messages_are_grounded_witness:
  "\<exists>query. query \<noteq> [] \<and>
     [2, 5, 1] = concat (map res_id (search_aids_corpus latin1_db query None example_corpus))"
proof -
  let ?g = "agent_graph latin1_db tools_condition_ref example_node searching_model"
  obtain rs st s where run: "thread_run (invoke_ref 25 (@)) ?g [(py ''bonjour'', py ''u'')]
      (empty_channels, (None, 0)) = (rs, (st, s))" by (metis prod.collapse)
  have "messages st ! 2 = ToolMessage (StrContent [2, 5, 1]) (py ''c1'')" "length (messages st) = 4"
    using searching_run unfolding run by simp_all
  then have tool: "ToolMessage (StrContent [2, 5, 1]) (py ''c1'') \<in> set (messages st)"
    using nth_mem [of 2 "messages st"] by simp
  have corp: "file_holds (\<lambda>path w. (Inr example_corpus, w + (1::nat))) (py ''data'') example_corpus"
    by (simp add: file_holds_def)
  have llm: "plain_model searching_model"
    by (auto simp: plain_model_def searching_model_def split: model_input.split message_like.split message.split)
  from tool_messages_are_grounded [OF lg.langgraph_axioms [of 25] _ ref_node.tool_executor_axioms corp llm
      run [unfolded example_node_def] tool]
  show ?thesis by auto
qed

end
