(* ===== verification/Turn.thy ===== *)
theory Turn
  imports Threads
begin

text \<open>
  One turn as the client sees it: the graph behind the generator of \<open>POST /v1/chat\<close>, on a runtime
  where others may take turns on the thread (\<open>shared_event_stream\<close>) or where it is alone with its
  thread (\<open>event_stream\<close>). \<open>told\<close> is what the client has to be told, \<open>stream_of_turn\<close> what the
  generator does with the outcome of \<open>invoke\<close>.
\<close>

section \<open>What the client is told of an invocation\<close>

lemma extract_final_text_last:
  "is_ai m \<Longrightarrow> extract_final_text (ms @ [m]) = content_text (msg_content m)"
  by (simp add: extract_final_text_def)

text \<open>
  What the client has to be told of an invocation: the failure of the model or of the tools, or the
  text its thread ends on.
\<close>

definition told :: "(message \<Rightarrow> bool) \<Rightarrow> (exn \<Rightarrow> bool) \<Rightarrow> guard_result \<Rightarrow> exn + pystr \<Rightarrow> bool" where
  "told says fails verdict outcome \<longleftrightarrow>
     (if \<not> gr_ok verdict then outcome = Inr REFUSAL_MESSAGE_FR
      else (\<exists>e. fails e \<and> outcome = Inl e) \<or> outcome = Inr BUDGET_EXCEEDED_MESSAGE_FR \<or>
        (\<exists>m. says m \<and> tool_calls m = [] \<and> outcome = Inr (content_text (msg_content m))))"

text \<open>What the client has to be told when the guardrails may raise: an error of the guardrails, or as \<open>told\<close> says.\<close>

definition answered :: "unidb \<Rightarrow> (message \<Rightarrow> bool) \<Rightarrow> (exn \<Rightarrow> bool) \<Rightarrow> pystr \<Rightarrow> exn + pystr \<Rightarrow> bool" where
  "answered U says fails message outcome \<longleftrightarrow>
     (case run_input_guardrails U message MAX_INPUT_LENGTH of
        Inl e \<Rightarrow> outcome = Inl e
      | Inr verdict \<Rightarrow> told says fails verdict outcome)"

lemma agent_parts_mono:
  assumes "agent_parts says answers fails llm tn" and "\<And>m. says m \<Longrightarrow> says' m"
    and "\<And>e. fails e \<Longrightarrow> fails' e"
  shows "agent_parts says' answers fails' llm tn"
proof -
  have "case llm x w of (Inr m, w') \<Rightarrow> says' m | (Inl e, w') \<Rightarrow> fails' e" for x w
    using agent_partsD(1,2) [OF assms(1)] assms(2,3)
    by (cases "llm x w"; cases "fst (llm x w)") auto
  moreover have "case tn st w of (Inr res, w') \<Rightarrow> answers (tool_calls (last (messages st))) res
      | (Inl e, w') \<Rightarrow> fails' e" if "messages st \<noteq> []" for st w
    using agent_partsD(3,4) [OF assms(1) that] assms(3)
    by (cases "tn st w"; cases "fst (tn st w)") auto
  ultimately show ?thesis by (simp add: agent_parts_def)
qed

lemma invocation_outcome:
  assumes lang: "langgraph invoke limit add tc" and "13 \<le> limit" and nn: "0 \<le> rounds st"
    and verdict: "run_input_guardrails U message MAX_INPUT_LENGTH = Inr verdict"
    and parts: "agent_parts (\<lambda>m. is_ai m \<and> says m) answers fails llm tn"
  shows "\<exists>res st' w'. invoke (agent_graph U tc tn llm) (initial_state message uid) (st, w) = (res, (st', w')) \<and>
    (\<forall>s. res = Inr s \<longrightarrow> s = st') \<and>
    told says fails verdict (case res of Inl e \<Rightarrow> Inl e | Inr s \<Rightarrow> Inr (extract_final_text (messages st')))"
proof -
  let ?inp = "initial_state message uid"
  note app = initial_state_applied [OF lang, of message uid st]
  have v: "run_input_guardrails U (latest_text (messages (apply_update add ?inp st))) MAX_INPUT_LENGTH = Inr verdict"
    unfolding latest_text_applied [OF lang] by (rule verdict)
  show ?thesis
  proof (cases "gr_ok verdict")
    case False
    from langgraph.invoke_blocked [OF lang v False, of tn llm w] assms(2) False show ?thesis
      by (simp add: Let_def extract_final_text_last told_def)
  next
    case True
    have "2 * nat (MAX_TOOL_ROUNDS - rounds (apply_update add ?inp st)) + 3 \<le> limit"
      using nn assms(2) unfolding app by (simp add: MAX_TOOL_ROUNDS_def)
    from langgraph.invoke_agent [OF lang v True parts this, of w] obtain n ms e st' w' where
      turn: "agent_turn (\<lambda>m. is_ai m \<and> says m) answers fails
        (rounds (apply_update add ?inp st)) n ms e" and
      st': "messages st' = messages (apply_update add ?inp st) @ ms" and
      inv: "invoke (agent_graph U tc tn llm) ?inp (st, w) =
        (case e of Failure x \<Rightarrow> Inl x | _ \<Rightarrow> Inr st', (st', w'))" by blast
    show ?thesis
    proof (cases e)
      case Answer
      with agent_turn_ends [OF turn] obtain pre m where m: "ms = pre @ [m]" "is_ai m" "says m" "tool_calls m = []"
        by auto
      then have "extract_final_text (messages st') = content_text (msg_content m)"
        using extract_final_text_last [of m "messages (apply_update add ?inp st) @ pre"] st' by simp
      with inv Answer True m show ?thesis by (auto simp: told_def)
    next
      case BudgetCut
      with agent_turn_ends [OF turn] obtain pre m where "ms = pre @ [m, ai_text BUDGET_EXCEEDED_MESSAGE_FR]"
        by auto
      then have "extract_final_text (messages st') = BUDGET_EXCEEDED_MESSAGE_FR"
        using extract_final_text_last [of "ai_text BUDGET_EXCEEDED_MESSAGE_FR"
            "messages (apply_update add ?inp st) @ pre @ [m]"] st' by simp
      with inv BudgetCut True show ?thesis by (auto simp: told_def)
    next
      case (Failure x)
      with agent_turn_ends [OF turn] inv True show ?thesis by (auto simp: told_def)
    qed
  qed
qed

text \<open>The text an invocation ends on when neither the model nor the tools raise.\<close>

lemma invocation_final_text:
  assumes "langgraph invoke limit add tc" and "13 \<le> limit" and "0 \<le> rounds st"
    and "run_input_guardrails U message MAX_INPUT_LENGTH = Inr verdict"
    and "agent_parts (\<lambda>m. is_ai m \<and> says m) answers (\<lambda>_. False) llm tn"
  shows "\<exists>st' w'. invoke (agent_graph U tc tn llm) (initial_state message uid) (st, w) = (Inr st', (st', w')) \<and>
    (if gr_ok verdict
     then extract_final_text (messages st') = BUDGET_EXCEEDED_MESSAGE_FR \<or>
       (\<exists>m. says m \<and> tool_calls m = [] \<and> extract_final_text (messages st') = content_text (msg_content m))
     else extract_final_text (messages st') = REFUSAL_MESSAGE_FR)"
proof -
  from invocation_outcome [OF assms, of uid w] obtain res st' w' where
    inv: "invoke (agent_graph U tc tn llm) (initial_state message uid) (st, w) = (res, (st', w'))"
      "\<forall>s. res = Inr s \<longrightarrow> s = st'" and
    told: "told says (\<lambda>_. False) verdict (case res of Inl e \<Rightarrow> Inl e | Inr s \<Rightarrow> Inr (extract_final_text (messages st')))"
    by (elim exE conjE)
  have "res = Inr st'"
  proof (cases res)
    case (Inl e)
    with told show ?thesis by (simp add: told_def split: if_splits)
  next
    case (Inr x)
    with inv(2) show ?thesis by simp
  qed
  with inv(1) told show ?thesis
    by (intro exI [of _ st'] exI [of _ w']) (simp add: told_def split: if_splits)
qed

text \<open>The counter of a thread does not become negative, whatever becomes of its turns.\<close>

lemma invocation_rounds:
  assumes lang: "langgraph invoke limit add tc" and "13 \<le> limit" and nn: "0 \<le> rounds st"
    and run: "invoke (agent_graph U tc tn llm) (initial_state message uid) (st, w) = (r, (st', w'))"
  shows "0 \<le> rounds st'"
proof -
  let ?st0 = "apply_update add (initial_state message uid) st"
  have nn0: "0 \<le> rounds ?st0" using nn by (simp add: initial_state_applied [OF lang])
  show ?thesis
  proof (cases "run_input_guardrails U (latest_text (messages ?st0)) MAX_INPUT_LENGTH")
    case (Inl e)
    from langgraph.invoke_raises [OF lang Inl, of tn llm w] assms(2) run nn0 show ?thesis by simp
  next
    case (Inr v)
    show ?thesis
    proof (cases "gr_ok v")
      case False
      from langgraph.invoke_blocked [OF lang Inr False, of tn llm w] assms(2) run nn0 show ?thesis
        by (simp add: Let_def rounds_def)
    next
      case True
      have parts: "agent_parts (\<lambda>_. True) (\<lambda>_ _. True) (\<lambda>_. True) llm tn"
        by (simp add: agent_parts_def split: prod.split sum.split)
      have "2 * nat (MAX_TOOL_ROUNDS - rounds ?st0) + 3 \<le> limit"
        using nn0 assms(2) by (simp add: MAX_TOOL_ROUNDS_def)
      from langgraph.invoke_agent [OF lang Inr True parts this, of w] run nn0 show ?thesis by auto
    qed
  qed
qed

lemma thread_rounds:
  assumes "langgraph invoke limit add tc" and "13 \<le> limit"
  shows "0 \<le> rounds (fst t) \<Longrightarrow> 0 \<le> rounds (fst (snd (thread_run invoke (agent_graph U tc tn llm) turns t)))"
proof (induction turns arbitrary: t)
  case (Cons turn turns)
  obtain message uid where turn: "turn = (message, uid)" by force
  obtain st w where t: "t = (st, w)" by force
  obtain r st1 w1 where 1: "invoke (agent_graph U tc tn llm) (initial_state message uid) (st, w) = (r, (st1, w1))"
    by (metis prod.collapse)
  from invocation_rounds [OF assms _ 1] Cons.prems t have "0 \<le> rounds (fst (st1, w1))" by simp
  from Cons.IH [OF this] show ?case by (auto simp: turn t 1 split: prod.splits)
qed simp

lemma thread_run_append:
  "snd (thread_run invoke g (xs @ ys) t) = snd (thread_run invoke g ys (snd (thread_run invoke g xs t)))"
  by (induction invoke g xs t rule: thread_run.induct) (auto split: prod.split)

text \<open>The server reads the state that the invocation of the thread has left.\<close>

definition reads_invocation ::
  "'v server \<Rightarrow> ('w thread \<Rightarrow> (exn + agent_state) \<times> 'w thread) \<Rightarrow> 'w thread \<Rightarrow> bool" where
  "reads_invocation srv run t \<longleftrightarrow>
     (\<forall>w d ms w'. sv_state srv w = (d, Inr ms, w') \<longrightarrow> ms = messages (fst (snd (run t))))"


section \<open>The events of a run\<close>

text \<open>
  \<open>pulls srv v evs d r v'\<close>: asked again and again from \<open>v\<close> on, the iterator gives the events \<open>evs\<close>
  and then ends or raises (\<open>r\<close>), after the time \<open>d\<close> in all.
\<close>

inductive pulls :: "'v server \<Rightarrow> 'v \<Rightarrow> stream_event list \<Rightarrow> rat \<Rightarrow> exn + unit \<Rightarrow> 'v \<Rightarrow> bool" for srv where
  exhausted: "sv_pull srv v = (d, Inr None, v') \<Longrightarrow> 0 \<le> d \<Longrightarrow> pulls srv v [] d (Inr ()) v'"
| raised: "sv_pull srv v = (d, Inl e, v') \<Longrightarrow> 0 \<le> d \<Longrightarrow> pulls srv v [] d (Inl e) v'"
| event: "sv_pull srv v = (d, Inr (Some ev), v1) \<Longrightarrow> 0 \<le> d \<Longrightarrow> pulls srv v1 evs t r v' \<Longrightarrow>
    pulls srv v (ev # evs) (d + t) r v'"

lemma pulls_nonneg: "pulls srv v evs t r v' \<Longrightarrow> 0 \<le> t"
  by (induction rule: pulls.induct) simp_all

text \<open>
  A consumer that takes every line within the time \<open>c\<close>; the run stands still while it holds one.
\<close>

definition reads_within :: "rat \<Rightarrow> 'v server \<Rightarrow> bool" where
  "reads_within c srv \<longleftrightarrow> 0 \<le> c \<and>
     (\<forall>line v. snd (sv_deliver srv line v) = (None, v) \<and>
        0 \<le> fst (sv_deliver srv line v) \<and> fst (sv_deliver srv line v) \<le> c)"

lemma yield_within:
  assumes "reads_within c srv"
  shows "\<exists>d. 0 \<le> d \<and> d \<le> c \<and>
    yield_line srv line s = (Inr (), s\<lparr>clock := clock s + d, lines := lines s @ [line]\<rparr>)"
proof -
  obtain d e v where "sv_deliver srv line (outside s) = (d, e, v)" by (metis prod.collapse)
  moreover from this assms have "e = None" "v = outside s" "0 \<le> d" "d \<le> c"
    unfolding reads_within_def by (metis fst_conv snd_conv)+
  ultimately show ?thesis by (intro exI [of _ d]) (simp add: yield_line_def)
qed

abbreviation token_texts :: "stream_event list \<Rightarrow> pystr list" where
  "token_texts \<equiv> List.map_filter token_text"

lemma token_texts_simps:
  "token_texts [] = []"
  "token_texts (ev # evs) = (case token_text ev of None \<Rightarrow> token_texts evs | Some t \<Rightarrow> t # token_texts evs)"
  by (simp_all add: List.map_filter_def split: option.split)

lemma length_token_texts: "length (token_texts evs) \<le> length evs"
  by (simp add: List.map_filter_def)

text \<open>
  The loop of the generator sends the texts of the events and ends as the iterator does, if the time
  of the iterator and of the consumer together stays below the deadline.
\<close>

lemma consume_pulls:
  assumes "pulls srv v evs t r v'" and "reads_within c srv"
  shows "outside s = v \<Longrightarrow> clock s + t + of_nat (length (token_texts evs)) * c < deadline \<Longrightarrow>
    \<exists>d. 0 \<le> d \<and> d \<le> of_nat (length (token_texts evs)) * c \<and>
      consume srv deadline s = Some (r, s\<lparr>clock := clock s + t + d, outside := v',
        lines := lines s @ map token_line (token_texts evs)\<rparr>)"
  using assms(1)
proof (induction arbitrary: s rule: pulls.induct)
  case (exhausted v d v')
  then show ?case
    by (intro exI [of _ 0], subst consume.simps) (simp add: wait_for_def token_texts_simps)
next
  case (raised v d e v')
  then show ?case
    by (intro exI [of _ 0], subst consume.simps) (simp add: wait_for_def token_texts_simps)
next
  case (event v d ev v1 evs t r v')
  have c: "0 \<le> of_nat (length (token_texts xs)) * c" for xs using assms(2) by (simp add: reads_within_def)
  note t = pulls_nonneg [OF event.hyps(3)] c [of "ev # evs"]
  let ?s1 = "s\<lparr>clock := clock s + d, outside := v1\<rparr>"
  have w: "wait_for (sv_abandon srv) (sv_pull srv) (deadline - clock s) s = (Inr (Some ev), ?s1)"
    using event t by (simp add: wait_for_def)
  have live: "\<not> deadline - clock s \<le> 0" using event t by simp
  show ?case
  proof (cases "token_text ev")
    case None
    with event.IH [of ?s1] event.prems obtain d1 where "0 \<le> d1" "d1 \<le> of_nat (length (token_texts evs)) * c"
      "consume srv deadline ?s1 = Some (r, ?s1\<lparr>clock := clock ?s1 + t + d1, outside := v',
        lines := lines s @ map token_line (token_texts evs)\<rparr>)"
      by (auto simp: token_texts_simps add.assoc)
    with w live None show ?thesis
      by (intro exI [of _ d1], subst consume.simps) (simp add: token_texts_simps add.assoc)
  next
    case (Some chunk)
    from yield_within [OF assms(2), of "token_line chunk" ?s1] obtain d0 where
      d0: "0 \<le> d0" "d0 \<le> c" "yield_line srv (token_line chunk) ?s1 =
        (Inr (), ?s1\<lparr>clock := clock ?s1 + d0, lines := lines ?s1 @ [token_line chunk]\<rparr>)" by blast
    let ?s2 = "?s1\<lparr>clock := clock ?s1 + d0, lines := lines ?s1 @ [token_line chunk]\<rparr>"
    have n: "of_nat (length (token_texts (ev # evs))) * c = of_nat (length (token_texts evs)) * c + c"
      using Some by (simp add: token_texts_simps algebra_simps)
    from event.IH [of ?s2] event.prems d0 obtain d1 where
      d1: "0 \<le> d1" "d1 \<le> of_nat (length (token_texts evs)) * c"
      "consume srv deadline ?s2 = Some (r, ?s2\<lparr>clock := clock ?s2 + t + d1, outside := v',
        lines := lines ?s2 @ map token_line (token_texts evs)\<rparr>)"
      unfolding n by auto
    have "consume srv deadline s = Some (r, s\<lparr>clock := clock s + (d + t) + (d0 + d1), outside := v',
        lines := lines s @ map token_line (token_texts (ev # evs))\<rparr>)"
      using w live Some d0(3) d1(3)
      by (subst consume.simps) (simp add: token_texts_simps token_line_def algebra_simps)
    moreover have "d0 + d1 \<le> of_nat (length (token_texts (ev # evs))) * c" unfolding n using d0 d1 by linarith
    ultimately show ?thesis using d0(1) d1(1) by (intro exI [of _ "d0 + d1"]) simp
  qed
qed

section \<open>LangGraph's event stream\<close>

text \<open>
  What the endpoint relies on beyond \<open>invoke\<close>: \<open>astream_events\<close> makes the same run of the graph on
  the same thread as \<open>invoke\<close>, gives its events one at a time, then ends when \<open>invoke\<close> would return
  and raises what \<open>invoke\<close> would raise, leaving the thread as \<open>invoke\<close> would; \<open>aget_state\<close> returns the
  latest state of the thread. Nothing in \<open>chat.py\<close> keeps other requests from running turns on the
  thread before that state is read: \<open>others v\<close> are the turns (message and user) which do so when the
  run has left the runtime in \<open>v\<close>. The two times bound the stream of one turn and the reading of the
  state, \<open>tokens\<close> the texts among the events of a turn.
\<close>

locale shared_event_stream = langgraph invoke limit add tools_condition
  for invoke :: "'w graph \<Rightarrow> update \<Rightarrow> ('w thread, agent_state) prog"
    and limit :: nat and add :: add_messages and tools_condition :: "agent_state \<Rightarrow> exn + pystr" +
  fixes open_stream :: "'w graph \<Rightarrow> update \<Rightarrow> run_config \<Rightarrow> 'v server"
    and thread :: "run_config \<Rightarrow> 'v \<Rightarrow> 'w thread"
    and at_rest :: "'v \<Rightarrow> bool"
    and turn_time :: rat and read_time :: rat and tokens :: nat
    and others :: "'v \<Rightarrow> (pystr \<times> pystr) list"
  assumes streams: "at_rest v \<Longrightarrow> invoke g inp (thread cfg v) = (res, t') \<Longrightarrow>
      \<exists>evs d v'. pulls (open_stream g inp cfg) v evs d
          (case res of Inl e \<Rightarrow> Inl e | Inr st \<Rightarrow> Inr ()) v' \<and>
        d \<le> turn_time \<and> length (token_texts evs) \<le> tokens \<and> at_rest v' \<and> thread cfg v' = t'"
    and reads_latest: "at_rest v \<Longrightarrow> \<exists>d v'. sv_state (open_stream g inp cfg) v =
        (d, Inr (messages (fst (thread cfg v'))), v') \<and> 0 \<le> d \<and> d \<le> read_time \<and>
        at_rest v' \<and> thread cfg v' = snd (thread_run invoke g (others v) (thread cfg v))"

text \<open>A runtime on which the request is alone with its thread.\<close>

locale event_stream = langgraph invoke limit add tools_condition
  for invoke :: "'w graph \<Rightarrow> update \<Rightarrow> ('w thread, agent_state) prog"
    and limit :: nat and add :: add_messages and tools_condition :: "agent_state \<Rightarrow> exn + pystr" +
  fixes open_stream :: "'w graph \<Rightarrow> update \<Rightarrow> run_config \<Rightarrow> 'v server"
    and thread :: "run_config \<Rightarrow> 'v \<Rightarrow> 'w thread"
    and at_rest :: "'v \<Rightarrow> bool"
    and turn_time :: rat and read_time :: rat and tokens :: nat
  assumes streams: "at_rest v \<Longrightarrow> invoke g inp (thread cfg v) = (res, t') \<Longrightarrow>
      \<exists>evs d v'. pulls (open_stream g inp cfg) v evs d
          (case res of Inl e \<Rightarrow> Inl e | Inr st \<Rightarrow> Inr ()) v' \<and>
        d \<le> turn_time \<and> length (token_texts evs) \<le> tokens \<and> at_rest v' \<and> thread cfg v' = t'"
    and reads: "at_rest v \<Longrightarrow> \<exists>d v'. sv_state (open_stream g inp cfg) v =
        (d, Inr (messages (fst (thread cfg v))), v') \<and> 0 \<le> d \<and> d \<le> read_time \<and>
        at_rest v' \<and> thread cfg v' = thread cfg v"

sublocale event_stream \<subseteq> alone: shared_event_stream invoke limit add tools_condition open_stream thread at_rest
  turn_time read_time tokens "\<lambda>_. []"
proof (unfold_locales, goal_cases)
  case (1 v g inp cfg res t')
  then show ?case by (rule streams)
next
  case (2 v g inp cfg)
  from reads [OF this, of g inp cfg] show ?case by auto
qed

context event_stream
begin

lemma alone_shared: "shared_event_stream invoke limit add tools_condition open_stream thread at_rest
    turn_time read_time tokens (\<lambda>_. [])"
  by (rule alone.shared_event_stream_axioms)

end

text \<open>
  A runtime with this contract: the checkpoints of all threads, the world the nodes act on, and the
  run in progress with its supersteps left and the events of its last superstep not yet asked for.
  A superstep takes \<open>d\<close> and gives the events \<open>plan\<close> says, at least one and at most \<open>b\<close> more.
\<close>

record 'w host =
  checkpoints :: "pystr \<Rightarrow> agent_state"
  host_world :: 'w
  live :: "(nat \<times> 'w run \<times> stream_event list) option"

definition settle :: "run_config \<Rightarrow> 'w run \<Rightarrow> (nat \<times> 'w run \<times> stream_event list) option \<Rightarrow> 'w host \<Rightarrow> 'w host" where
  "settle cfg c l v = v\<lparr>checkpoints := (checkpoints v)(rc_thread_id cfg := run_channels c),
     host_world := run_world c, live := l\<rparr>"

definition host_run ::
  "nat \<Rightarrow> add_messages \<Rightarrow> 'w graph \<Rightarrow> update \<Rightarrow> run_config \<Rightarrow> 'w host \<Rightarrow>
     nat \<times> 'w run \<times> stream_event list" where
  "host_run limit add g inp cfg v =
     (case live v of
        Some l \<Rightarrow> l
      | None \<Rightarrow> (limit, Running (g_entry g)
          (apply_update add inp (checkpoints v (rc_thread_id cfg))) (host_world v), []))"

definition run_result :: "'w run \<Rightarrow> exn + unit" where
  "run_result c = (case c of Raised e st w \<Rightarrow> Inl e
     | Running n st w \<Rightarrow> if n = END then Inr () else Inl GraphRecursionError)"

definition halted :: "'w run \<Rightarrow> bool" where
  "halted c = (case c of Raised e st w \<Rightarrow> True | Running n st w \<Rightarrow> n = END)"

definition host_pull ::
  "nat \<Rightarrow> add_messages \<Rightarrow> nat \<Rightarrow> nat \<Rightarrow> ('w run \<Rightarrow> stream_event \<times> stream_event list) \<Rightarrow> 'w graph \<Rightarrow> update \<Rightarrow>
     run_config \<Rightarrow> 'w host \<Rightarrow> rat \<times> (exn + stream_event option) \<times> 'w host" where
  "host_pull limit add d b plan g inp cfg v =
     (case host_run limit add g inp cfg v of (n, c, evs) \<Rightarrow>
       (case evs of
          ev # rest \<Rightarrow> (0, Inr (Some ev), v\<lparr>live := Some (n, c, rest)\<rparr>)
        | [] \<Rightarrow>
          if halted c \<or> n = 0
          then (0, case run_result c of Inl e \<Rightarrow> Inl e | Inr u \<Rightarrow> Inr None, settle cfg c None v)
          else (case plan c of (ev, rest) \<Rightarrow>
            (of_nat d, Inr (Some ev),
             settle cfg (superstep_fun add g c) (Some (n - 1, superstep_fun add g c, take b rest)) v))))"

definition host_server ::
  "nat \<Rightarrow> add_messages \<Rightarrow> nat \<Rightarrow> nat \<Rightarrow> ('w run \<Rightarrow> stream_event \<times> stream_event list) \<Rightarrow> 'w graph \<Rightarrow> update \<Rightarrow>
     run_config \<Rightarrow> 'w host server" where
  "host_server limit add d b plan g inp cfg =
     \<lparr>sv_pull = host_pull limit add d b plan g inp cfg,
      sv_state = (\<lambda>v. (of_nat d, Inr (messages (checkpoints v (rc_thread_id cfg))), v)),
      sv_deliver = (\<lambda>line v. (0, None, v)),
      sv_abandon = (\<lambda>t v. v\<lparr>live := None\<rparr>)\<rparr>"

definition host_thread :: "run_config \<Rightarrow> 'w host \<Rightarrow> 'w thread" where
  "host_thread cfg v = (checkpoints v (rc_thread_id cfg), host_world v)"

lemma host_run_live [simp]: "host_run limit add g inp cfg (v\<lparr>live := Some l\<rparr>) = l"
  "host_run limit add g inp cfg (settle cfg c (Some l) v) = l"
  by (simp_all add: host_run_def settle_def)

lemma superstep_fun_pow_halted: "halted c \<Longrightarrow> (superstep_fun add g ^^ n) c = c"
  by (induction n) (auto simp: halted_def split: run.splits)

lemma host_pulls:
  assumes "host_run limit add g inp cfg v = (n, c, evs)"
  shows "\<exists>es t v'. pulls (host_server limit add d b plan g inp cfg) v es t
      (run_result ((superstep_fun add g ^^ n) c)) v' \<and> t \<le> of_nat (n * d) \<and>
    length es \<le> length evs + n * Suc b \<and> live v' = None \<and>
    host_thread cfg v' = (run_channels ((superstep_fun add g ^^ n) c), run_world ((superstep_fun add g ^^ n) c))"
  using assms
proof (induction n arbitrary: c evs v)
  note pull = host_server_def host_pull_def
  let ?srv = "host_server limit add d b plan g inp cfg"
  have ended: "\<exists>es t v'. pulls ?srv v es t (run_result c) v' \<and> t \<le> of_nat m \<and>
      length es \<le> length evs + k \<and> live v' = None \<and> host_thread cfg v' = (run_channels c, run_world c)"
    if "halted c \<or> n = 0" "host_run limit add g inp cfg v = (n, c, evs)" for c :: "'a run" and n m k evs v
    using that(2)
  proof (induction evs arbitrary: v)
    case Nil
    have "sv_pull ?srv v = (0, case run_result c of Inl e \<Rightarrow> Inl e | Inr u \<Rightarrow> Inr None, settle cfg c None v)"
      using Nil that(1) by (auto simp: pull)
    then have "pulls ?srv v [] 0 (run_result c) (settle cfg c None v)"
      by (cases "run_result c") (auto intro: pulls.exhausted pulls.raised)
    then show ?case
      by (intro exI [of _ "[]"] exI [of _ 0] exI [of _ "settle cfg c None v"])
        (simp add: settle_def host_thread_def)
  next
    case (Cons ev evs)
    let ?v = "v\<lparr>live := Some (n, c, evs)\<rparr>"
    from Cons.IH [of ?v] obtain es t v' where "pulls ?srv ?v es t (run_result c) v'" "t \<le> of_nat m"
      "length es \<le> length evs + k" "live v' = None" "host_thread cfg v' = (run_channels c, run_world c)" by auto
    moreover have "sv_pull ?srv v = (0, Inr (Some ev), ?v)" using Cons.prems by (simp add: pull)
    ultimately show ?case using pulls.event [of ?srv v 0 ev ?v es t]
      by (intro exI [of _ "ev # es"] exI [of _ t] exI [of _ v']) simp
  qed
  {
    case 0
    from ended [of c 0 v evs "0 * d" "0 * Suc b"] 0 show ?case by simp
  next
    case (Suc n)
    show ?case
    proof (cases "halted c")
      case True
      from ended [OF disjI1 [OF True] Suc.prems, of "Suc n * d" "Suc n * Suc b"]
      show ?thesis unfolding superstep_fun_pow_halted [OF True] .
    next
      case False
      let ?c = "superstep_fun add g c"
      have pow: "(superstep_fun add g ^^ Suc n) c = (superstep_fun add g ^^ n) ?c"
        by (simp only: funpow_Suc_right comp_apply)
      have "\<exists>es t v'. pulls ?srv v es t (run_result ((superstep_fun add g ^^ n) ?c)) v' \<and>
          t \<le> of_nat (Suc n * d) \<and> length es \<le> length evs + Suc n * Suc b \<and> live v' = None \<and>
          host_thread cfg v' =
            (run_channels ((superstep_fun add g ^^ n) ?c), run_world ((superstep_fun add g ^^ n) ?c))"
        using Suc.prems
      proof (induction evs arbitrary: v)
        case Nil
        obtain ev rest where plan: "plan c = (ev, rest)" by (cases "plan c")
        let ?v = "settle cfg ?c (Some (n, ?c, take b rest)) v"
        have p: "sv_pull ?srv v = (of_nat d, Inr (Some ev), ?v)"
          using Nil False plan by (simp add: pull)
        from Suc.IH [of ?v ?c "take b rest"] obtain es t v' where
          "pulls ?srv ?v es t (run_result ((superstep_fun add g ^^ n) ?c)) v'"
          "t \<le> of_nat (n * d)" "length es \<le> length (take b rest) + n * Suc b" "live v' = None" "host_thread cfg v' =
            (run_channels ((superstep_fun add g ^^ n) ?c), run_world ((superstep_fun add g ^^ n) ?c))"
          by auto
        with pulls.event [OF p _ this(1)] show ?case
          by (intro exI [of _ "ev # es"] exI [of _ "of_nat d + t"] exI [of _ v']) simp
      next
        case (Cons ev evs)
        let ?v = "v\<lparr>live := Some (Suc n, c, evs)\<rparr>"
        have p: "sv_pull ?srv v = (0, Inr (Some ev), ?v)" using Cons.prems by (simp add: pull)
        from Cons.IH [of ?v] obtain es t v' where
          "pulls ?srv ?v es t (run_result ((superstep_fun add g ^^ n) ?c)) v'"
          "t \<le> of_nat (Suc n * d)" "length es \<le> length evs + Suc n * Suc b" "live v' = None" "host_thread cfg v' =
            (run_channels ((superstep_fun add g ^^ n) ?c), run_world ((superstep_fun add g ^^ n) ?c))"
          by auto
        with pulls.event [OF p _ this(1)] show ?case
          by (intro exI [of _ "ev # es"] exI [of _ "0 + t"] exI [of _ v']) simp
      qed
      then show ?thesis unfolding pow .
    qed
  }
qed

interpretation host: event_stream "invoke_ref limit (@)" limit "(@)" tools_condition_ref
  "host_server limit (@) d b plan" host_thread "\<lambda>v. live v = None" "of_nat (limit * d)" "of_nat d" "limit * Suc b"
  for limit d b plan
proof (unfold_locales, goal_cases)
  case (1 v g inp cfg res t')
  let ?c = "(superstep_fun (@) g ^^ limit) (Running (g_entry g)
      (apply_update (@) inp (checkpoints v (rc_thread_id cfg))) (host_world v))"
  from 1(1) have "host_run limit (@) g inp cfg v = (limit, Running (g_entry g)
      (apply_update (@) inp (checkpoints v (rc_thread_id cfg))) (host_world v), [])"
    by (simp add: host_run_def)
  note host_pulls [OF this, of d b plan]
  moreover have "(case res of Inl e \<Rightarrow> Inl e | Inr st \<Rightarrow> Inr ()) = run_result ?c"
    "t' = (run_channels ?c, run_world ?c)"
    using 1(2) by (auto simp: invoke_ref_def run_result_def host_thread_def split: run.splits if_splits)
  ultimately obtain es t v' where "pulls (host_server limit (@) d b plan g inp cfg) v es t
      (case res of Inl e \<Rightarrow> Inl e | Inr st \<Rightarrow> Inr ()) v'" "t \<le> of_nat (limit * d)"
    "length es \<le> limit * Suc b" "live v' = None" "host_thread cfg v' = t'" by auto
  with length_token_texts [of es] show ?case
    by (intro exI [of _ es] exI [of _ t] exI [of _ v']) (simp del: of_nat_mult)
next
  case (2 v g inp cfg)
  then show ?case by (auto simp: host_server_def host_thread_def)
qed


section \<open>A turn, from the request to the last line\<close>

text \<open>The event a generator ends on, given what became of its turn.\<close>

definition last_event :: "pystr \<Rightarrow> exn + pystr \<Rightarrow> event" where
  "last_event tid outcome = (case outcome of
     Inl e \<Rightarrow> build_error_event (classify_error e) | Inr answer \<Rightarrow> build_done_event tid answer)"

text \<open>The body of the generator on a stream that keeps its times.\<close>

lemma stream_of_invocation:
  assumes es: "shared_event_stream invoke limit add tc open_stream thread at_rest turn_time read_time tokens others"
    and srv: "srv = open_stream g inp cfg"
    and rest: "at_rest (outside s)" and cons: "reads_within c srv"
    and time: "turn_time + read_time + of_nat tokens * c < tmo"
    and inv: "invoke g inp (thread cfg (outside s)) = (res, t')"
    and exc: "\<And>e. res = Inl e \<Longrightarrow> is_Exception e"
  shows "\<exists>rs s'. stream_body srv (clock s + tmo) tid s = Some rs \<and>
    handle_failure srv tid uid tr rs = (Inr (), s') \<and>
    (\<exists>v ts. at_rest v \<and> thread cfg v = t' \<and>
      lines s' = lines s @ map token_line ts @ [format_sse_event (last_event tid (case res of Inl e \<Rightarrow> Inl e
        | Inr st \<Rightarrow> Inr (extract_final_text (messages (fst (snd (thread_run invoke g (others v) t')))))))] \<and>
      clock s' \<le> clock s + turn_time + read_time + of_nat (Suc tokens) * c \<and> at_rest (outside s') \<and>
      thread cfg (outside s') = (case res of Inl e \<Rightarrow> t' | Inr st \<Rightarrow> snd (thread_run invoke g (others v) t')))"
proof -
  have c: "0 \<le> c" using cons by (simp add: reads_within_def)
  from shared_event_stream.streams [OF es rest inv] obtain evs d v' where
    pulls: "pulls srv (outside s) evs d (case res of Inl e \<Rightarrow> Inl e | Inr st \<Rightarrow> Inr ()) v'" and
    d: "d \<le> turn_time" "length (token_texts evs) \<le> tokens" and
    v': "at_rest v'" "thread cfg v' = t'" unfolding srv by blast
  let ?t2 = "snd (thread_run invoke g (others v') t')"
  from shared_event_stream.reads_latest [OF es v'(1), of g inp cfg] obtain d2 v2 where
    read: "sv_state srv v' = (d2, Inr (messages (fst (thread cfg v2))), v2)" "0 \<le> d2" "d2 \<le> read_time" and
    v2: "at_rest v2" "thread cfg v2 = ?t2" unfolding srv v' by blast
  note read = read [unfolded v2(2)]
  let ?ts = "token_texts evs"
  have n: "of_nat (length ?ts) * c \<le> of_nat tokens * c" using d(2) c by (intro mult_right_mono) simp_all
  with read d time have "clock s + d + of_nat (length ?ts) * c < clock s + tmo" by linarith
  from consume_pulls [OF pulls cons refl this] obtain d1 where
    d1: "0 \<le> d1" "d1 \<le> of_nat (length ?ts) * c" and
    loop: "consume srv (clock s + tmo) s = Some (case res of Inl e \<Rightarrow> Inl e | Inr st \<Rightarrow> Inr (),
      s\<lparr>clock := clock s + d + d1, outside := v', lines := lines s @ map token_line ?ts\<rparr>)" by blast
  let ?s1 = "s\<lparr>clock := clock s + d + d1, outside := v', lines := lines s @ map token_line ?ts\<rparr>"
  have last_c: "of_nat (Suc tokens) * c = of_nat tokens * c + c" by (simp add: algebra_simps)
  show ?thesis
  proof (cases res)
    case (Inl e)
    let ?line = "format_sse_event (build_error_event (classify_error e))"
    let ?s2 = "?s1\<lparr>stream_log := stream_log ?s1 @ [(tid, uid, type_name e, tr)]\<rparr>"
    from yield_within [OF cons, of ?line ?s2] obtain d3 where "0 \<le> d3" "d3 \<le> c"
      "yield_line srv ?line ?s2 = (Inr (), ?s2\<lparr>clock := clock ?s2 + d3, lines := lines ?s2 @ [?line]\<rparr>)" by blast
    with Inl loop exc [OF Inl] d d1 n v' read show ?thesis
      unfolding last_c
      by (intro exI [of _ "(Inl e, ?s1)"] exI [of _ "?s2\<lparr>clock := clock ?s2 + d3, lines := lines ?s2 @ [?line]\<rparr>"]
          conjI exI [of _ v'] exI [of _ ?ts])
        (simp_all add: stream_body_def handle_failure_def last_event_def)
  next
    case (Inr st)
    let ?line = "format_sse_event (build_done_event tid (extract_final_text (messages (fst ?t2))))"
    let ?s2 = "?s1\<lparr>clock := clock ?s1 + d2, outside := v2\<rparr>"
    have wait: "wait_for (sv_abandon srv) (sv_state srv) (clock s + tmo - clock ?s1) ?s1 =
        (Inr (messages (fst ?t2)), ?s2)"
      using read d d1 n time by (simp add: wait_for_def)
    from yield_within [OF cons, of ?line ?s2] obtain d3 where d3: "0 \<le> d3" "d3 \<le> c"
      "yield_line srv ?line ?s2 = (Inr (), ?s2\<lparr>clock := clock ?s2 + d3, lines := lines ?s2 @ [?line]\<rparr>)" by blast
    have "\<not> clock s + tmo - clock ?s1 \<le> 0" using d d1 n time read by simp
    with Inr loop wait d3 read d d1 n v' v2 show ?thesis
      unfolding last_c
      by (intro exI [of _ "(Inr (), ?s2\<lparr>clock := clock ?s2 + d3, lines := lines ?s2 @ [?line]\<rparr>)"]
          exI [of _ "?s2\<lparr>clock := clock ?s2 + d3, lines := lines ?s2 @ [?line]\<rparr>"] conjI exI [of _ v'] exI [of _ ?ts])
        (simp_all add: stream_body_def handle_failure_def finish_stream_def bind_p_def last_event_def)
  qed
qed

lemma stream_chat_events_ends:
  assumes "\<And>tr. \<exists>rs s1. stream_body (stream_server open_stream sha256_hex message tid uid) (clock s + tmo) tid
      (request_span sha256_hex tid uid s) = Some rs \<and>
    handle_failure (stream_server open_stream sha256_hex message tid uid) tid uid tr rs = (Inr (), s1) \<and> P s1"
  shows "\<exists>ctx' s1. stream_chat_events open_stream sha256_hex span_id message tid uid tmo (ctx, s) =
    Some (Inr (), (ctx', end_span (length (spans s)) s1)) \<and> P s1"
proof -
  let ?tr = "case span_id of None \<Rightarrow> ctx (py ''trace_id'') | Some n \<Rightarrow> Some (hex_pad 32 n)"
  from assms [of ?tr] obtain rs s1 where
    run: "stream_body (stream_server open_stream sha256_hex message tid uid) (clock s + tmo) tid
      (request_span sha256_hex tid uid s) = Some rs"
    "handle_failure (stream_server open_stream sha256_hex message tid uid) tid uid ?tr rs = (Inr (), s1)"
    and P: "P s1" by blast
  have "\<exists>ctx'. stream_chat_events open_stream sha256_hex span_id message tid uid tmo (ctx, s) =
      Some (Inr (), (ctx', end_span (length (spans s)) s1))"
    using run by (cases span_id)
      (simp_all add: stream_chat_events_def stream_server_def in_span_def bind_trace_id_def
        guarded_body_def Let_def del: py_simps)
  with P show ?thesis by blast
qed

text \<open>The whole generator, given what \<open>invoke\<close> makes of its turn.\<close>

lemma stream_of_turn:
  assumes es: "shared_event_stream invoke limit add tc open_stream thread at_rest turn_time read_time tokens others"
    and cfg: "cfg = run_config_of sha256_hex tid uid" and rest: "at_rest (outside s)"
    and cons: "reads_within c (open_stream g (initial_state message uid) cfg)"
    and time: "turn_time + read_time + of_nat tokens * c < tmo"
    and inv: "invoke g (initial_state message uid) (thread cfg (outside s)) = (res, t')"
    and exc: "\<And>e. res = Inl e \<Longrightarrow> is_Exception e"
  shows "\<exists>v ts ctx' s'. at_rest v \<and> thread cfg v = t' \<and>
    stream_chat_events (open_stream g) sha256_hex span_id message tid uid tmo (ctx, s) = Some (Inr (), (ctx', s')) \<and>
    lines s' = lines s @ map token_line ts @ [format_sse_event (last_event tid (case res of Inl e \<Rightarrow> Inl e
      | Inr st \<Rightarrow> Inr (extract_final_text (messages (fst (snd (thread_run invoke g (others v) t')))))))] \<and>
    clock s' \<le> clock s + turn_time + read_time + of_nat (Suc tokens) * c \<and> at_rest (outside s') \<and>
    thread cfg (outside s') = (case res of Inl e \<Rightarrow> t' | Inr st \<Rightarrow> snd (thread_run invoke g (others v) t'))"
proof -
  let ?s = "request_span sha256_hex tid uid s"
  let ?srv = "stream_server (open_stream g) sha256_hex message tid uid"
  have srv: "?srv = open_stream g (initial_state message uid) cfg" by (simp add: stream_server_def cfg)
  have rest': "at_rest (outside ?s)" "thread cfg (outside ?s) = thread cfg (outside s)" using rest by simp_all
  let ?P = "\<lambda>s1. \<exists>v ts. at_rest v \<and> thread cfg v = t' \<and>
    lines s1 = lines s @ map token_line ts @ [format_sse_event (last_event tid (case res of Inl e \<Rightarrow> Inl e
      | Inr st \<Rightarrow> Inr (extract_final_text (messages (fst (snd (thread_run invoke g (others v) t')))))))] \<and>
    clock s1 \<le> clock s + turn_time + read_time + of_nat (Suc tokens) * c \<and> at_rest (outside s1) \<and>
    thread cfg (outside s1) = (case res of Inl e \<Rightarrow> t' | Inr st \<Rightarrow> snd (thread_run invoke g (others v) t'))"
  have "\<exists>rs s1. stream_body ?srv (clock s + tmo) tid ?s = Some rs \<and>
      handle_failure ?srv tid uid tr rs = (Inr (), s1) \<and> ?P s1" for tr
    using stream_of_invocation [where s = ?s and tid = tid and uid = uid and tr = tr,
        OF es srv rest'(1) cons [folded srv] time inv [folded rest'(2)] exc]
    unfolding open_span_simps .
  from stream_chat_events_ends [of _ _ _ _ _ s tmo ?P, OF this] obtain ctx' s1 where
    run: "stream_chat_events (open_stream g) sha256_hex span_id message tid uid tmo (ctx, s) =
      Some (Inr (), (ctx', end_span (length (spans s)) s1))" and P: "?P s1" by blast
  from P obtain v ts where "at_rest v" "thread cfg v = t'"
    "lines s1 = lines s @ map token_line ts @ [format_sse_event (last_event tid (case res of Inl e \<Rightarrow> Inl e
      | Inr st \<Rightarrow> Inr (extract_final_text (messages (fst (snd (thread_run invoke g (others v) t')))))))]"
    "clock s1 \<le> clock s + turn_time + read_time + of_nat (Suc tokens) * c" "at_rest (outside s1)"
    "thread cfg (outside s1) = (case res of Inl e \<Rightarrow> t' | Inr st \<Rightarrow> snd (thread_run invoke g (others v) t'))"
    by blast
  with run show ?thesis
    by (intro exI [of _ v] exI [of _ ts] exI [of _ ctx'] exI [of _ "end_span (length (spans s)) s1"]) simp
qed

section \<open>Properties\<close>

text \<open>Every turn is answered in time. Let the graph run behind the generator, on a thread at rest, with
  a model and tools that fail by ordinary exceptions only and a consumer that takes each line within
  the time \<open>c\<close>. If the timeout leaves room for the time of a turn, of reading its state and of the
  consumer with the tokens of a turn, the generator returns within that time (and the consumer's
  time for the last line), after token lines, with exactly one event of this turn: the refusal if the guardrails
  refuse the message, the error event of the guard's exception if they fail on it, and otherwise the
  final answer of the model, the budget message, or the error event of the exception the model or
  the tools raised. The thread is then at rest in the state \<open>invoke\<close> leaves it in.\<close>

theorem turn_is_answered_in_time:
  fixes open_stream :: "'w graph \<Rightarrow> update \<Rightarrow> run_config \<Rightarrow> 'v server"
  assumes "event_stream invoke limit add tc open_stream thread at_rest turn_time read_time tokens"
    and "13 \<le> limit" and "unicode_db U"
    and "agent_parts (\<lambda>m. is_ai m \<and> says m) answers fails llm tn" and "\<forall>e. fails e \<longrightarrow> is_Exception e"
    and "cfg = run_config_of sha256_hex tid uid"
    and "at_rest (outside s)" and "0 \<le> rounds (fst (thread cfg (outside s)))"
    and "reads_within c (open_stream (agent_graph U tc tn llm) (initial_state message uid) cfg)"
    and "turn_time + read_time + of_nat tokens * c < tmo"
  shows "\<exists>ts outcome ctx' s'.
    stream_chat_events (open_stream (agent_graph U tc tn llm)) sha256_hex span_id message tid uid tmo (ctx, s) =
      Some (Inr (), (ctx', s')) \<and>
    lines s' = lines s @ map token_line ts @ [format_sse_event (last_event tid outcome)] \<and>
    (case run_input_guardrails U message MAX_INPUT_LENGTH of
       Inl e \<Rightarrow> outcome = Inl e | Inr verdict \<Rightarrow> told says fails verdict outcome) \<and>
    clock s' \<le> clock s + turn_time + read_time + of_nat (Suc tokens) * c \<and> at_rest (outside s') \<and>
    thread cfg (outside s') = snd (invoke (agent_graph U tc tn llm) (initial_state message uid)
      (thread cfg (outside s)))"
proof -
  let ?g = "agent_graph U tc tn llm"
  from assms(1) have lang: "langgraph invoke limit add tc" by (rule event_stream.axioms(1))
  obtain st w where t: "thread cfg (outside s) = (st, w)" by fastforce
  obtain res st' w' where inv: "invoke ?g (initial_state message uid) (st, w) = (res, (st', w'))"
    by (metis prod.collapse)
  let ?outcome = "case res of Inl e \<Rightarrow> Inl e | Inr x \<Rightarrow> Inr (extract_final_text (messages st'))"
  have outcome: "case run_input_guardrails U message MAX_INPUT_LENGTH of
      Inl e \<Rightarrow> ?outcome = Inl e | Inr verdict \<Rightarrow> told says fails verdict ?outcome"
  proof (cases "run_input_guardrails U message MAX_INPUT_LENGTH")
    case (Inl e)
    with langgraph.invoke_raises [OF lang, of U "initial_state message uid" st e tn llm w] assms(2) inv
    show ?thesis by (simp add: latest_text_applied [OF lang])
  next
    case (Inr verdict)
    from invocation_outcome [OF lang assms(2) _ Inr assms(4), of st uid w] assms(8) inv Inr t
    show ?thesis by auto
  qed
  have exc: "is_Exception e" if "res = Inl e" for e
    using outcome that assms(5) unicode_db.check_pii_error_iff [OF assms(3)]
    by (auto simp: told_def run_input_guardrails_eq bindE_eq_Inl_iff int_value_error_def
        split: sum.splits if_splits)
  have inv': "invoke ?g (initial_state message uid) (thread cfg (outside s)) = (res, (st', w'))" using inv t by simp
  from stream_of_turn [where ctx = ctx and span_id = span_id, OF event_stream.alone_shared [OF assms(1)]
      assms(6,7,9,10) inv' exc]
  obtain ts ctx' s' where
    "stream_chat_events (open_stream ?g) sha256_hex span_id message tid uid tmo (ctx, s) = Some (Inr (), (ctx', s'))"
    "lines s' = lines s @ map token_line ts @ [format_sse_event (last_event tid ?outcome)]"
    "clock s' \<le> clock s + turn_time + read_time + of_nat (Suc tokens) * c" "at_rest (outside s')"
    "thread cfg (outside s') = (st', w')" by (auto split: sum.splits)
  with outcome show ?thesis unfolding t inv snd_conv
    by (intro exI [of _ ts] exI [of _ ?outcome] exI [of _ ctx'] exI [of _ s']) simp
qed


text \<open>An example: a model that answers at once.\<close>

definition answering_model :: "nat language_model" where
  "answering_model x w = (Inr (ai_text (py ''oui'')), w + 1)"

abbreviation answering_graph :: "nat graph" where
  "answering_graph \<equiv> agent_graph latin1_db tools_condition_ref example_tools answering_model"

lemma answering_parts:
  "agent_parts (\<lambda>m. calls_at_most 1 m \<and> m = ai_text (py ''oui'')) answers_calls (\<lambda>_. False)
    answering_model example_tools"
  by (simp add: agent_parts_def answering_model_def example_tools_def answers_calls_def calls_at_most_def
      list_all2_map2 list_all2_same)

text \<open>An example: the reference runtime with a model that never stops asking for the tool.\<close>

definition one_event :: "nat run \<Rightarrow> stream_event \<times> stream_event list" where
  "one_event c = (\<lparr>ev_name = py ''on_chain_end'', ev_content = None\<rparr>, [])"

definition host_start :: "nat host stream" where
  "host_start = \<lparr>clock = 0, outside = \<lparr>checkpoints = (\<lambda>_. empty_channels), host_world = 0, live = None\<rparr>,
     lines = [], stream_log = [], spans = []\<rparr>"

theorem turn_is_answered_in_time_witness:
  "\<exists>ts outcome ctx' s'.
    stream_chat_events (host_server 25 (@) 1 0 one_event insisting_graph) (\<lambda>x. x) None
      (py ''jailbreak'') (py ''t'') (py ''u'') 120 ((\<lambda>_. None), host_start) = Some (Inr (), (ctx', s')) \<and>
    lines s' = map token_line ts @ [format_sse_event (build_done_event (py ''t'') REFUSAL_MESSAGE_FR)] \<and>
    clock s' \<le> 26"
proof -
  let ?cfg = "run_config_of (\<lambda>x. x) (py ''t'') (py ''u'')"
  obtain r r' where "run_input_guardrails latin1_db (py ''bonjour'') MAX_INPUT_LENGTH = Inr r" "gr_ok r"
    and no: "run_input_guardrails latin1_db (py ''jailbreak'') MAX_INPUT_LENGTH = Inr r'" "\<not> gr_ok r'"
    by (rule example_verdicts)
  have parts: "agent_parts (\<lambda>m. is_ai m \<and> True) answers_calls (\<lambda>_. False) insisting_model example_tools"
    using example_parts by simp
  have rest: "live (outside host_start) = None" by (simp add: host_start_def)
  have nn: "0 \<le> rounds (fst (host_thread ?cfg (outside host_start)))"
    by (simp add: host_thread_def host_start_def empty_channels_def rounds_def)
  have cons: "reads_within 0 (host_server 25 (@) 1 0 one_event insisting_graph
      (initial_state (py ''jailbreak'') (py ''u'')) ?cfg)"
    by (simp add: reads_within_def host_server_def)
  have time: "of_nat (25 * 1) + of_nat 1 + of_nat (25 * Suc 0) * 0 < (120 :: rat)" by simp
  from turn_is_answered_in_time [OF host.event_stream_axioms [of 25 1 0 one_event] _ latin1.unicode_db_axioms
      parts _ refl rest nn cons time, of None "\<lambda>_. None"]
  obtain ts outcome ctx' s' where
    "stream_chat_events (host_server 25 (@) 1 0 one_event insisting_graph) (\<lambda>x. x) None
      (py ''jailbreak'') (py ''t'') (py ''u'') 120 ((\<lambda>_. None), host_start) = Some (Inr (), (ctx', s'))"
    "lines s' = lines host_start @ map token_line ts @ [format_sse_event (last_event (py ''t'') outcome)]"
    "told (\<lambda>_. True) (\<lambda>_. False) r' outcome"
    "clock s' \<le> clock host_start + of_nat (25 * 1) + of_nat 1 + of_nat (Suc (25 * Suc 0)) * 0" unfolding no by auto
  with no(2) show ?thesis
    by (intro exI [of _ ts] exI [of _ outcome] exI [of _ ctx'] exI [of _ s'])
      (simp add: told_def last_event_def host_start_def del: py_simps)
qed

end
