(* ===== verification/Shared.thy ===== *)
theory Shared
  imports Turn
begin

text \<open>
  Two requests on one thread. Nothing in \<open>chat.py\<close> keeps two requests that name the same thread apart:
  when the run of a request is over, the generator asks for the latest state of the thread
  (\<open>aget_state\<close>) and tells its client the final text of that state. \<open>shared_event_stream\<close> (Turn) is the
  runtime on which other turns may run on the thread in between, \<open>busy_server\<close> an instance, and
  \<open>done_tells_the_latest_turn\<close> says whose outcome the client is told.
\<close>

section \<open>A busy runtime\<close>

text \<open>
  The reference runtime on which, before the state of a thread is read, the turns \<open>others\<close> are run on
  the thread.
\<close>

definition busy_state ::
  "nat \<Rightarrow> add_messages \<Rightarrow> nat \<Rightarrow> ('w host \<Rightarrow> (pystr \<times> pystr) list) \<Rightarrow> 'w graph \<Rightarrow> run_config \<Rightarrow>
     'w host \<Rightarrow> rat \<times> (exn + message list) \<times> 'w host" where
  "busy_state limit add d others g cfg v =
     (case snd (thread_run (invoke_ref limit add) g (others v) (host_thread cfg v)) of
        (st, w) \<Rightarrow> (of_nat d, Inr (messages st),
          v\<lparr>checkpoints := (checkpoints v)(rc_thread_id cfg := st), host_world := w\<rparr>))"

definition busy_server ::
  "nat \<Rightarrow> add_messages \<Rightarrow> nat \<Rightarrow> nat \<Rightarrow> ('w run \<Rightarrow> stream_event \<times> stream_event list) \<Rightarrow>
     ('w host \<Rightarrow> (pystr \<times> pystr) list) \<Rightarrow> 'w graph \<Rightarrow> update \<Rightarrow> run_config \<Rightarrow> 'w host server" where
  "busy_server limit add d b plan others g inp cfg =
     (host_server limit add d b plan g inp cfg)\<lparr>sv_state := busy_state limit add d others g cfg\<rparr>"

lemma pulls_cong:
  "pulls srv v evs d r v' \<Longrightarrow> sv_pull srv' = sv_pull srv \<Longrightarrow> pulls srv' v evs d r v'"
  by (induction rule: pulls.induct) (auto intro: pulls.intros)

interpretation busy: shared_event_stream "invoke_ref limit (@)" limit "(@)" tools_condition_ref
  "busy_server limit (@) d b plan others" host_thread "\<lambda>v. live v = None" "of_nat (limit * d)" "of_nat d"
  "limit * Suc b" others
  for limit d b plan others
proof (unfold_locales, goal_cases)
  case (1 v g inp cfg res t')
  note host.streams [where g = g and inp = inp and cfg = cfg and d = d and b = b and plan = plan, OF 1]
  then show ?case by (fastforce simp: busy_server_def simp del: of_nat_mult elim: pulls_cong)
next
  case (2 v g inp cfg)
  obtain st w where "snd (thread_run (invoke_ref limit (@)) g (others v) (host_thread cfg v)) = (st, w)" by force
  with 2 show ?case by (auto simp: busy_server_def busy_state_def host_thread_def)
qed

section \<open>Whose outcome is told\<close>

text \<open>The final text of a thread whose last turn was on \<open>message\<close>, when neither the model nor the tools raise.\<close>

lemma thread_final_text:
  assumes lang: "langgraph invoke limit add tc" and lim: "13 \<le> limit" and "0 \<le> rounds (fst t)"
    and parts: "agent_parts (\<lambda>m. is_ai m \<and> says m) answers (\<lambda>_. False) llm tn"
    and verdict: "run_input_guardrails U message MAX_INPUT_LENGTH = Inr verdict"
  shows "told says (\<lambda>_. False) verdict (Inr (extract_final_text (messages (fst (snd
    (thread_run invoke (agent_graph U tc tn llm) (turns @ [(message, uid)]) t))))))"
proof -
  let ?g = "agent_graph U tc tn llm"
  obtain st w where t1: "snd (thread_run invoke ?g turns t) = (st, w)" by force
  with thread_rounds [OF lang lim assms(3), of U tn llm turns] have "0 \<le> rounds st" by simp
  from invocation_final_text [OF lang lim this verdict parts, of uid w] obtain st' w' where
    inv: "invoke ?g (initial_state message uid) (st, w) = (Inr st', (st', w'))" and
    final: "if gr_ok verdict
     then extract_final_text (messages st') = BUDGET_EXCEEDED_MESSAGE_FR \<or>
       (\<exists>m. says m \<and> tool_calls m = [] \<and> extract_final_text (messages st') = content_text (msg_content m))
     else extract_final_text (messages st') = REFUSAL_MESSAGE_FR" by blast
  have "snd (thread_run invoke ?g (turns @ [(message, uid)]) t) = (st', w')"
    unfolding thread_run_append t1 by (simp add: inv)
  with final show ?thesis by (auto simp: told_def split: if_splits)
qed

section \<open>Properties\<close>

text \<open>C4. Mixed answers: let other requests take turns on the thread after the run of a request and
  before its generator reads the state of the thread, the last of them on \<open>message'\<close>; neither the
  model nor the tools raise. Then the client of the request is told the outcome of \<open>message'\<close> in its
  \<open>done\<close> event, not that of its own message: the refusal if the guardrails refuse \<open>message'\<close>, even if
  its own message was answered, and the answer to \<open>message'\<close> (or the budget message) if they admit it,
  even if its own message was refused.\<close>

theorem done_tells_the_latest_turn:
  fixes open_stream :: "'w graph \<Rightarrow> update \<Rightarrow> run_config \<Rightarrow> 'v server"
  assumes "shared_event_stream invoke limit add tc open_stream thread at_rest turn_time read_time tokens others"
    and "13 \<le> limit" and "agent_parts (\<lambda>m. is_ai m \<and> says m) answers (\<lambda>_. False) llm tn"
    and "cfg = run_config_of sha256_hex tid uid"
    and "at_rest (outside s)" and "0 \<le> rounds (fst (thread cfg (outside s)))"
    and "reads_within c (open_stream (agent_graph U tc tn llm) (initial_state message uid) cfg)"
    and "turn_time + read_time + of_nat tokens * c < tmo"
    and "run_input_guardrails U message MAX_INPUT_LENGTH = Inr own"
    and "run_input_guardrails U message' MAX_INPUT_LENGTH = Inr verdict"
    and "\<And>v. at_rest v \<Longrightarrow> thread cfg v = snd (invoke (agent_graph U tc tn llm) (initial_state message uid)
      (thread cfg (outside s))) \<Longrightarrow> \<exists>turns uid'. others v = turns @ [(message', uid')]"
  shows "\<exists>ts answer ctx' s'.
    stream_chat_events (open_stream (agent_graph U tc tn llm)) sha256_hex span_id message tid uid tmo (ctx, s) =
      Some (Inr (), (ctx', s')) \<and>
    lines s' = lines s @ map token_line ts @ [format_sse_event (build_done_event tid answer)] \<and>
    told says (\<lambda>_. False) verdict (Inr answer) \<and>
    answer = extract_final_text (messages (fst (thread cfg (outside s'))))"
proof -
  let ?g = "agent_graph U tc tn llm"
  from assms(1) have lang: "langgraph invoke limit add tc" by (rule shared_event_stream.axioms(1))
  obtain st w where t: "thread cfg (outside s) = (st, w)" by force
  with assms(6) have nn: "0 \<le> rounds st" by simp
  from invocation_final_text [OF lang assms(2) nn assms(9,3), of uid w] obtain st' w' where
    inv: "invoke ?g (initial_state message uid) (st, w) = (Inr st', (st', w'))" by blast
  have nn': "0 \<le> rounds (fst (st', w'))" using invocation_rounds [OF lang assms(2) nn inv] by simp
  note inv' = inv [folded t]
  have exc: "is_Exception e" if "(Inr st' :: exn + agent_state) = Inl e" for e using that by simp
  from stream_of_turn [where ctx = ctx and span_id = span_id, OF assms(1,4,5,7,8) inv' exc]
  obtain v ts ctx' s' where v: "at_rest v" "thread cfg v = (st', w')" and
    run: "stream_chat_events (open_stream ?g) sha256_hex span_id message tid uid tmo (ctx, s) = Some (Inr (), (ctx', s'))"
      "lines s' = lines s @ map token_line ts @ [format_sse_event (build_done_event tid
        (extract_final_text (messages (fst (snd (thread_run invoke ?g (others v) (st', w')))))))]"
      "thread cfg (outside s') = snd (thread_run invoke ?g (others v) (st', w'))"
    by (auto simp: last_event_def)
  from assms(11) [OF v(1)] v(2) inv' obtain turns uid' where others: "others v = turns @ [(message', uid')]" by auto
  from thread_final_text [OF lang assms(2) nn' assms(3,10), of turns uid'] run show ?thesis
    unfolding others by (intro exI conjI) (assumption | simp)+
qed

theorem done_tells_the_latest_turn_witness:
  "\<exists>ts ctx' s'.
    stream_chat_events (busy_server 25 (@) 1 0 one_event (\<lambda>_. [(py ''jailbreak'', py ''v'')]) answering_graph)
      (\<lambda>x. x) None (py ''bonjour'') (py ''t'') (py ''u'') 120 ((\<lambda>_. None), host_start) = Some (Inr (), (ctx', s')) \<and>
    lines s' = map token_line ts @ [format_sse_event (build_done_event (py ''t'') REFUSAL_MESSAGE_FR)]"
proof -
  let ?cfg = "run_config_of (\<lambda>x. x) (py ''t'') (py ''u'')" and ?others = "\<lambda>_. [(py ''jailbreak'', py ''v'')]"
  obtain r r' where yes: "run_input_guardrails latin1_db (py ''bonjour'') MAX_INPUT_LENGTH = Inr r" "gr_ok r"
    and no: "run_input_guardrails latin1_db (py ''jailbreak'') MAX_INPUT_LENGTH = Inr r'" "\<not> gr_ok r'"
    by (rule example_verdicts)
  have parts: "agent_parts (\<lambda>m. is_ai m \<and> m = ai_text (py ''oui'')) answers_calls (\<lambda>_. False) answering_model example_tools"
    by (rule agent_parts_mono [OF answering_parts]) (simp_all add: calls_at_most_def)
  have rest: "live (outside host_start) = None" by (simp add: host_start_def)
  have nn: "0 \<le> rounds (fst (host_thread ?cfg (outside host_start)))"
    by (simp add: host_thread_def host_start_def empty_channels_def rounds_def)
  have cons: "reads_within 0 (busy_server 25 (@) 1 0 one_event ?others answering_graph
      (initial_state (py ''bonjour'') (py ''u'')) ?cfg)"
    by (simp add: reads_within_def busy_server_def host_server_def)
  have time: "of_nat (25 * 1) + of_nat 1 + of_nat (25 * Suc 0) * 0 < (120 :: rat)" by simp
  have others: "\<exists>turns uid'. ?others v = turns @ [(py ''jailbreak'', uid')]" for v :: "nat host" by simp
  from done_tells_the_latest_turn [OF busy.shared_event_stream_axioms [of 25 1 0 one_event ?others] _
      parts refl rest nn cons time yes(1) no(1) others, of None "\<lambda>_. None"]
  obtain ts answer ctx' s' where
    "stream_chat_events (busy_server 25 (@) 1 0 one_event ?others answering_graph) (\<lambda>x. x) None
      (py ''bonjour'') (py ''t'') (py ''u'') 120 ((\<lambda>_. None), host_start) = Some (Inr (), (ctx', s'))"
    "lines s' = lines host_start @ map token_line ts @ [format_sse_event (build_done_event (py ''t'') answer)]"
    "told (\<lambda>m. m = ai_text (py ''oui'')) (\<lambda>_. False) r' (Inr answer)" by auto
  with no(2) show ?thesis
    by (intro exI [of _ ts] exI [of _ ctx'] exI [of _ s'])
      (simp add: told_def host_start_def del: py_simps)
qed

end
