(* ===== verification/Json.thy ===== *)
theory Json
  imports Sse
begin

text \<open>
  \<open>json.loads\<close> of Python's standard library on a whole document: objects, arrays, strings, numbers,
  the constants (with \<open>NaN\<close> and the infinities Python accepts), white space, and the rejection of
  a byte order mark and of text after the value. The strings are those of Sse.

  \<open>json_indented\<close> is \<open>json.dumps(value, indent=2)\<close>; \<open>json_document_indented\<close> shows that reading it
  gives the value back, \<open>json_value_shorter\<close> that the guards of the recursion never stop it.
\<close>

section \<open>Values\<close>

text \<open>
  An object is the list of its members in the order of the text; a dictionary made of it keeps the
  last value of a key. A number with a fraction or an exponent is kept as its literal.
\<close>

datatype json =
  JNull
| JBool bool
| JInt int
| JFloat pystr
| JString pystr
| JArray "json list"
| JObject "(pystr \<times> json) list"

definition dict_get :: "(pystr \<times> json) list \<Rightarrow> pystr \<Rightarrow> json option" where
  "dict_get kvs k = map_of (rev kvs) k"

section \<open>Reading\<close>

definition digit_run :: "pystr \<Rightarrow> pystr" where
  "digit_run s = takeWhile (\<lambda>c. 48 \<le> c \<and> c \<le> 57) s"

text \<open>The integer part, the fraction and the exponent of a number, each with the text after it.\<close>

definition integer_part :: "pystr \<Rightarrow> (pystr \<times> pystr) option" where
  "integer_part s =
     (case digit_run s of
        [] \<Rightarrow> None
      | d # ds \<Rightarrow> if d = 48 then Some ([48], drop 1 s) else Some (d # ds, drop (length (d # ds)) s))"

definition fraction_part :: "pystr \<Rightarrow> pystr \<times> pystr" where
  "fraction_part s =
     (case s of
        [] \<Rightarrow> ([], s)
      | c # r \<Rightarrow> if c = 46 \<and> digit_run r \<noteq> []
          then (c # digit_run r, drop (length (digit_run r)) r) else ([], s))"

definition exponent_part :: "pystr \<Rightarrow> pystr \<times> pystr" where
  "exponent_part s =
     (case s of
        [] \<Rightarrow> ([], s)
      | c # r \<Rightarrow>
          let sign = (if r \<noteq> [] \<and> hd r \<in> {43, 45} then [hd r] else []);
              ds = digit_run (drop (length sign) r)
          in if c \<in> {101, 69} \<and> ds \<noteq> []
             then (c # sign @ ds, drop (length sign + length ds) r) else ([], s))"

definition digits_int :: "pystr \<Rightarrow> int" where
  "digits_int ds = foldl (\<lambda>n d. 10 * n + (d - 48)) 0 ds"

definition json_number :: "pystr \<Rightarrow> (json \<times> pystr) option" where
  "json_number s =
     (let sign = (if startswith s [45] then [45] else []) in
      Option.bind (integer_part (drop (length sign) s)) (\<lambda>(i, r).
        case fraction_part r of (f, r1) \<Rightarrow>
        case exponent_part r1 of (e, r2) \<Rightarrow>
          Some (if f = [] \<and> e = [] then JInt (if sign = [] then digits_int i else - digits_int i)
                else JFloat (sign @ i @ f @ e), r2)))"

text \<open>The constants, tried before numbers.\<close>

definition json_constants :: "(pystr \<times> json) list" where
  "json_constants =
     [(py ''null'', JNull), (py ''true'', JBool True), (py ''false'', JBool False),
      (py ''NaN'', JFloat (py ''NaN'')), (py ''Infinity'', JFloat (py ''Infinity'')),
      (py ''-Infinity'', JFloat (py ''-Infinity''))]"

definition json_atom :: "pystr \<Rightarrow> (json \<times> pystr) option" where
  "json_atom s =
     (case find (\<lambda>(p, j). startswith s p) json_constants of
        Some (p, j) \<Rightarrow> Some (j, drop (length p) s)
      | None \<Rightarrow> json_number s)"

text \<open>Skipping white space leaves no more text than there was.\<close>

lemma skip_blanks_length: "length (skip_blanks s) \<le> length s"
  by (simp add: skip_blanks_def length_dropWhile_le)

lemma skip_blanks_shorter: "length r < n \<Longrightarrow> length (skip_blanks r) < n"
  using skip_blanks_length [of r] by linarith

lemma skip_blanks_Cons: "skip_blanks s = d # q \<Longrightarrow> length q < length s"
  using skip_blanks_length [of s] by simp

function json_value :: "pystr \<Rightarrow> (json \<times> pystr) option"
  and json_items :: "pystr \<Rightarrow> (json list \<times> pystr) option"
  and json_members :: "pystr \<Rightarrow> ((pystr \<times> json) list \<times> pystr) option" where
  "json_value s =
     (case s of
        [] \<Rightarrow> None
      | c # r \<Rightarrow>
          if c = 34 then map_option (\<lambda>(t, q). (JString t, q)) (string_body r)
          else if c = 91 then
            (case skip_blanks r of
               [] \<Rightarrow> None
             | d # q \<Rightarrow> if d = 93 then Some (JArray [], q)
                 else map_option (\<lambda>(vs, q). (JArray vs, q)) (json_items (skip_blanks r)))
          else if c = 123 then
            (case skip_blanks r of
               [] \<Rightarrow> None
             | d # q \<Rightarrow> if d = 125 then Some (JObject [], q)
                 else map_option (\<lambda>(kvs, q). (JObject kvs, q)) (json_members (skip_blanks r)))
          else json_atom s)"
| "json_items s =
     (case json_value s of
        None \<Rightarrow> None
      | Some (v, r) \<Rightarrow>
          (case skip_blanks r of
             [] \<Rightarrow> None
           | d # q \<Rightarrow>
               if d = 93 then Some ([v], q)
               else if d = 44 \<and> length q < length s
               then map_option (\<lambda>(vs, q). (v # vs, q)) (json_items (skip_blanks q))
               else None))"
| "json_members s =
     Option.bind (expect [34] s) (\<lambda>s1.
     Option.bind (string_body s1) (\<lambda>(k, s2).
     Option.bind (expect [58] (skip_blanks s2)) (\<lambda>s3.
       if length (skip_blanks s3) < length s then
         (case json_value (skip_blanks s3) of
            None \<Rightarrow> None
          | Some (v, r) \<Rightarrow>
              (case skip_blanks r of
                 [] \<Rightarrow> None
               | d # q \<Rightarrow>
                   if d = 125 then Some ([(k, v)], q)
                   else if d = 44 \<and> length q < length s
                   then map_option (\<lambda>(kvs, q). ((k, v) # kvs, q)) (json_members (skip_blanks q))
                   else None))
       else None)))"
  by pat_completeness auto

termination
  by (relation "measure (\<lambda>x. case x of Inl s \<Rightarrow> 2 * length s | Inr (Inl s) \<Rightarrow> 2 * length s + 1
        | Inr (Inr s) \<Rightarrow> 2 * length s + 1)")
    (auto simp: skip_blanks_shorter dest: skip_blanks_Cons)

declare json_value.simps [simp del] json_items.simps [simp del] json_members.simps [simp del]

text \<open>\<open>json.loads(text)\<close>: nothing but white space around the value, no byte order mark.\<close>

definition json_document :: "pystr \<Rightarrow> json option" where
  "json_document s =
     (if startswith s [65279] then None
      else Option.bind (json_value (skip_blanks s)) (\<lambda>(v, r).
        if skip_blanks r = [] then Some v else None))"

section \<open>The guards of the recursion\<close>

text \<open>What is left of a text that begins with a character is a proper suffix of it.\<close>

lemma u_unit_shorter: "u_unit s = Some (n, r) \<Longrightarrow> length r < length s"
  by (auto simp: u_unit_def split: if_splits)

lemma u_char_shorter: "u_char s = Some (c, r) \<Longrightarrow> length r < length s"
  unfolding u_char_def
  by (auto split: option.splits if_splits prod.splits dest!: u_unit_shorter)

lemma one_char_shorter: "one_char s = Some (c, r) \<Longrightarrow> length r < length s"
  unfolding one_char_def
  by (auto split: list.splits if_splits dest: u_char_shorter)

lemma string_body_shorter: "string_body s = Some (t, r) \<Longrightarrow> length r < length s"
proof (induction s arbitrary: t r rule: measure_induct_rule [where f = length])
  case (less s)
  show ?case
  proof (cases s)
    case Nil
    with less.prems show ?thesis by (simp add: string_body.simps)
  next
    case (Cons c q)
    show ?thesis
    proof (cases "c = 34")
      case True
      with less.prems Cons show ?thesis by (simp add: string_body.simps)
    next
      case False
      with less.prems Cons obtain r' xs where "length r' < length s" "string_body r' = Some (xs, r)"
        by (auto simp: string_body.simps [of "c # q"] split: option.splits if_splits)
      with less.IH show ?thesis using less_trans by blast
    qed
  qed
qed

lemma integer_part_shorter: "integer_part s = Some (i, r) \<Longrightarrow> length r < length s"
  by (cases s) (auto simp: integer_part_def digit_run_def split: list.splits if_splits)

lemma fraction_part_length: "fraction_part s = (f, r) \<Longrightarrow> length r \<le> length s"
  by (auto simp: fraction_part_def split: list.splits if_splits)

lemma exponent_part_length: "exponent_part s = (e, r) \<Longrightarrow> length r \<le> length s"
  by (auto simp: exponent_part_def Let_def split: list.splits if_splits)

lemma json_number_shorter:
  assumes "json_number s = Some (v, r)"
  shows "length r < length s"
proof -
  let ?s = "drop (length (if startswith s [45] then [45] else [] :: pystr)) s"
  obtain i r0 where i: "integer_part ?s = Some (i, r0)"
    using assms by (auto simp: json_number_def Let_def bind_eq_Some_conv)
  obtain f r1 where f: "fraction_part r0 = (f, r1)" by (cases "fraction_part r0")
  obtain e r2 where e: "exponent_part r1 = (e, r2)" by (cases "exponent_part r1")
  from assms i f e have "r = r2" by (simp add: json_number_def Let_def)
  with i f e have "length r0 < length ?s" "length r1 \<le> length r0" "length r \<le> length r1"
    using integer_part_shorter fraction_part_length exponent_part_length by blast+
  then have "length r < length ?s"
    by linarith
  then show ?thesis by simp
qed

lemma json_atom_shorter: "json_atom s = Some (v, r) \<Longrightarrow> length r < length s"
  by (cases s)
    (auto simp: json_atom_def json_constants_def json_number_shorter split: if_splits dest: json_number_shorter)

lemma expect_shorter: "expect [c] s = Some r \<Longrightarrow> length r < length s"
  by (cases s) (auto simp: expect_def split: if_splits)

text \<open>So where the definitions compare lengths, the comparison holds.\<close>

lemma json_value_shorter:
  "json_value s = Some (v, r) \<Longrightarrow> length r < length s"
  "json_items s = Some (vs, r) \<Longrightarrow> length r < length s"
  "json_members s = Some (kvs, r) \<Longrightarrow> length r < length s"
proof (induction s and s and s arbitrary: v r and vs r and kvs r
    rule: json_value_json_items_json_members.induct)
  case (1 s)
  show ?case
  proof (cases s)
    case Nil
    with "1.prems" show ?thesis by (simp add: json_value.simps)
  next
    case (Cons c q)
    note IH = "1.IH" [OF Cons] and v = "1.prems" [unfolded Cons json_value.simps [of "c # q"]]
    consider "c = 34" | "c = 91" | "c = 123" | "c \<noteq> 34" "c \<noteq> 91" "c \<noteq> 123" by blast
    then show ?thesis
    proof cases
      case 1
      with v Cons show ?thesis by (auto dest: string_body_shorter)
    next
      case 2
      with v Cons IH(1) skip_blanks_length [of q] show ?thesis
        by (fastforce split: list.splits if_splits dest: skip_blanks_Cons)
    next
      case 3
      with v Cons IH(2) skip_blanks_length [of q] show ?thesis
        by (fastforce split: list.splits if_splits dest: skip_blanks_Cons)
    next
      case 4
      with v Cons json_atom_shorter [of "c # q" v r] show ?thesis by simp
    qed
  qed
next
  case (2 s)
  note items = "2.prems" [unfolded json_items.simps [of s]]
  from items obtain v r1 d q where v: "json_value s = Some (v, r1)" and d: "skip_blanks r1 = d # q"
    by (auto split: option.splits prod.splits list.splits)
  have q: "length q < length s" using "2.IH"(1) [OF v] skip_blanks_Cons [OF d] by linarith
  show ?case
  proof (cases "d = 93")
    case True
    with items v d q show ?thesis by simp
  next
    case False
    with items v d obtain vs' where "d = 44" "json_items (skip_blanks q) = Some (vs', r)"
      by (auto split: if_splits)
    with "2.IH"(2) [OF v refl d False] q skip_blanks_length [of q] show ?thesis
      by (meson le_less_trans less_trans)
  qed
next
  case (3 s)
  note mem = "3.prems" [unfolded json_members.simps [of s]]
  from mem obtain s1 k s2 s3 where a: "expect [34] s = Some s1" "string_body s1 = Some (k, s2)"
    "expect [58] (skip_blanks s2) = Some s3" by (auto simp: bind_eq_Some_conv)
  with mem obtain v r1 d q where lt: "length (skip_blanks s3) < length s"
    and v: "json_value (skip_blanks s3) = Some (v, r1)" and d: "skip_blanks r1 = d # q"
    by (auto split: if_splits option.splits prod.splits list.splits)
  note IH = "3.IH" [OF a(1,2) refl a(3) lt]
  have q: "length q < length s" using IH(1) [OF v] lt skip_blanks_Cons [OF d] by linarith
  show ?case
  proof (cases "d = 125")
    case True
    with mem a lt v d q show ?thesis by simp
  next
    case False
    with mem a lt v d obtain kvs' where "d = 44" "json_members (skip_blanks q) = Some (kvs', r)"
      by (auto split: if_splits)
    with IH(2) [OF v refl d False] q skip_blanks_length [of q] show ?thesis
      by (meson le_less_trans less_trans)
  qed
qed

section \<open>Writing\<close>

definition newline :: "nat \<Rightarrow> pystr" where
  "newline n = 10 # replicate (2 * n) 32"

fun json_indented :: "nat \<Rightarrow> json \<Rightarrow> pystr" where
  "json_indented n JNull = py ''null''"
| "json_indented n (JBool b) = (if b then py ''true'' else py ''false'')"
| "json_indented n (JInt i) = int_text i"
| "json_indented n (JFloat l) = l"
| "json_indented n (JString s) = json_string s"
| "json_indented n (JArray vs) =
     (if vs = [] then py ''[]''
      else [91] @ newline (Suc n) @ join ([44] @ newline (Suc n)) (map (json_indented (Suc n)) vs) @
        newline n @ [93])"
| "json_indented n (JObject kvs) =
     (if kvs = [] then py ''{}''
      else [123] @ newline (Suc n) @ join ([44] @ newline (Suc n))
          (map (\<lambda>(k, v). json_string k @ py '': '' @ json_indented (Suc n) v) kvs) @
        newline n @ [125])"

text \<open>Values of Unicode scalar texts, without numbers that are not integers.\<close>

fun plain_json :: "json \<Rightarrow> bool" where
  "plain_json JNull = True"
| "plain_json (JBool b) = True"
| "plain_json (JInt i) = True"
| "plain_json (JFloat l) = False"
| "plain_json (JString s) = list_all scalar s"
| "plain_json (JArray vs) = list_all plain_json vs"
| "plain_json (JObject kvs) = list_all (\<lambda>(k, v). list_all scalar k \<and> plain_json v) kvs"

text \<open>What may follow a value.\<close>

definition ends_value :: "pystr \<Rightarrow> bool" where
  "ends_value r \<longleftrightarrow> r = [] \<or> hd r \<in> {10, 44}"

section \<open>Reading inverts writing\<close>

lemma digits_int_snoc: "digits_int (ds @ [d]) = 10 * digits_int ds + (d - 48)"
  by (simp add: digits_int_def)

lemma nat_text_value: "0 \<le> n \<Longrightarrow> digits_int (nat_text n) = n"
proof (induction n rule: nat_text.induct)
  case (1 n)
  then show ?case by (subst nat_text.simps) (auto simp: digits_int_snoc digits_int_def)
qed

lemma nat_text_first:
  assumes "0 \<le> n"
  obtains d ds where "nat_text n = d # ds" "48 \<le> d" "d \<le> 57" "d = 48 \<longrightarrow> n = 0"
proof -
  have "\<exists>d ds. nat_text n = d # ds \<and> 48 \<le> d \<and> d \<le> 57 \<and> (d = 48 \<longrightarrow> n = 0)" using assms
  proof (induction n rule: nat_text.induct)
    case (1 n)
    show ?case
    proof (cases "n < 10")
      case True
      with "1.prems" show ?thesis by (simp add: nat_text.simps [of n])
    next
      case False
      with "1.prems" have "0 \<le> n div 10" by simp
      with False "1.IH" obtain d ds where "nat_text (n div 10) = d # ds" "48 \<le> d" "d \<le> 57" "d = 48 \<longrightarrow> n div 10 = 0"
        by auto
      with False show ?thesis by (auto simp: nat_text.simps [of n])
    qed
  qed
  with that show thesis by blast
qed

lemma digit_run_nat_text:
  assumes "0 \<le> n" and "ends_value r"
  shows "digit_run (nat_text n @ r) = nat_text n"
proof -
  have "takeWhile (\<lambda>c. 48 \<le> c \<and> c \<le> 57) r = []" using assms(2) by (cases r) (auto simp: ends_value_def)
  moreover have "\<forall>c \<in> set (nat_text n). 48 \<le> c \<and> c \<le> 57"
    using nat_text_digits [OF assms(1)] by (auto simp: ascii_digit_def)
  ultimately show ?thesis by (simp add: digit_run_def takeWhile_append2)
qed

lemma json_number_nat_text:
  assumes "0 \<le> n" and "ends_value r"
  shows "integer_part (nat_text n @ r) = Some (nat_text n, r)"
    and "fraction_part r = ([], r)" and "exponent_part r = ([], r)"
proof -
  obtain d ds where d: "nat_text n = d # ds" "d = 48 \<longrightarrow> n = 0" by (rule nat_text_first [OF assms(1)])
  show "integer_part (nat_text n @ r) = Some (nat_text n, r)"
  proof (cases "d = 48")
    case True
    with d have "nat_text n = [48]" by (simp add: nat_text.simps [of 0])
    with digit_run_nat_text [OF assms] show ?thesis by (simp add: integer_part_def)
  next
    case False
    with digit_run_nat_text [OF assms] d show ?thesis by (simp add: integer_part_def)
  qed
  show "fraction_part r = ([], r)" "exponent_part r = ([], r)"
    using assms(2) by (cases r; auto simp: ends_value_def fraction_part_def exponent_part_def)+
qed

lemma json_atom_int:
  assumes "ends_value r"
  shows "json_atom (int_text i @ r) = Some (JInt i, r)"
proof -
  let ?n = "\<bar>i\<bar>"
  obtain d ds where d: "nat_text ?n = d # ds" "48 \<le> d" "d \<le> 57" by (rule nat_text_first [of ?n]) simp_all
  have "int_text i = (if i < 0 then [45] else []) @ nat_text ?n" by (simp add: int_text_def)
  moreover have "find (\<lambda>(p, j). startswith ((if i < 0 then [45] else []) @ nat_text ?n @ r) p) json_constants = None"
    using d by (auto simp: json_constants_def)
  moreover have "json_number ((if i < 0 then [45] else []) @ nat_text ?n @ r) = Some (JInt i, r)"
    using json_number_nat_text [of ?n r] assms d nat_text_value [of ?n]
    by (simp add: json_number_def Let_def)
  ultimately show ?thesis by (simp add: json_atom_def)
qed

lemma indented_first:
  assumes "plain_json j"
  obtains c q where "json_indented n j = c # q" "c \<notin> {9, 10, 13, 32, 93, 125}" "c < 128"
proof -
  have "\<exists>c q. json_indented n j = c # q \<and> c \<notin> {9, 10, 13, 32, 93, 125} \<and> c < 128"
  proof (cases j)
    case (JInt i)
    obtain d ds where "nat_text \<bar>i\<bar> = d # ds" "48 \<le> d" "d \<le> 57" by (rule nat_text_first [of "\<bar>i\<bar>"]) simp_all
    then show ?thesis by (auto simp: JInt int_text_def split: if_splits)
  qed (use assms in \<open>auto simp: json_string_def\<close>)
  with that show thesis by blast
qed

lemma skip_newline: "c \<notin> {9, 10, 13, 32} \<Longrightarrow> skip_blanks (newline n @ c # q) = c # q"
proof -
  assume c: "c \<notin> {9, 10, 13, 32}"
  have "skip_blanks (replicate k 32 @ c # q) = c # q" for k
    using c by (induction k) (simp_all add: skip_blanks_def)
  then show ?thesis by (simp add: newline_def skip_blanks_def)
qed

lemma ends_value_newline [simp]: "ends_value (newline n @ q)" "ends_value (44 # q)" "ends_value []"
  by (simp_all add: ends_value_def newline_def)

lemma json_items_next:
  "json_value s = Some (v, 44 # q) \<Longrightarrow>
    json_items s = map_option (\<lambda>(vs, q). (v # vs, q)) (json_items (skip_blanks q))"
  using json_value_shorter(1) [of s v "44 # q"] by (simp add: json_items.simps [of s])

lemma json_items_indented:
  assumes "\<And>v r. v \<in> set (v0 # vs) \<Longrightarrow> ends_value r \<Longrightarrow> json_value (f v @ r) = Some (v, r)"
    and "\<And>v. v \<in> set (v0 # vs) \<Longrightarrow> \<exists>c q. f v = c # q \<and> c \<notin> {9, 10, 13, 32, 93, 125}"
  shows "json_items (join ([44] @ newline n) (map f (v0 # vs)) @ newline m @ 93 # r) = Some (v0 # vs, r)"
  using assms
proof (induction vs arbitrary: v0)
  case Nil
  have "json_value (f v0 @ newline m @ 93 # r) = Some (v0, newline m @ 93 # r)" using Nil(1) by simp
  then show ?case by (simp add: json_items.simps [of "f v0 @ newline m @ 93 # r"] skip_newline)
next
  case (Cons v1 vs)
  let ?rest = "join ([44] @ newline n) (map f (v1 # vs)) @ newline m @ 93 # r"
  let ?s = "f v0 @ 44 # newline n @ ?rest"
  have v0: "json_value ?s = Some (v0, 44 # newline n @ ?rest)" using Cons.prems(1) by simp
  have "json_items ?rest = Some (v1 # vs, r)" by (rule Cons.IH) (use Cons.prems in auto)
  moreover obtain c q where "?rest = c # q" "c \<notin> {9, 10, 13, 32}"
    using Cons.prems(2) [of v1] by (cases vs) auto
  then have "skip_blanks (newline n @ ?rest) = ?rest" by (simp add: skip_newline)
  ultimately have "json_items ?s = Some (v0 # v1 # vs, r)"
    by (simp only: json_items_next [OF v0]) simp
  then show ?case by simp
qed

lemma json_members_next:
  assumes "list_all scalar k" and "json_value (v @ r) = Some (j, 44 # q)" and "skip_blanks (v @ r) = v @ r"
  shows "json_members (json_string k @ py '': '' @ v @ r) =
    map_option (\<lambda>(kvs, q). ((k, j) # kvs, q)) (json_members (skip_blanks q))"
proof -
  let ?s = "json_string k @ py '': '' @ v @ r"
  have s: "?s = 34 # concat (map json_char k) @ 34 # 58 # 32 # v @ r" by (simp add: json_string_def)
  have "length (44 # q) < length (v @ r)" by (rule json_value_shorter(1) [OF assms(2)])
  then have "length q < length ?s" by simp
  with assms show ?thesis
    unfolding s by (simp add: json_members.simps [of "34 # _"] string_body_json)
qed

lemma json_members_last:
  assumes "list_all scalar k" and "json_value (v @ r) = Some (j, q)" and "skip_blanks (v @ r) = v @ r"
    and "skip_blanks q = 125 # q'"
  shows "json_members (json_string k @ py '': '' @ v @ r) = Some ([(k, j)], q')"
  using assms by (simp add: json_string_def json_members.simps [of "34 # _"] string_body_json)

lemma json_members_indented:
  fixes f :: "json \<Rightarrow> pystr"
  defines "line \<equiv> \<lambda>(k, v). json_string k @ py '': '' @ f v"
  assumes "\<And>k v r. (k, v) \<in> set (kv0 # kvs) \<Longrightarrow> ends_value r \<Longrightarrow> json_value (f v @ r) = Some (v, r)"
    and "\<And>k v. (k, v) \<in> set (kv0 # kvs) \<Longrightarrow> \<exists>c q. f v = c # q \<and> c \<notin> {9, 10, 13, 32, 93, 125}"
    and "\<And>k v. (k, v) \<in> set (kv0 # kvs) \<Longrightarrow> list_all scalar k"
  shows "json_members (join ([44] @ newline n) (map line (kv0 # kvs)) @ newline m @ 125 # r) = Some (kv0 # kvs, r)"
  using assms(2-)
proof (induction kvs arbitrary: kv0)
  case Nil
  obtain k v where kv: "kv0 = (k, v)" by (cases kv0)
  have "json_value (f v @ newline m @ 125 # r) = Some (v, newline m @ 125 # r)" using Nil(1) kv by simp
  from json_members_last [OF _ this, of k r] Nil kv show ?case
    by (fastforce simp: line_def skip_newline)
next
  case (Cons kv1 kvs)
  obtain k v where kv: "kv0 = (k, v)" by (cases kv0)
  let ?rest = "join ([44] @ newline n) (map line (kv1 # kvs)) @ newline m @ 125 # r"
  have v: "json_value (f v @ 44 # newline n @ ?rest) = Some (v, 44 # newline n @ ?rest)"
    by (rule Cons.prems(1) [of k]) (simp_all add: kv)
  have rest: "json_members ?rest = Some (kv1 # kvs, r)"
  proof (rule Cons.IH)
    fix k' v' assume "(k', v') \<in> set (kv1 # kvs)"
    then have kv': "(k', v') \<in> set (kv0 # kv1 # kvs)" by simp
    show "\<exists>c q. f v' = c # q \<and> c \<notin> {9, 10, 13, 32, 93, 125}" by (rule Cons.prems(2) [OF kv'])
    show "list_all scalar k'" by (rule Cons.prems(3) [OF kv'])
    show "json_value (f v' @ r') = Some (v', r')" if "ends_value r'" for r'
      by (rule Cons.prems(1) [OF kv' that])
  qed
  obtain q where "?rest = 34 # q" by (cases kv1; cases kvs) (auto simp: line_def json_string_def)
  then have blanks: "skip_blanks (newline n @ ?rest) = ?rest" by (simp add: skip_newline)
  have "skip_blanks (f v @ 44 # newline n @ ?rest) = f v @ 44 # newline n @ ?rest"
    using Cons.prems(2) [of k v] kv by auto
  from json_members_next [OF _ v this, of k] rest blanks kv Cons.prems(3) [of k v]
  have "json_members (line kv0 @ 44 # newline n @ ?rest) = Some (kv0 # kv1 # kvs, r)"
    by (simp add: line_def del: py_simps)
  then show ?case by simp
qed

lemma json_atoms:
  "json_value (py ''null'' @ r) = Some (JNull, r)"
  "json_value (py ''true'' @ r) = Some (JBool True, r)"
  "json_value (py ''false'' @ r) = Some (JBool False, r)"
  by (simp_all add: json_value.simps json_atom_def json_constants_def)

lemma json_int:
  assumes "ends_value r"
  shows "json_value (int_text i @ r) = Some (JInt i, r)"
proof -
  obtain d ds where "nat_text \<bar>i\<bar> = d # ds" "48 \<le> d" "d \<le> 57" by (rule nat_text_first [of "\<bar>i\<bar>"]) simp_all
  then obtain c q where "int_text i = c # q" "c \<notin> {34, 91, 123}"
    by (cases "i < 0") (auto simp: int_text_def)
  with json_atom_int [OF assms, of i] show ?thesis by (simp add: json_value.simps [of "c # _"])
qed

lemma skip_indented: "plain_json j \<Longrightarrow> skip_blanks (json_indented n j @ r) = json_indented n j @ r"
  by (rule indented_first [of j n]) auto

lemma json_value_indented:
  "plain_json j \<Longrightarrow> ends_value r \<Longrightarrow> json_value (json_indented n j @ r) = Some (j, r)"
proof (induction j arbitrary: n r)
  case (JString s)
  then show ?case by (simp add: json_string_def json_value.simps string_body_json)
next
  case (JArray vs)
  show ?case
  proof (cases vs)
    case Nil
    then show ?thesis by (simp add: json_value.simps)
  next
    case (Cons v0 vs')
    let ?lines = "join ([44] @ newline (Suc n)) (map (json_indented (Suc n)) (v0 # vs'))"
    have first: "\<exists>c q. json_indented (Suc n) v = c # q \<and> c \<notin> {9, 10, 13, 32, 93, 125}" if "v \<in> set (v0 # vs')" for v
    proof -
      have "plain_json v" using JArray.prems(1) that Cons by (auto simp: list_all_iff)
      then show ?thesis by (rule indented_first [of v "Suc n"]) blast
    qed
    have items: "json_items (?lines @ newline n @ 93 # r) = Some (v0 # vs', r)"
      by (rule json_items_indented [OF _ first]) (use JArray Cons in \<open>auto simp: list_all_iff\<close>)
    moreover obtain c q where "?lines @ newline n @ 93 # r = c # q" "c \<notin> {9, 10, 13, 32, 93}"
      using first [of v0] by (cases vs') auto
    ultimately show ?thesis using Cons by (simp add: json_value.simps [of "91 # _"] skip_newline)
  qed
next
  case (JObject kvs)
  show ?case
  proof (cases kvs)
    case Nil
    then show ?thesis by (simp add: json_value.simps)
  next
    case (Cons kv0 kvs')
    let ?line = "\<lambda>(k, v). json_string k @ py '': '' @ json_indented (Suc n) v"
    let ?lines = "join ([44] @ newline (Suc n)) (map ?line (kv0 # kvs'))"
    have "json_members (?lines @ newline n @ 125 # r) = Some (kv0 # kvs', r)"
    proof (rule json_members_indented)
      fix k v r' assume kv: "(k, v) \<in> set (kv0 # kvs')"
      with JObject.prems(1) Cons have "list_all scalar k" "plain_json v" by (auto simp: list_all_iff)
      then show "list_all scalar k" and "\<exists>c q. json_indented (Suc n) v = c # q \<and> c \<notin> {9, 10, 13, 32, 93, 125}"
        using indented_first [of v "Suc n"] by blast+
      assume "ends_value r'"
      moreover have "(k, v) \<in> set kvs" "v \<in> Basic_BNFs.snds (k, v)" using kv Cons by simp_all
      ultimately show "json_value (json_indented (Suc n) v @ r') = Some (v, r')"
        using JObject.IH \<open>plain_json v\<close> by blast
    qed
    moreover obtain q where "?lines @ newline n @ 125 # r = 34 # q"
      by (cases kv0; cases kvs') (auto simp: json_string_def)
    ultimately show ?thesis using Cons by (simp add: json_value.simps [of "123 # _"] skip_newline)
  qed
qed (simp_all add: json_atoms [simplified] json_int)

text \<open>\<open>json.loads(json.dumps(value, indent=2) + white space)\<close>\<close>

lemma json_document_indented:
  assumes "plain_json j" and "ends_value r" and "skip_blanks r = []"
  shows "json_document (json_indented n j @ r) = Some j"
proof -
  obtain c q where "json_indented n j = c # q" "c < 128"
    by (rule indented_first [OF assms(1)])
  then have "\<not> startswith (json_indented n j @ r) [65279]" by simp
  then show ?thesis
    using assms by (simp add: json_document_def skip_indented json_value_indented)
qed

end
