(* ===== verification/Corpus.thy ===== *)
theory Corpus
  imports Json Tools
begin

text \<open>
  data/aids_sample.json and what app/agent/tools/search_aids.py does with its bytes. \<open>_load_corpus\<close> is
  \<open>tuple(json.loads(text))\<close>: nothing checks that the elements are \<open>AidRecord\<close>s, so the corpus is a
  list of JSON values, and the search takes what it needs by subscript. \<open>search_raw\<close> is that search,
  with the exception of every access that fails; \<open>search_raw_refines\<close> shows that on values with the
  five texts it reads it is \<open>search_aids_corpus\<close> of SearchAids on records.

  \<open>AIDS_SAMPLE\<close> is the committed corpus as records and \<open>AIDS_SAMPLE_TEXT\<close> the text of its file, line by
  line. What stays a parameter is \<open>path.read_text(encoding="utf-8")\<close>.
\<close>

section \<open>Python values\<close>

text \<open>The name of the type of a value that \<open>json.loads\<close> made.\<close>

fun json_type :: "json \<Rightarrow> pystr" where
  "json_type JNull = py ''NoneType''"
| "json_type (JBool b) = py ''bool''"
| "json_type (JInt i) = py ''int''"
| "json_type (JFloat l) = py ''float''"
| "json_type (JString s) = py ''str''"
| "json_type (JArray vs) = py ''list''"
| "json_type (JObject kvs) = py ''dict''"

text \<open>The keys of a dictionary, in the order of their first insertion.\<close>

definition dict_keys :: "(pystr \<times> json) list \<Rightarrow> pystr list" where
  "dict_keys kvs = rev (remdups (rev (map fst kvs)))"

text \<open>\<open>tuple(value)\<close>\<close>

fun tuple_of :: "json \<Rightarrow> exn + json list" where
  "tuple_of (JArray vs) = Inr vs"
| "tuple_of (JObject kvs) = Inr (map JString (dict_keys kvs))"
| "tuple_of (JString s) = Inr (map (\<lambda>c. JString [c]) s)"
| "tuple_of v = Inl (TypeError ([39] @ json_type v @ [39] @ py '' object is not iterable''))"

text \<open>\<open>record[key]\<close>\<close>

fun get_field :: "json \<Rightarrow> pystr \<Rightarrow> exn + json" where
  "get_field (JObject kvs) key =
     (case dict_get kvs key of
        None \<Rightarrow> Inl (OtherException (py ''KeyError'') ([39] @ key @ [39]))
      | Some v \<Rightarrow> Inr v)"
| "get_field (JString s) key =
     Inl (TypeError (py ''string indices must be integers, not '' @ [39] @ py ''str'' @ [39]))"
| "get_field (JArray vs) key = Inl (TypeError (py ''list indices must be integers or slices, not str''))"
| "get_field v key = Inl (TypeError ([39] @ json_type v @ [39] @ py '' object is not subscriptable''))"

text \<open>
  \<open>record[key]\<close> where a text is needed, as the argument of \<open>unicodedata.normalize\<close> in
  \<open>_strip_accents\<close>.
\<close>

definition text_field :: "json \<Rightarrow> pystr \<Rightarrow> exn + pystr" where
  "text_field record key =
     bindE (get_field record key) (\<lambda>v.
       case v of
         JString s \<Rightarrow> Inr s
       | _ \<Rightarrow> Inl (TypeError (py ''normalize() argument 2 must be str, not '' @
           (if v = JNull then py ''None'' else json_type v))))"

text \<open>List comprehensions whose condition or element may raise: the first exception ends them.\<close>

fun filterE :: "('a \<Rightarrow> exn + bool) \<Rightarrow> 'a list \<Rightarrow> exn + 'a list" where
  "filterE P [] = Inr []"
| "filterE P (x # xs) = bindE (P x) (\<lambda>b. bindE (filterE P xs) (\<lambda>ys. Inr (if b then x # ys else ys)))"

fun mapE :: "('a \<Rightarrow> exn + 'b) \<Rightarrow> 'a list \<Rightarrow> exn + 'b list" where
  "mapE f [] = Inr []"
| "mapE f (x # xs) = bindE (f x) (\<lambda>y. bindE (mapE f xs) (\<lambda>ys. Inr (y # ys)))"

section \<open>Loading\<close>

text \<open>\<open>tuple(json.loads(text))\<close>; the position in the text of a decoding error is left out.\<close>

definition json_decode_error :: exn where
  "json_decode_error = OtherException (py ''JSONDecodeError'') []"

definition corpus_values :: "pystr \<Rightarrow> exn + json list" where
  "corpus_values text =
     (case json_document text of None \<Rightarrow> Inl json_decode_error | Some raw \<Rightarrow> tuple_of raw)"

definition corpus_file :: "(pystr \<Rightarrow> ('w, pystr) prog) \<Rightarrow> pystr \<Rightarrow> ('w, json list) prog" where
  "corpus_file read_text path w =
     (case read_text path w of
        (Inl e, w') \<Rightarrow> (Inl e, w')
      | (Inr t, w') \<Rightarrow> (corpus_values t, w'))"

section \<open>Searching what was loaded\<close>

definition raw_matches_category :: "unidb \<Rightarrow> json \<Rightarrow> pystr \<Rightarrow> exn + bool" where
  "raw_matches_category U record category =
     bindE (text_field record (py ''category'')) (\<lambda>c.
       Inr (contains (normalize U c) (normalize U category)))"

definition raw_score :: "unidb \<Rightarrow> json \<Rightarrow> pystr set \<Rightarrow> exn + nat" where
  "raw_score U record query_tokens =
     bindE (text_field record (py ''title'')) (\<lambda>title.
     bindE (text_field record (py ''description'')) (\<lambda>description.
     bindE (text_field record (py ''conditions'')) (\<lambda>conditions.
     let title_tokens = tokenize U title;
         body_tokens = tokenize U description \<union> tokenize U conditions
     in Inr (TITLE_MATCH_WEIGHT * card (query_tokens \<inter> title_tokens) + card (query_tokens \<inter> body_tokens)))))"

text \<open>A row is only made of a record that has a score, so its description is a text (\<open>raw_score_texts\<close>).\<close>

definition raw_snippet :: "json \<Rightarrow> exn + pystr" where
  "raw_snippet record =
     bindE (text_field record (py ''description'')) (\<lambda>description.
     Inr (if length description \<le> SNIPPET_LENGTH then description
          else py_rstrip (take SNIPPET_LENGTH description) @ py ''...''))"

definition result_row :: "json \<Rightarrow> json \<Rightarrow> pystr \<Rightarrow> json" where
  "result_row i title text_cut =
     JObject [(py ''id'', i), (py ''title'', title), (py ''snippet'', JString text_cut)]"

definition raw_row :: "json \<Rightarrow> exn + json" where
  "raw_row record =
     bindE (get_field record (py ''id'')) (\<lambda>i.
     bindE (get_field record (py ''title'')) (\<lambda>title.
     bindE (raw_snippet record) (\<lambda>s. Inr (result_row i title s))))"

definition search_raw :: "unidb \<Rightarrow> pystr \<Rightarrow> pystr option \<Rightarrow> json list \<Rightarrow> exn + json list" where
  "search_raw U query category corpus =
     bindE (case category of
         None \<Rightarrow> Inr corpus
       | Some c \<Rightarrow> if c \<noteq> [] then filterE (\<lambda>r. raw_matches_category U r c) corpus else Inr corpus)
       (\<lambda>candidates.
     let query_tokens = tokenize U query in
     bindE (mapE (\<lambda>r. bindE (raw_score U r query_tokens) (\<lambda>n. Inr (r, n))) candidates) (\<lambda>scored.
     let matched = filter (\<lambda>p. snd p > 0) scored;
         ranked = sort_key (\<lambda>p. - int (snd p)) matched
     in mapE (\<lambda>p. raw_row (fst p)) (take MAX_RESULTS ranked)))"

text \<open>The tool on the file.\<close>

definition search_aids_raw ::
  "unidb \<Rightarrow> (pystr \<Rightarrow> ('w, pystr) prog) \<Rightarrow> pystr \<Rightarrow> search_args \<Rightarrow> (json list cache \<times> 'w, json list) prog" where
  "search_aids_raw U read_text default_path args =
     (case validate_search_args args of
        Inl e \<Rightarrow> raise_p e
      | Inr valid \<Rightarrow> bind_p (load_corpus (corpus_file read_text) default_path None) (\<lambda>corpus s.
          (search_raw U (sa_query valid) (sa_category valid) corpus, s)))"

lemma search_args_valid: "sa_query args \<noteq> [] \<Longrightarrow> validate_search_args args = Inr args"
  by (cases "sa_query args") (simp_all add: validate_search_args_def)

section \<open>Values that are records\<close>

text \<open>A value has the texts of a record that the search reads; the rest of the record is never looked at.\<close>

definition reads_as :: "json \<Rightarrow> aid_record \<Rightarrow> bool" where
  "reads_as v r \<longleftrightarrow>
     get_field v (py ''id'') = Inr (JString (ar_id r)) \<and>
     get_field v (py ''title'') = Inr (JString (ar_title r)) \<and>
     get_field v (py ''category'') = Inr (JString (ar_category r)) \<and>
     get_field v (py ''description'') = Inr (JString (ar_description r)) \<and>
     get_field v (py ''conditions'') = Inr (JString (ar_conditions r))"

definition row_value :: "aid_result \<Rightarrow> json" where
  "row_value row = result_row (JString (res_id row)) (JString (res_title row)) (res_snippet row)"

lemma text_field_Inr_iff: "text_field v k = Inr s \<longleftrightarrow> get_field v k = Inr (JString s)"
proof (cases "get_field v k")
  case (Inr j)
  then show ?thesis by (cases j) (simp_all add: text_field_def)
qed (simp add: text_field_def)

lemma reads_as_text:
  assumes "reads_as v r"
  shows "text_field v (py ''title'') = Inr (ar_title r)"
    and "text_field v (py ''category'') = Inr (ar_category r)"
    and "text_field v (py ''description'') = Inr (ar_description r)"
    and "text_field v (py ''conditions'') = Inr (ar_conditions r)"
  using assms by (simp_all add: reads_as_def text_field_Inr_iff del: py_simps)

lemma reads_as_search:
  assumes "reads_as v r"
  shows "raw_matches_category U v c = Inr (matches_category U r c)"
    and "raw_score U v q = Inr (score U r q)"
    and "raw_row v = Inr (row_value (aid_row r))"
  using reads_as_text [OF assms] assms
  by (simp_all add: raw_matches_category_def matches_category_def raw_score_def score_def raw_row_def
      raw_snippet_def row_value_def aid_row_def snippet_def reads_as_def Let_def del: py_simps)

lemma raw_score_texts:
  "raw_score U v q = Inr n \<Longrightarrow> \<exists>title description. get_field v (py ''title'') = Inr (JString title) \<and>
     get_field v (py ''description'') = Inr (JString description)"
  by (auto simp: raw_score_def text_field_Inr_iff bindE_eq_Inr_iff simp del: py_simps)

lemma filterE_refines:
  assumes "list_all2 R xs ys" and "\<And>x y. R x y \<Longrightarrow> P x = Inr (Q y)"
  shows "\<exists>xs'. filterE P xs = Inr xs' \<and> list_all2 R xs' (filter Q ys)"
  using assms by (induction rule: list_all2_induct) fastforce+

lemma mapE_refines:
  assumes "list_all2 R xs ys" and "\<And>x y. R x y \<Longrightarrow> \<exists>z. f x = Inr z \<and> S z (g y)"
  shows "\<exists>zs. mapE f xs = Inr zs \<and> list_all2 S zs (map g ys)"
  using assms by (induction rule: list_all2_induct) fastforce+

lemma mapE_eq:
  assumes "list_all2 R xs ys" and "\<And>x y. R x y \<Longrightarrow> f x = Inr (g y)"
  shows "mapE f xs = Inr (map g ys)"
  using mapE_refines [OF assms(1), of f "(=)" g] assms(2) by (auto simp: list_all2_eq)

lemma list_all2_filter_same:
  assumes "list_all2 R xs ys" and "\<And>x y. R x y \<Longrightarrow> P x = Q y"
  shows "list_all2 R (filter P xs) (filter Q ys)"
  using assms by (induction rule: list_all2_induct) auto

lemma list_all2_insort:
  assumes "list_all2 R xs ys" and "R a b" and "\<And>x y. R x y \<Longrightarrow> f x = g y"
  shows "list_all2 R (insort_key f a xs) (insort_key g b ys)"
  using assms by (induction rule: list_all2_induct) auto

lemma list_all2_sort:
  assumes "list_all2 R xs ys" and "\<And>x y. R x y \<Longrightarrow> f x = g y"
  shows "list_all2 R (sort_key f xs) (sort_key g ys)"
  using assms by (induction rule: list_all2_induct) (auto intro: list_all2_insort)

lemma search_raw_reads:
  assumes "list_all2 reads_as corpus records"
  shows "search_raw U query category corpus = Inr (map row_value (search_aids_corpus U query category records))"
proof -
  let ?q = "tokenize U query"
  let ?cands = "case category of None \<Rightarrow> records
    | Some c \<Rightarrow> if c \<noteq> [] then filter (\<lambda>r. matches_category U r c) records else records"
  have "\<exists>cs. (case category of None \<Rightarrow> Inr corpus
      | Some c \<Rightarrow> if c \<noteq> [] then filterE (\<lambda>r. raw_matches_category U r c) corpus else Inr corpus) = Inr cs \<and>
    list_all2 reads_as cs ?cands"
  proof (cases category)
    case (Some c)
    from filterE_refines [OF assms, of "\<lambda>r. raw_matches_category U r c" "\<lambda>r. matches_category U r c",
        OF reads_as_search(1)] obtain xs where
      "filterE (\<lambda>r. raw_matches_category U r c) corpus = Inr xs"
      "list_all2 reads_as xs (filter (\<lambda>r. matches_category U r c) records)" by blast
    with Some assms show ?thesis by simp
  qed (use assms in simp)
  then obtain cs where cs: "(case category of None \<Rightarrow> Inr corpus
      | Some c \<Rightarrow> if c \<noteq> [] then filterE (\<lambda>r. raw_matches_category U r c) corpus else Inr corpus) = Inr cs"
    "list_all2 reads_as cs ?cands" by blast
  let ?R = "\<lambda>p p'. reads_as (fst p) (fst p') \<and> snd p = snd p'"
  obtain scored where scored: "mapE (\<lambda>r. bindE (raw_score U r ?q) (\<lambda>n. Inr (r, n))) cs = Inr scored"
    "list_all2 ?R scored (map (\<lambda>r. (r, score U r ?q)) ?cands)"
    using mapE_refines [OF cs(2), of "\<lambda>r. bindE (raw_score U r ?q) (\<lambda>n. Inr (r, n))" ?R "\<lambda>r. (r, score U r ?q)"]
    by (auto simp: reads_as_search)
  have "list_all2 ?R
      (take MAX_RESULTS (sort_key (\<lambda>p. - int (snd p)) (filter (\<lambda>p. snd p > 0) scored)))
      (take MAX_RESULTS (sort_key (\<lambda>p. - int (snd p)) (filter (\<lambda>p. snd p > 0) (map (\<lambda>r. (r, score U r ?q)) ?cands))))"
    by (intro list_all2_takeI list_all2_sort list_all2_filter_same scored(2)) simp_all
  from mapE_eq [OF this, of "\<lambda>p. raw_row (fst p)" "\<lambda>p. row_value (aid_row (fst p))"] cs(1) scored(1)
  show ?thesis by (simp add: search_raw_def search_aids_corpus_def Let_def reads_as_search comp_def)
qed

section \<open>A written corpus\<close>

text \<open>\<open>json.dumps(corpus, indent=2)\<close> and a newline, the layout of the committed file.\<close>

definition json_of_aid :: "aid_record \<Rightarrow> json" where
  "json_of_aid r = JObject
     [(py ''id'', JString (ar_id r)), (py ''title'', JString (ar_title r)),
      (py ''category'', JString (ar_category r)), (py ''description'', JString (ar_description r)),
      (py ''conditions'', JString (ar_conditions r)), (py ''amount'', JString (ar_amount r)),
      (py ''source_url'', JString (ar_source_url r)), (py ''synthetic'', JBool (ar_synthetic r))]"

definition corpus_json :: "aid_record list \<Rightarrow> json" where
  "corpus_json corpus = JArray (map json_of_aid corpus)"

definition corpus_text :: "aid_record list \<Rightarrow> pystr" where
  "corpus_text corpus = json_indented 0 (corpus_json corpus) @ [10]"

definition scalar_aid :: "aid_record \<Rightarrow> bool" where
  "scalar_aid r \<longleftrightarrow>
     (\<forall>s \<in> {ar_id r, ar_title r, ar_category r, ar_description r, ar_conditions r, ar_amount r, ar_source_url r}.
        list_all scalar s)"

lemma json_of_aid_reads: "reads_as (json_of_aid r) r"
  by (simp add: reads_as_def json_of_aid_def dict_get_def)

lemma scalar_keys:
  "list_all scalar (py ''id'')" "list_all scalar (py ''title'')" "list_all scalar (py ''category'')"
  "list_all scalar (py ''description'')" "list_all scalar (py ''conditions'')" "list_all scalar (py ''amount'')"
  "list_all scalar (py ''source_url'')" "list_all scalar (py ''synthetic'')"
  by code_simp+

lemma plain_aid: "scalar_aid r \<Longrightarrow> plain_json (json_of_aid r)"
  using scalar_keys by (simp add: scalar_aid_def json_of_aid_def del: py_simps)

lemma corpus_text_read:
  assumes "list_all scalar_aid corpus"
  shows "corpus_values (corpus_text corpus) = Inr (map json_of_aid corpus)"
proof -
  have "plain_json (corpus_json corpus)"
    using assms plain_aid by (auto simp: corpus_json_def list_all_iff)
  from json_document_indented [OF this, of "[10]" 0] show ?thesis
    by (simp add: corpus_values_def corpus_text_def ends_value_def skip_blanks_def corpus_json_def)
qed

section \<open>The committed file\<close>

definition AIDE_DEMO_001 :: aid_record where
  "AIDE_DEMO_001 = \<lparr>ar_id = py ''aide-demo-001'',
   ar_title = py ''Aide demo Jeune Actif'',
   ar_category = py ''emploi'',
   ar_description = py ''Aide demo destinee aux jeunes de moins de 25 ans en recherche de premier emploi, versee pendant les six premiers mois d'activite pour compenser les frais de transport et de garde d'enfant.'',
   ar_conditions = py ''Avoir entre 18 et 25 ans, etre inscrit comme demandeur d'emploi depuis moins de 3 mois, resider en France.'',
   ar_amount = py ''150 EUR par mois pendant 6 mois'',
   ar_source_url = py ''https://www.exemple.fr/aides/jeune-actif'',
   ar_synthetic = True\<rparr>"

definition AIDE_DEMO_002 :: aid_record where
  "AIDE_DEMO_002 = \<lparr>ar_id = py ''aide-demo-002'',
   ar_title = py ''Aide demo Logement Etudiant'',
   ar_category = py ''logement'',
   ar_description = py ''Aide demo au premier loyer pour les etudiants boursiers qui quittent le foyer familial pour poursuivre des etudes superieures loin de leur domicile.'',
   ar_conditions = py ''Etre boursier sur criteres sociaux, avoir moins de 28 ans, signer un bail d'au moins 9 mois.'',
   ar_amount = py ''500 EUR verses en une fois'',
   ar_source_url = py ''https://www.exemple.fr/aides/logement-etudiant'',
   ar_synthetic = True\<rparr>"

definition AIDE_DEMO_003 :: aid_record where
  "AIDE_DEMO_003 = \<lparr>ar_id = py ''aide-demo-003'',
   ar_title = py ''Aide demo Formation Numerique'',
   ar_category = py ''formation'',
   ar_description = py ''Aide demo au financement d'une formation courte en competences numeriques pour les personnes en reconversion professionnelle.'',
   ar_conditions = py ''Etre salarie ou demandeur d'emploi, la formation doit etre eligible au Compte Personnel de Formation, duree minimale de 20 heures.'',
   ar_amount = py ''Jusqu'a 1200 EUR de prise en charge'',
   ar_source_url = py ''https://www.exemple.fr/aides/formation-numerique'',
   ar_synthetic = True\<rparr>"

definition AIDE_DEMO_004 :: aid_record where
  "AIDE_DEMO_004 = \<lparr>ar_id = py ''aide-demo-004'',
   ar_title = py ''Aide demo Mobilite Rurale'',
   ar_category = py ''mobilite'',
   ar_description = py ''Aide demo a l'achat ou a la location longue duree d'un velo electrique ou d'un abonnement de covoiturage pour les habitants de zones rurales eloignees des transports en commun.'',
   ar_conditions = py ''Resider dans une commune de moins de 5000 habitants, justifier d'un trajet domicile-travail de plus de 15 kilometres.'',
   ar_amount = py ''400 EUR de subvention'',
   ar_source_url = py ''https://www.exemple.fr/aides/mobilite-rurale'',
   ar_synthetic = True\<rparr>"

definition AIDE_DEMO_005 :: aid_record where
  "AIDE_DEMO_005 = \<lparr>ar_id = py ''aide-demo-005'',
   ar_title = py ''Aide demo Naissance et Petite Enfance'',
   ar_category = py ''famille'',
   ar_description = py ''Aide demo versee a la naissance d'un enfant pour financer les premiers equipements de puericulture, ouverte a toutes les familles sans condition de ressources.'',
   ar_conditions = py ''Declarer la naissance dans les 3 mois, resider en France au moment de la demande.'',
   ar_amount = py ''300 EUR verses en une fois'',
   ar_source_url = py ''https://www.exemple.fr/aides/naissance-petite-enfance'',
   ar_synthetic = True\<rparr>"

definition AIDE_DEMO_006 :: aid_record where
  "AIDE_DEMO_006 = \<lparr>ar_id = py ''aide-demo-006'',
   ar_title = py ''Aide demo Complementaire Sante Jeunes'',
   ar_category = py ''sante'',
   ar_description = py ''Aide demo au financement d'une complementaire sante pour les jeunes adultes sans couverture par un contrat collectif d'entreprise.'',
   ar_conditions = py ''Avoir entre 18 et 27 ans, ne pas beneficier d'une mutuelle d'entreprise, ressources annuelles sous un plafond fixe chaque annee.'',
   ar_amount = py ''20 EUR par mois pendant 12 mois'',
   ar_source_url = py ''https://www.exemple.fr/aides/complementaire-sante-jeunes'',
   ar_synthetic = True\<rparr>"

definition AIDE_DEMO_007 :: aid_record where
  "AIDE_DEMO_007 = \<lparr>ar_id = py ''aide-demo-007'',
   ar_title = py ''Aide demo Creation d'Entreprise Solo'',
   ar_category = py ''entrepreneuriat'',
   ar_description = py ''Aide demo destinee aux createurs d'entreprise individuelle pour couvrir les frais d'immatriculation et le premier equipement professionnel.'',
   ar_conditions = py ''Immatriculation de moins de 6 mois, statut de micro-entrepreneur ou d'entreprise individuelle, premiere creation d'activite.'',
   ar_amount = py ''800 EUR de subvention'',
   ar_source_url = py ''https://www.exemple.fr/aides/creation-entreprise-solo'',
   ar_synthetic = True\<rparr>"

definition AIDE_DEMO_008 :: aid_record where
  "AIDE_DEMO_008 = \<lparr>ar_id = py ''aide-demo-008'',
   ar_title = py ''Aide demo Equipement Numerique Foyer Modeste'',
   ar_category = py ''numerique'',
   ar_description = py ''Aide demo a l'achat d'un ordinateur portable reconditionne pour les foyers modestes avec un enfant scolarise, afin de faciliter le suivi scolaire a distance.'',
   ar_conditions = py ''Avoir un enfant scolarise, ressources du foyer sous un plafond fixe chaque annee, ne pas avoir beneficie de l'aide au cours des 3 dernieres annees.'',
   ar_amount = py ''250 EUR de subvention'',
   ar_source_url = py ''https://www.exemple.fr/aides/equipement-numerique-foyer-modeste'',
   ar_synthetic = True\<rparr>"

definition AIDS_SAMPLE :: "aid_record list" where
  "AIDS_SAMPLE = [AIDE_DEMO_001, AIDE_DEMO_002, AIDE_DEMO_003, AIDE_DEMO_004, AIDE_DEMO_005, AIDE_DEMO_006, AIDE_DEMO_007, AIDE_DEMO_008]"

text \<open>The file, line by line.\<close>

definition AIDE_TEXT_001 :: "string list" where
  "AIDE_TEXT_001 =
    [''  {'',
     ''    \"id\": \"aide-demo-001\",'',
     ''    \"title\": \"Aide demo Jeune Actif\",'',
     ''    \"category\": \"emploi\",'',
     ''    \"description\": \"Aide demo destinee aux jeunes de moins de 25 ans en recherche de premier emploi, versee pendant les six premiers mois d'activite pour compenser les frais de transport et de garde d'enfant.\",'',
     ''    \"conditions\": \"Avoir entre 18 et 25 ans, etre inscrit comme demandeur d'emploi depuis moins de 3 mois, resider en France.\",'',
     ''    \"amount\": \"150 EUR par mois pendant 6 mois\",'',
     ''    \"source_url\": \"https://www.exemple.fr/aides/jeune-actif\",'',
     ''    \"synthetic\": true'',
     ''  },'']"

definition AIDE_TEXT_002 :: "string list" where
  "AIDE_TEXT_002 =
    [''  {'',
     ''    \"id\": \"aide-demo-002\",'',
     ''    \"title\": \"Aide demo Logement Etudiant\",'',
     ''    \"category\": \"logement\",'',
     ''    \"description\": \"Aide demo au premier loyer pour les etudiants boursiers qui quittent le foyer familial pour poursuivre des etudes superieures loin de leur domicile.\",'',
     ''    \"conditions\": \"Etre boursier sur criteres sociaux, avoir moins de 28 ans, signer un bail d'au moins 9 mois.\",'',
     ''    \"amount\": \"500 EUR verses en une fois\",'',
     ''    \"source_url\": \"https://www.exemple.fr/aides/logement-etudiant\",'',
     ''    \"synthetic\": true'',
     ''  },'']"

definition AIDE_TEXT_003 :: "string list" where
  "AIDE_TEXT_003 =
    [''  {'',
     ''    \"id\": \"aide-demo-003\",'',
     ''    \"title\": \"Aide demo Formation Numerique\",'',
     ''    \"category\": \"formation\",'',
     ''    \"description\": \"Aide demo au financement d'une formation courte en competences numeriques pour les personnes en reconversion professionnelle.\",'',
     ''    \"conditions\": \"Etre salarie ou demandeur d'emploi, la formation doit etre eligible au Compte Personnel de Formation, duree minimale de 20 heures.\",'',
     ''    \"amount\": \"Jusqu'a 1200 EUR de prise en charge\",'',
     ''    \"source_url\": \"https://www.exemple.fr/aides/formation-numerique\",'',
     ''    \"synthetic\": true'',
     ''  },'']"

definition AIDE_TEXT_004 :: "string list" where
  "AIDE_TEXT_004 =
    [''  {'',
     ''    \"id\": \"aide-demo-004\",'',
     ''    \"title\": \"Aide demo Mobilite Rurale\",'',
     ''    \"category\": \"mobilite\",'',
     ''    \"description\": \"Aide demo a l'achat ou a la location longue duree d'un velo electrique ou d'un abonnement de covoiturage pour les habitants de zones rurales eloignees des transports en commun.\",'',
     ''    \"conditions\": \"Resider dans une commune de moins de 5000 habitants, justifier d'un trajet domicile-travail de plus de 15 kilometres.\",'',
     ''    \"amount\": \"400 EUR de subvention\",'',
     ''    \"source_url\": \"https://www.exemple.fr/aides/mobilite-rurale\",'',
     ''    \"synthetic\": true'',
     ''  },'']"

definition AIDE_TEXT_005 :: "string list" where
  "AIDE_TEXT_005 =
    [''  {'',
     ''    \"id\": \"aide-demo-005\",'',
     ''    \"title\": \"Aide demo Naissance et Petite Enfance\",'',
     ''    \"category\": \"famille\",'',
     ''    \"description\": \"Aide demo versee a la naissance d'un enfant pour financer les premiers equipements de puericulture, ouverte a toutes les familles sans condition de ressources.\",'',
     ''    \"conditions\": \"Declarer la naissance dans les 3 mois, resider en France au moment de la demande.\",'',
     ''    \"amount\": \"300 EUR verses en une fois\",'',
     ''    \"source_url\": \"https://www.exemple.fr/aides/naissance-petite-enfance\",'',
     ''    \"synthetic\": true'',
     ''  },'']"

definition AIDE_TEXT_006 :: "string list" where
  "AIDE_TEXT_006 =
    [''  {'',
     ''    \"id\": \"aide-demo-006\",'',
     ''    \"title\": \"Aide demo Complementaire Sante Jeunes\",'',
     ''    \"category\": \"sante\",'',
     ''    \"description\": \"Aide demo au financement d'une complementaire sante pour les jeunes adultes sans couverture par un contrat collectif d'entreprise.\",'',
     ''    \"conditions\": \"Avoir entre 18 et 27 ans, ne pas beneficier d'une mutuelle d'entreprise, ressources annuelles sous un plafond fixe chaque annee.\",'',
     ''    \"amount\": \"20 EUR par mois pendant 12 mois\",'',
     ''    \"source_url\": \"https://www.exemple.fr/aides/complementaire-sante-jeunes\",'',
     ''    \"synthetic\": true'',
     ''  },'']"

definition AIDE_TEXT_007 :: "string list" where
  "AIDE_TEXT_007 =
    [''  {'',
     ''    \"id\": \"aide-demo-007\",'',
     ''    \"title\": \"Aide demo Creation d'Entreprise Solo\",'',
     ''    \"category\": \"entrepreneuriat\",'',
     ''    \"description\": \"Aide demo destinee aux createurs d'entreprise individuelle pour couvrir les frais d'immatriculation et le premier equipement professionnel.\",'',
     ''    \"conditions\": \"Immatriculation de moins de 6 mois, statut de micro-entrepreneur ou d'entreprise individuelle, premiere creation d'activite.\",'',
     ''    \"amount\": \"800 EUR de subvention\",'',
     ''    \"source_url\": \"https://www.exemple.fr/aides/creation-entreprise-solo\",'',
     ''    \"synthetic\": true'',
     ''  },'']"

definition AIDE_TEXT_008 :: "string list" where
  "AIDE_TEXT_008 =
    [''  {'',
     ''    \"id\": \"aide-demo-008\",'',
     ''    \"title\": \"Aide demo Equipement Numerique Foyer Modeste\",'',
     ''    \"category\": \"numerique\",'',
     ''    \"description\": \"Aide demo a l'achat d'un ordinateur portable reconditionne pour les foyers modestes avec un enfant scolarise, afin de faciliter le suivi scolaire a distance.\",'',
     ''    \"conditions\": \"Avoir un enfant scolarise, ressources du foyer sous un plafond fixe chaque annee, ne pas avoir beneficie de l'aide au cours des 3 dernieres annees.\",'',
     ''    \"amount\": \"250 EUR de subvention\",'',
     ''    \"source_url\": \"https://www.exemple.fr/aides/equipement-numerique-foyer-modeste\",'',
     ''    \"synthetic\": true'',
     ''  }'']"

definition AIDS_SAMPLE_TEXT :: pystr where
  "AIDS_SAMPLE_TEXT = concat (map (\<lambda>line. py line @ [10])
     ([''[''] @ AIDE_TEXT_001 @ AIDE_TEXT_002 @ AIDE_TEXT_003 @ AIDE_TEXT_004 @ AIDE_TEXT_005 @ AIDE_TEXT_006 @ AIDE_TEXT_007 @ AIDE_TEXT_008 @ ['']'']))"

lemma aids_sample_text: "AIDS_SAMPLE_TEXT = corpus_text AIDS_SAMPLE"
  by code_simp

lemma aids_sample_scalar: "list_all scalar_aid AIDS_SAMPLE"
  by code_simp

section \<open>Searching the committed corpus\<close>

definition reads_sample :: "(pystr \<Rightarrow> ('w, pystr) prog) \<Rightarrow> pystr \<Rightarrow> bool" where
  "reads_sample read_text path \<longleftrightarrow> (\<forall>w. fst (read_text path w) = Inr AIDS_SAMPLE_TEXT)"

abbreviation sample_values :: "json list" where
  "sample_values \<equiv> map json_of_aid AIDS_SAMPLE"

lemma sample_values_read: "corpus_values AIDS_SAMPLE_TEXT = Inr sample_values"
  unfolding aids_sample_text by (rule corpus_text_read [OF aids_sample_scalar])

lemma sample_values_reads: "list_all2 reads_as sample_values AIDS_SAMPLE"
  by (simp add: list_all2_conv_all_nth json_of_aid_reads)

lemma load_sample:
  assumes "reads_sample read_text path" and "cache_holds sample_values s"
  shows "\<exists>w. load_corpus (corpus_file read_text) path None s = (Inr sample_values, (Some (None, sample_values), w))"
proof (cases s)
  case (Pair c w)
  obtain w' where "read_text path w = (Inr AIDS_SAMPLE_TEXT, w')"
    using assms(1) unfolding reads_sample_def by (metis prod.collapse)
  then have "corpus_file read_text path w = (Inr sample_values, w')"
    by (simp add: corpus_file_def sample_values_read)
  with assms(2) Pair show ?thesis by (auto simp: load_corpus_def cache_holds_def)
qed

definition cites :: "aid_result \<Rightarrow> aid_record \<Rightarrow> bool" where
  "cites row r \<longleftrightarrow> row = aid_row r \<and> ar_synthetic r \<and>
     startswith (ar_source_url r) (py ''https://www.exemple.fr/aides/'')"

lemma sample_citable: "\<forall>r \<in> set AIDS_SAMPLE. ar_synthetic r \<and>
    startswith (ar_source_url r) (py ''https://www.exemple.fr/aides/'')"
proof -
  have "list_all (\<lambda>r. ar_synthetic r \<and> startswith (ar_source_url r) (py ''https://www.exemple.fr/aides/'')) AIDS_SAMPLE"
    by code_simp
  then show ?thesis by (simp only: list_all_iff)
qed

lemma sample_ids: "distinct (map ar_id AIDS_SAMPLE)"
  by code_simp

lemma snippet_length: "length (snippet r) \<le> SNIPPET_LENGTH + 3"
  using py_rstrip_length [of "take SNIPPET_LENGTH (ar_description r)"]
  by (auto simp: snippet_def Let_def intro: order.trans)

lemma search_rows:
  assumes "row \<in> set (search_aids_corpus U query category corpus)"
  shows "\<exists>r \<in> set corpus. row = aid_row r \<and> eligible U query category r"
  using assms unfolding search_results_eq by (auto dest!: in_set_takeD)

lemma search_rows_distinct:
  assumes "distinct (map ar_id corpus)"
  shows "distinct (map res_id (search_aids_corpus U query category corpus))"
proof -
  let ?ranked = "sort_key (\<lambda>r. - int (score U r (tokenize U query))) (filter (eligible U query category) corpus)"
  have "mset (map ar_id ?ranked) = mset (map ar_id (filter (eligible U query category) corpus))" by simp
  then have "distinct (map ar_id ?ranked)"
    using assms distinct_map_filter mset_eq_imp_distinct_iff by blast
  then have "distinct (take MAX_RESULTS (map ar_id ?ranked))" by (rule distinct_take)
  then show ?thesis unfolding search_results_eq by (simp add: take_map comp_def aid_row_def)
qed

section \<open>Properties\<close>

text \<open>C37. The search takes what \<open>json.loads\<close> gave as it is. If every value has the five texts the search
  reads (id, title, category, description and conditions; it may lack all the other fields of
  \<open>AidRecord\<close> and have any further ones), no access fails and the rows are those of
  \<open>search_aids_corpus\<close> on the records, in the same order.\<close>

theorem search_raw_refines:
  assumes "list_all2 reads_as corpus records"
  shows "search_raw U query category corpus = Inr (map row_value (search_aids_corpus U query category records))"
  by (rule search_raw_reads [OF assms])

text \<open>An example: a value with the five texts and nothing else.\<close>

definition bare_value :: "pystr \<Rightarrow> pystr \<Rightarrow> json" where
  "bare_value i title = JObject [(py ''id'', JString i), (py ''title'', JString title),
     (py ''category'', JString (py ''logement'')), (py ''description'', JString (py ''Aide fictive'')),
     (py ''conditions'', JString [])]"

theorem search_raw_refines_witness:
  "search_raw latin1_db (py ''velo neuf'') None
      [bare_value [1] (py ''Aide velo''), bare_value [2] (py ''Aide velo neuf''), bare_value [3] (py ''Bourse'')] =
    Inr [result_row (JString [2]) (JString (py ''Aide velo neuf'')) (py ''Aide fictive''),
      result_row (JString [1]) (JString (py ''Aide velo'')) (py ''Aide fictive'')]"
proof -
  let ?vs = "[bare_value [1] (py ''Aide velo''), bare_value [2] (py ''Aide velo neuf''), bare_value [3] (py ''Bourse'')]"
  let ?rs = "[example_aid [1] (py ''Aide velo''), example_aid [2] (py ''Aide velo neuf''), example_aid [3] (py ''Bourse'')]"
  have "reads_as (bare_value i t) (example_aid i t)" for i t
    by (simp add: reads_as_def bare_value_def example_aid_def dict_get_def)
  then have "list_all2 reads_as ?vs ?rs" by simp
  note search_raw_refines [OF this, of latin1_db "py ''velo neuf''" None]
  moreover have "map row_value (search_aids_corpus latin1_db (py ''velo neuf'') None ?rs) =
    [result_row (JString [2]) (JString (py ''Aide velo neuf'')) (py ''Aide fictive''),
      result_row (JString [1]) (JString (py ''Aide velo'')) (py ''Aide fictive'')]" by code_simp
  ultimately show ?thesis by (simp only:)
qed

text \<open>C36. The tool over the committed corpus: when the file holds the committed text and the cache is empty or
  holds its values, a call with a query does not fail, returns the rows of the search over the eight
  records, leaves the values in the cache, and cites at most three different records, each of them marked
  synthetic with a source under the invented domain, by a snippet of at most 163 characters.\<close>

theorem committed_corpus_search:
  assumes "reads_sample read_text path" and "cache_holds sample_values s" and "sa_query args \<noteq> []"
  shows "\<exists>w rows. search_aids_raw U read_text path args s =
      (Inr (map row_value rows), (Some (None, sample_values), w)) \<and>
    rows = search_aids_corpus U (sa_query args) (sa_category args) AIDS_SAMPLE \<and>
    length rows \<le> 3 \<and> distinct (map res_id rows) \<and>
    (\<forall>row \<in> set rows. (\<exists>r \<in> set AIDS_SAMPLE. cites row r) \<and> length (res_snippet row) \<le> 163)"
proof -
  let ?rows = "search_aids_corpus U (sa_query args) (sa_category args) AIDS_SAMPLE"
  from load_sample [OF assms(1,2)] obtain w where
    "load_corpus (corpus_file read_text) path None s = (Inr sample_values, (Some (None, sample_values), w))" by blast
  moreover have "validate_search_args args = Inr args"
    using assms(3) by (rule search_args_valid)
  ultimately have "search_aids_raw U read_text path args s =
      (Inr (map row_value ?rows), (Some (None, sample_values), w))"
    by (simp add: search_aids_raw_def bind_p_def search_raw_reads [OF sample_values_reads] del: list.map)
  moreover have "length ?rows \<le> 3" by (simp add: search_results_eq MAX_RESULTS_def)
  moreover have "(\<exists>r \<in> set AIDS_SAMPLE. cites row r) \<and> length (res_snippet row) \<le> 163" if row: "row \<in> set ?rows" for row
  proof -
    from search_rows [OF row] obtain r where r: "r \<in> set AIDS_SAMPLE" "row = aid_row r" by blast
    with sample_citable snippet_length [of r] show ?thesis
      by (auto simp: cites_def aid_row_def SNIPPET_LENGTH_def)
  qed
  ultimately show ?thesis using search_rows_distinct [OF sample_ids] by blast
qed

theorem committed_corpus_search_witness:
  "\<exists>w rows. search_aids_raw latin1_db (\<lambda>path w. (Inr AIDS_SAMPLE_TEXT, w + 1)) (py ''aids'')
      \<lparr>sa_query = py ''velo'', sa_category = Some (py ''mobilite'')\<rparr> (None, 0 :: nat) =
    (Inr (map row_value rows), (Some (None, sample_values), w)) \<and> map res_id rows = [py ''aide-demo-004'']"
proof -
  have ids: "map res_id (search_aids_corpus latin1_db (py ''velo'') (Some (py ''mobilite'')) AIDS_SAMPLE) = [py ''aide-demo-004'']"
    by code_simp
  have "reads_sample (\<lambda>path w. (Inr AIDS_SAMPLE_TEXT, w + (1 :: nat))) (py ''aids'')"
    "cache_holds sample_values (None, 0 :: nat)"
    by (simp_all add: reads_sample_def cache_holds_def)
  from committed_corpus_search [OF this, of "\<lparr>sa_query = py ''velo'', sa_category = Some (py ''mobilite'')\<rparr>" latin1_db]
  obtain w rows where "search_aids_raw latin1_db (\<lambda>path w. (Inr AIDS_SAMPLE_TEXT, w + 1)) (py ''aids'')
      \<lparr>sa_query = py ''velo'', sa_category = Some (py ''mobilite'')\<rparr> (None, 0 :: nat) =
      (Inr (map row_value rows), (Some (None, sample_values), w))"
    "rows = search_aids_corpus latin1_db (py ''velo'') (Some (py ''mobilite'')) AIDS_SAMPLE"
    by auto
  with ids show ?thesis by (intro exI [of _ w] exI [of _ rows] conjI) (simp_all only:)
qed

lemma get_field_raises: "get_field v k = Inl e \<Longrightarrow> type_name e \<in> {py ''TypeError'', py ''KeyError''}"
  by (cases v) (auto simp del: py_simps split: option.splits)

lemma text_field_raises: "text_field v k = Inl e \<Longrightarrow> type_name e \<in> {py ''TypeError'', py ''KeyError''}"
proof (cases "get_field v k")
  case (Inl x)
  then show "text_field v k = Inl e \<Longrightarrow> ?thesis" using get_field_raises [OF Inl] by (simp add: text_field_def)
next
  case (Inr j)
  then show "text_field v k = Inl e \<Longrightarrow> ?thesis"
    by (cases j) (auto simp: text_field_def simp del: py_simps)
qed

lemma raw_score_error:
  assumes "raw_score U v q = Inl e"
  shows "raw_score U v q' = Inl e" and "type_name e \<in> {py ''TypeError'', py ''KeyError''}"
proof -
  show "raw_score U v q' = Inl e" using assms by (auto simp: raw_score_def Let_def bindE_eq_Inl_iff)
  show "type_name e \<in> {py ''TypeError'', py ''KeyError''}"
    using assms text_field_raises by (auto simp: raw_score_def Let_def bindE_eq_Inl_iff simp del: py_simps)
qed

lemma raw_score_errors: "raw_score U v q = Inl e \<longleftrightarrow> raw_score U v {} = Inl e"
  using raw_score_error(1) by blast

lemma mapE_raises: "\<exists>x \<in> set xs. \<exists>e. f x = Inl e \<Longrightarrow> \<exists>x \<in> set xs. \<exists>e. f x = Inl e \<and> mapE f xs = Inl e"
proof (induction xs)
  case (Cons x xs)
  show ?case
  proof (cases "f x")
    case (Inr y)
    with Cons obtain z e where "z \<in> set xs" "f z = Inl e" "mapE f xs = Inl e" by auto
    with Inr show ?thesis by auto
  qed simp
qed simp

lemma mapE_same_errors:
  assumes "\<And>x e. f x = Inl e \<longleftrightarrow> g x = Inl e"
  shows "mapE f xs = Inl e \<longleftrightarrow> mapE g xs = Inl e"
proof (induction xs)
  case (Cons x xs)
  show ?case
  proof (cases "f x")
    case (Inl a)
    moreover from this assms have "g x = Inl a" by blast
    ultimately show ?thesis by simp
  next
    case (Inr y)
    with assms obtain z where "g x = Inr z" by (cases "g x") force+
    with Inr Cons show ?thesis by (simp add: bindE_eq_Inl_iff)
  qed
qed simp

text \<open>Without a category every value is scored, so one that has no score spoils every search.\<close>

lemma search_raw_spoilt:
  assumes "\<exists>v \<in> set vs. \<exists>e. raw_score U v {} = Inl e"
  shows "\<exists>e. type_name e \<in> {py ''TypeError'', py ''KeyError''} \<and> (\<forall>query. search_raw U query None vs = Inl e)"
proof -
  let ?f = "\<lambda>q r. bindE (raw_score U r q) (\<lambda>n. Inr (r, n))"
  have "\<exists>v \<in> set vs. \<exists>e. ?f {} v = Inl e" using assms by (auto simp: bindE_eq_Inl_iff)
  from mapE_raises [OF this] obtain v e where "?f {} v = Inl e" and e: "mapE (?f {}) vs = Inl e" by blast
  then have "raw_score U v {} = Inl e" by (auto simp: bindE_eq_Inl_iff)
  then have ty: "type_name e \<in> {py ''TypeError'', py ''KeyError''}" by (rule raw_score_error(2))
  have "mapE (?f q) vs = Inl e" for q
    using e mapE_same_errors [of "?f q" "?f {}" vs e] by (auto simp: bindE_eq_Inl_iff raw_score_errors [of U _ q])
  then have "search_raw U query None vs = Inl e" for query by (simp add: search_raw_def Let_def)
  with ty show ?thesis by blast
qed

text \<open>C38. A malformed corpus file shows late and stays. Text that is not JSON raises in the call that reads
  it and is not cached, so that the next call reads the file again. JSON whose elements are not all
  records is cached: if some element lacks a title, a description or conditions that are text, the
  call that loads it raises a \<open>TypeError\<close> or a \<open>KeyError\<close>, and so does every later call without a
  category, without looking at the file again, whatever it has become.\<close>

theorem misshapen_corpus_sticks:
  assumes "sa_query args \<noteq> []" and "sa_category args = None" and "read_text path w = (Inr text, w')"
  shows "(\<forall>e. corpus_values text = Inl e \<longrightarrow>
      search_aids_raw U read_text path args (None, w) = (Inl e, (None, w'))) \<and>
    (\<forall>vs. corpus_values text = Inr vs \<longrightarrow> (\<exists>v \<in> set vs. \<exists>e. raw_score U v {} = Inl e) \<longrightarrow>
      (\<exists>e. type_name e \<in> {py ''TypeError'', py ''KeyError''} \<and>
        search_aids_raw U read_text path args (None, w) = (Inl e, (Some (None, vs), w')) \<and>
        (\<forall>read_text' path' later w1. sa_query later \<noteq> [] \<longrightarrow> sa_category later = None \<longrightarrow>
          search_aids_raw U read_text' path' later (Some (None, vs), w1) = (Inl e, (Some (None, vs), w1)))))"
proof (intro conjI allI impI)
  fix e assume "corpus_values text = Inl e"
  with assms(3) show "search_aids_raw U read_text path args (None, w) = (Inl e, (None, w'))"
    by (simp add: search_aids_raw_def search_args_valid [OF assms(1)] bind_p_def load_corpus_def corpus_file_def)
next
  fix vs assume vs: "corpus_values text = Inr vs" and "\<exists>v \<in> set vs. \<exists>e. raw_score U v {} = Inl e"
  from search_raw_spoilt [OF this(2)] obtain e where
    e: "type_name e \<in> {py ''TypeError'', py ''KeyError''}" "\<And>query. search_raw U query None vs = Inl e"
    by (elim exE conjE) blast
  have "search_aids_raw U read_text path args (None, w) = (Inl e, (Some (None, vs), w'))"
    using vs assms(2,3) e(2)
    by (simp add: search_aids_raw_def search_args_valid [OF assms(1)] bind_p_def load_corpus_def corpus_file_def)
  moreover have "search_aids_raw U read_text' path' later (Some (None, vs), w1) = (Inl e, (Some (None, vs), w1))"
    if "sa_query later \<noteq> []" "sa_category later = None" for read_text' path' later w1
    using that e(2) by (simp add: search_aids_raw_def search_args_valid bind_p_def load_corpus_def)
  ultimately show "\<exists>e. type_name e \<in> {py ''TypeError'', py ''KeyError''} \<and>
      search_aids_raw U read_text path args (None, w) = (Inl e, (Some (None, vs), w')) \<and>
      (\<forall>read_text' path' later w1. sa_query later \<noteq> [] \<longrightarrow> sa_category later = None \<longrightarrow>
        search_aids_raw U read_text' path' later (Some (None, vs), w1) = (Inl e, (Some (None, vs), w1)))"
    by (intro exI [of _ e] conjI allI impI e(1))
qed

theorem misshapen_corpus_sticks_witness:
  "\<exists>e. type_name e \<in> {py ''TypeError'', py ''KeyError''} \<and>
    (\<forall>w1. search_aids_raw latin1_db (\<lambda>path w. (Inr AIDS_SAMPLE_TEXT, w)) (py ''aids'')
        \<lparr>sa_query = py ''velo'', sa_category = None\<rparr> (Some (None, [JObject [(py ''id'', JInt 1)]]), w1) =
      (Inl e, (Some (None, [JObject [(py ''id'', JInt 1)]]), w1 :: nat)))"
proof -
  let ?text = "json_indented 0 (JArray [JObject [(py ''id'', JInt 1)]])"
  let ?vs = "[JObject [(py ''id'', JInt 1)]]"
  let ?args = "\<lparr>sa_query = py ''velo'', sa_category = None\<rparr>"
  have vs: "corpus_values ?text = Inr ?vs" by code_simp
  have "raw_score latin1_db (JObject [(py ''id'', JInt 1)]) {} =
      Inl (OtherException (py ''KeyError'') ([39] @ py ''title'' @ [39]))" by code_simp
  then have bad: "\<exists>v \<in> set ?vs. \<exists>e. raw_score latin1_db v {} = Inl e" by simp
  have "sa_query ?args \<noteq> []" "sa_category ?args = None" by simp_all
  from misshapen_corpus_sticks [where read_text = "\<lambda>path w. (Inr ?text, w)" and w = "0 :: nat" and path = "[]" and U = latin1_db,
      OF this refl, THEN conjunct2, rule_format, OF vs bad] obtain e where
    e: "type_name e \<in> {py ''TypeError'', py ''KeyError''}" and
    later: "\<forall>read_text' path' later w1. sa_query later \<noteq> [] \<longrightarrow> sa_category later = None \<longrightarrow>
      search_aids_raw latin1_db read_text' path' later (Some (None, ?vs), w1) = (Inl e, (Some (None, ?vs), w1 :: nat))"
    by (elim exE conjE) (rule that)
  show ?thesis
    by (intro exI [of _ e] conjI allI e later [rule_format]) simp_all
qed

end
