(* ===== verification/Deps.thy ===== *)
theory Deps
  imports Config "HOL-Library.Word"
begin

text \<open>
  app/api/deps.py and app/api/routes/health.py: API-key authentication, the three readiness
  checks and the health routes.

  \<open>compare_digest\<close> is \<open>hmac.compare_digest\<close> on texts: both must be ASCII; then their bytes are
  compared by a loop that always runs over the whole second argument and collects the
  differences with exclusive or. The clients of Postgres, Redis and the gateway are parameters
  (\<open>network\<close>). \<open>gather\<close> is \<open>asyncio.gather\<close> on checks, run in any order (\<open>schedule\<close>): all
  of them run, the result has the order of the arguments, and the first exception is raised.
\<close>

unbundle bit_operations_syntax

section \<open>API key\<close>

definition ascii_bytes :: "pystr \<Rightarrow> 8 word list option" where
  "ascii_bytes s = (if list_all is_ascii s then Some (map word_of_int s) else None)"

text \<open>The comparison loop; \<open>acc\<close> is the accumulated difference.\<close>

fun tscmp :: "8 word \<Rightarrow> 8 word list \<Rightarrow> 8 word list \<Rightarrow> 8 word" where
  "tscmp acc (x # xs) (y # ys) = tscmp (acc OR (x XOR y)) xs ys"
| "tscmp acc xs ys = acc"

definition compare_digest :: "pystr \<Rightarrow> pystr \<Rightarrow> exn + bool" where
  "compare_digest a b =
     (case (ascii_bytes a, ascii_bytes b) of
        (Some xs, Some ys) \<Rightarrow>
          Inr ((if length xs = length ys then tscmp 0 xs ys else tscmp 1 ys ys) = 0)
      | _ \<Rightarrow> Inl (TypeError (py ''comparing strings with non-ASCII characters is not supported'')))"

definition verify_api_key :: "settings \<Rightarrow> pystr \<Rightarrow> exn + unit" where
  "verify_api_key settings x_api_key =
     (let unauthorized = Inl (HTTPException 401 (py ''invalid or missing API key'')) in
      if x_api_key = [] then unauthorized
      else bindE (compare_digest x_api_key (APP_API_KEY settings)) (\<lambda>equal.
        if \<not> equal then unauthorized else Inr ()))"

section \<open>Readiness checks\<close>

definition READINESS_TIMEOUT_SECONDS :: rat where "READINESS_TIMEOUT_SECONDS = 1"
definition POSTGRES_CONNECT_TIMEOUT_SECONDS :: int where "POSTGRES_CONNECT_TIMEOUT_SECONDS = 2"

text \<open>
  The libraries behind the checks. \<open>http_get\<close> includes opening and closing the client;
  \<open>liveness_url\<close> is \<open>httpx.URL(base).copy_with(path=...)\<close>.
\<close>

record ('w, 'c, 'r) network =
  pg_connect :: "pystr \<Rightarrow> int \<Rightarrow> ('w, 'c) prog"
  pg_close :: "'c \<Rightarrow> ('w, unit) prog"
  redis_from_url :: "pystr \<Rightarrow> rat \<Rightarrow> exn + 'c"
  redis_ping :: "'c \<Rightarrow> ('w, unit) prog"
  redis_aclose :: "'c \<Rightarrow> ('w, unit) prog"
  liveness_url :: "pystr \<Rightarrow> pystr \<Rightarrow> exn + pystr"
  http_get :: "pystr \<Rightarrow> rat \<Rightarrow> ('w, 'r) prog"
  raise_for_status :: "'r \<Rightarrow> exn + unit"

text \<open>The state of a check: the world and the warnings logged (event and check).\<close>

type_synonym 'w probe = "'w \<times> (pystr \<times> pystr) list"
type_synonym 'w check = "('w probe, bool \<times> pystr) prog"

definition on_world :: "('w, 'a) prog \<Rightarrow> ('w probe, 'a) prog" where
  "on_world m s = (case m (fst s) of (r, w) \<Rightarrow> (r, (w, snd s)))"

definition lift_result :: "exn + 'a \<Rightarrow> ('s, 'a) prog" where
  "lift_result r s = (r, s)"

text \<open>The handlers shared by the checks: \<open>except TimeoutError\<close>, then \<open>except Exception\<close>.\<close>

definition report_failure :: "string \<Rightarrow> ('w probe, unit) prog \<Rightarrow> 'w check" where
  "report_failure name body s =
     (case body s of
        (Inr u, s') \<Rightarrow> (Inr (True, py ''ok''), s')
      | (Inl e, (w, warnings)) \<Rightarrow>
          (case e of
             TimeoutError m \<Rightarrow> (Inr (False, py ''timeout''),
               (w, warnings @ [(py (name @ '' readiness check timeout''), py name)]))
           | _ \<Rightarrow> if is_Exception e
               then (Inr (False, py ''connection failed''),
                 (w, warnings @ [(py (name @ '' readiness check failed''), py name)]))
               else (Inl e, (w, warnings))))"

definition build_postgres_check :: "('w, 'c, 'r) network \<Rightarrow> settings \<Rightarrow> 'w check" where
  "build_postgres_check net settings =
     report_failure ''postgres''
       (bind_p (on_world (pg_connect net (DATABASE_URL settings) POSTGRES_CONNECT_TIMEOUT_SECONDS))
         (\<lambda>conn. on_world (pg_close net conn)))"

text \<open>\<open>finally: await client.aclose()\<close>: an exception of it replaces the outcome.\<close>

definition build_redis_check :: "('w, 'c, 'r) network \<Rightarrow> settings \<Rightarrow> 'w check" where
  "build_redis_check net settings =
     bind_p (lift_result (redis_from_url net (REDIS_URL settings) READINESS_TIMEOUT_SECONDS)) (\<lambda>client s.
       case report_failure ''redis'' (on_world (redis_ping net client)) s of
         (r, s') \<Rightarrow> (case on_world (redis_aclose net client) s' of
             (Inl e, s'') \<Rightarrow> (Inl e, s'')
           | (Inr u, s'') \<Rightarrow> (r, s'')))"

definition build_litellm_check :: "('w, 'c, 'r) network \<Rightarrow> settings \<Rightarrow> 'w check" where
  "build_litellm_check net settings =
     bind_p (lift_result (liveness_url net (LITELLM_BASE_URL settings) (py ''/health/liveliness''))) (\<lambda>health_url.
       report_failure ''litellm''
         (bind_p (on_world (http_get net health_url READINESS_TIMEOUT_SECONDS)) (\<lambda>response.
           lift_result (raise_for_status net response))))"

section \<open>Health routes\<close>

definition VERSION :: pystr where "VERSION = py ''0.1.0''"

definition liveness :: "(pystr \<times> pystr) list" where
  "liveness = [(py ''status'', py ''ok''), (py ''version'', VERSION)]"

text \<open>The outcomes of the tasks \<open>i\<close> in \<open>schedule\<close>, in that order.\<close>

fun run_tasks :: "nat list \<Rightarrow> ('s, 'a) prog list \<Rightarrow> 's \<Rightarrow> (nat \<times> (exn + 'a)) list \<times> 's" where
  "run_tasks [] tasks s = ([], s)"
| "run_tasks (i # schedule) tasks s =
     (case (tasks ! i) s of (r, s') \<Rightarrow>
       (case run_tasks schedule tasks s' of (rs, s'') \<Rightarrow> ((i, r) # rs, s'')))"

definition first_error :: "(nat \<times> (exn + 'a)) list \<Rightarrow> exn option" where
  "first_error rs = map_option (\<lambda>p. projl (snd p)) (find (\<lambda>p. isl (snd p)) rs)"

definition gather :: "nat list \<Rightarrow> ('s, 'a) prog list \<Rightarrow> ('s, 'a list) prog" where
  "gather schedule tasks s =
     (case run_tasks schedule tasks s of (rs, s') \<Rightarrow>
       (case first_error rs of
          Some e \<Rightarrow> (Inl e, s')
        | None \<Rightarrow> (Inr (map (\<lambda>i. projr (the (map_of rs i))) [0..<length tasks]), s')))"

record readiness_response =
  rr_status :: int
  rr_checks :: "(pystr \<times> bool \<times> pystr) list"

definition readiness :: "nat list \<Rightarrow> 'w check \<Rightarrow> 'w check \<Rightarrow> 'w check \<Rightarrow> ('w probe, readiness_response) prog" where
  "readiness schedule postgres_check redis_check litellm_check =
     bind_p (gather schedule [postgres_check, redis_check, litellm_check]) (\<lambda>results.
       return_p \<lparr>rr_status = (if list_all fst results then 200 else 503),
         rr_checks = zip [py ''postgres'', py ''redis'', py ''litellm''] results\<rparr>)"

text \<open>\<open>GET /health/ready\<close> with the checks of the process.\<close>

definition ready :: "nat list \<Rightarrow> ('w, 'c, 'r) network \<Rightarrow> settings \<Rightarrow> ('w probe, readiness_response) prog" where
  "ready schedule net settings =
     readiness schedule (build_postgres_check net settings) (build_redis_check net settings)
       (build_litellm_check net settings)"

section \<open>The comparison loop\<close>

lemma word_xor_eq_0_iff: "(x :: 8 word) XOR y = 0 \<longleftrightarrow> x = y"
  by (simp add: bit_eq_iff bit_simps)

lemma tscmp_eq_0_iff:
  "length xs = length ys \<Longrightarrow> tscmp acc xs ys = 0 \<longleftrightarrow> acc = 0 \<and> xs = ys"
  by (induction acc xs ys rule: tscmp.induct) (auto simp: word_xor_eq_0_iff or_eq_0_iff)

lemma word_of_ascii_inject:
  "is_ascii c \<Longrightarrow> is_ascii d \<Longrightarrow> (word_of_int c :: 8 word) = word_of_int d \<longleftrightarrow> c = d"
  by (auto simp: is_ascii_def word_of_int_eq_iff take_bit_int_eq_self)

lemma ascii_bytes_inject:
  assumes "list_all is_ascii s" and "list_all is_ascii t"
  shows "map (word_of_int :: int \<Rightarrow> 8 word) s = map word_of_int t \<longleftrightarrow> s = t"
  using assms
proof (induction s arbitrary: t)
  case Nil
  then show ?case by (cases t) simp_all
next
  case (Cons c s)
  then show ?case by (cases t) (auto simp: word_of_ascii_inject)
qed

lemma compare_digest_ascii:
  assumes "list_all is_ascii a" and "list_all is_ascii b"
  shows "compare_digest a b = Inr (a = b)"
proof (cases "length a = length b")
  case True
  then show ?thesis
    using assms by (simp add: compare_digest_def ascii_bytes_def tscmp_eq_0_iff ascii_bytes_inject)
next
  case False
  then have "a \<noteq> b" by blast
  with False assms show ?thesis by (simp add: compare_digest_def ascii_bytes_def tscmp_eq_0_iff)
qed

lemma compare_digest_not_ascii:
  "\<not> (list_all is_ascii a \<and> list_all is_ascii b) \<Longrightarrow> \<exists>m. compare_digest a b = Inl (TypeError m)"
  by (auto simp: compare_digest_def ascii_bytes_def split: option.splits)

section \<open>Checks and their composition\<close>

lemma report_failure_ok:
  "body s = (Inr u, s') \<Longrightarrow> report_failure name body s = (Inr (True, py ''ok''), s')"
  by (simp add: report_failure_def)

lemma report_failure_detail:
  assumes "body s = (Inl e, s')" and "is_Exception e"
  shows "fst (report_failure name body s) =
    Inr (False, case e of TimeoutError m \<Rightarrow> py ''timeout'' | _ \<Rightarrow> py ''connection failed'')"
  using assms by (cases s'; cases e) (simp_all add: report_failure_def del: py_simps)

text \<open>A result a check may hand to the route.\<close>

definition check_result_ok :: "bool \<times> pystr \<Rightarrow> bool" where
  "check_result_ok result \<longleftrightarrow>
     result \<in> {(True, py ''ok''), (False, py ''timeout''), (False, py ''connection failed'')}"

definition always_reports :: "'w check \<Rightarrow> bool" where
  "always_reports check \<longleftrightarrow> (\<forall>s. \<exists>result s'. check s = (Inr result, s') \<and> check_result_ok result)"

definition raises_only_Exceptions :: "('s, 'a) prog \<Rightarrow> bool" where
  "raises_only_Exceptions m \<longleftrightarrow> (\<forall>s e s'. m s = (Inl e, s') \<longrightarrow> is_Exception e)"

lemma raises_onlyD: "raises_only_Exceptions m \<Longrightarrow> m s = (Inl e, s') \<Longrightarrow> is_Exception e"
  unfolding raises_only_Exceptions_def by blast

lemma raises_only_on_world:
  "raises_only_Exceptions m \<Longrightarrow> raises_only_Exceptions (on_world m)"
  by (auto simp: raises_only_Exceptions_def on_world_def split: prod.splits)

lemma raises_only_bind_p:
  "raises_only_Exceptions m \<Longrightarrow> (\<And>a. raises_only_Exceptions (f a)) \<Longrightarrow>
    raises_only_Exceptions (bind_p m f)"
  unfolding raises_only_Exceptions_def bind_p_def by (auto split: prod.splits sum.splits)

lemma raises_only_lift_result:
  "(\<And>e. r = Inl e \<Longrightarrow> is_Exception e) \<Longrightarrow> raises_only_Exceptions (lift_result r)"
  by (auto simp: raises_only_Exceptions_def lift_result_def)

lemmas raises_only_intros = raises_only_on_world raises_only_bind_p raises_only_lift_result

lemma report_failure_reports:
  assumes "raises_only_Exceptions body"
  shows "always_reports (report_failure name body)"
  unfolding always_reports_def
proof
  fix s
  show "\<exists>result s'. report_failure name body s = (Inr result, s') \<and> check_result_ok result"
  proof -
    obtain r s' where Pair: "body s = (r, s')" by (cases "body s")
    show ?thesis
    proof (cases r)
      case (Inr u)
      with Pair show ?thesis by (simp add: report_failure_ok check_result_ok_def)
    next
      case (Inl e)
      from raises_onlyD [OF assms] Pair Inl have "is_Exception e" by simp
      then have "\<exists>result. fst (report_failure name body s) = Inr result \<and> check_result_ok result"
        using report_failure_detail [of body s e s' name] Pair Inl
        by (cases e) (simp_all add: check_result_ok_def del: py_simps)
      then show ?thesis by (metis prod.collapse)
    qed
  qed
qed

lemma run_tasks_runs:
  assumes "run_tasks schedule tasks s = (rs, s')"
  shows "map fst rs = schedule"
    and "(i, r) \<in> set rs \<Longrightarrow> \<exists>t t'. (tasks ! i) t = (r, t')"
  using assms
  by (induction schedule arbitrary: s rs) (auto split: prod.splits, blast)

lemma first_error_SomeD: "first_error rs = Some e \<Longrightarrow> \<exists>i. (i, Inl e) \<in> set rs"
  by (induction rs) (auto simp: first_error_def isl_def split: if_splits)

lemma first_error_NoneD: "first_error rs = None \<Longrightarrow> (i, r) \<in> set rs \<Longrightarrow> \<exists>a. r = Inr a"
  by (cases r) (auto simp: first_error_def find_eq_None_iff)

lemma gather_Inl:
  assumes "gather schedule tasks s = (Inl e, s')"
  shows "\<exists>i \<in> set schedule. \<exists>t t'. (tasks ! i) t = (Inl e, t')"
proof -
  obtain rs s1 where run: "run_tasks schedule tasks s = (rs, s1)"
    by (cases "run_tasks schedule tasks s")
  with assms have "first_error rs = Some e" by (simp add: gather_def split: option.splits)
  then obtain i where "(i, Inl e) \<in> set rs" by (blast dest: first_error_SomeD)
  with run_tasks_runs [OF run] show ?thesis by force
qed

lemma gather_Inr:
  assumes "gather schedule tasks s = (Inr results, s')"
    and "distinct schedule" and "set schedule = {..<length tasks}"
  shows "length results = length tasks"
    and "i < length tasks \<Longrightarrow> \<exists>t t'. (tasks ! i) t = (Inr (results ! i), t')"
proof -
  obtain rs s1 where run: "run_tasks schedule tasks s = (rs, s1)"
    by (cases "run_tasks schedule tasks s")
  with assms(1) have none: "first_error rs = None"
    and results: "results = map (\<lambda>i. projr (the (map_of rs i))) [0..<length tasks]"
    by (auto simp: gather_def split: option.splits)
  from results show "length results = length tasks" by simp
  assume i: "i < length tasks"
  with assms(3) have "i \<in> fst ` set rs"
    using run_tasks_runs(1) [OF run] by (metis lessThan_iff set_map)
  then obtain r where r: "map_of rs i = Some r" by (cases "map_of rs i") (auto simp: map_of_eq_None_iff)
  then have mem: "(i, r) \<in> set rs" by (rule map_of_SomeD)
  with none obtain a where "r = Inr a" by (blast dest: first_error_NoneD)
  with r results i mem run_tasks_runs(2) [OF run]
  show "\<exists>t t'. (tasks ! i) t = (Inr (results ! i), t')" by fastforce
qed

subsection \<open>The three checks\<close>

text \<open>
  What the clients promise: their calls fail with an \<open>Exception\<close> (they are not cancelled), and
  closing the Redis client does not fail.
\<close>

definition clients_raise_Exceptions :: "('w, 'c, 'r) network \<Rightarrow> bool" where
  "clients_raise_Exceptions net \<longleftrightarrow>
     (\<forall>dsn t. raises_only_Exceptions (pg_connect net dsn t)) \<and>
     (\<forall>c. raises_only_Exceptions (pg_close net c)) \<and>
     (\<forall>c. raises_only_Exceptions (redis_ping net c)) \<and>
     (\<forall>url t. raises_only_Exceptions (http_get net url t)) \<and>
     (\<forall>r e. raise_for_status net r = Inl e \<longrightarrow> is_Exception e)"

definition aclose_returns :: "('w, 'c, 'r) network \<Rightarrow> bool" where
  "aclose_returns net \<longleftrightarrow> (\<forall>c w. \<exists>w'. redis_aclose net c w = (Inr (), w'))"

lemma postgres_check_reports:
  assumes "clients_raise_Exceptions net"
  shows "always_reports (build_postgres_check net settings)"
  using assms unfolding build_postgres_check_def clients_raise_Exceptions_def
  by (intro report_failure_reports raises_only_intros) auto

lemma bind_lift_Inr: "bind_p (lift_result (Inr a)) f = f a"
  by (rule ext) (simp add: bind_p_def lift_result_def)

lemma bind_lift_Inl: "bind_p (lift_result (Inl e)) f s = (Inl e, s)"
  by (simp add: bind_p_def lift_result_def)

lemma litellm_check_reports:
  assumes "clients_raise_Exceptions net"
    and "liveness_url net (LITELLM_BASE_URL settings) (py ''/health/liveliness'') = Inr url"
  shows "always_reports (build_litellm_check net settings)"
  using assms unfolding build_litellm_check_def clients_raise_Exceptions_def assms(2) bind_lift_Inr
  by (intro report_failure_reports raises_only_intros) auto

lemma redis_check_reports:
  assumes net: "clients_raise_Exceptions net" "aclose_returns net"
    and client: "redis_from_url net (REDIS_URL settings) READINESS_TIMEOUT_SECONDS = Inr client"
  shows "always_reports (build_redis_check net settings)"
proof -
  from net(1) have reports: "always_reports (report_failure ''redis'' (on_world (redis_ping net client)))"
    unfolding clients_raise_Exceptions_def by (intro report_failure_reports raises_only_intros) auto
  have aclose: "\<exists>u t. on_world (redis_aclose net client) s = (Inr u, t)" for s
  proof -
    from net(2) obtain w where "redis_aclose net client (fst s) = (Inr (), w)"
      unfolding aclose_returns_def by blast
    then show ?thesis by (simp add: on_world_def)
  qed
  show ?thesis
    unfolding always_reports_def build_redis_check_def client bind_lift_Inr
  proof
    fix s
    from reports obtain result s1 where
      1: "report_failure ''redis'' (on_world (redis_ping net client)) s = (Inr result, s1)"
        "check_result_ok result" unfolding always_reports_def by blast
    moreover obtain u s2 where "on_world (redis_aclose net client) s1 = (Inr u, s2)" using aclose by blast
    ultimately show "\<exists>result s'. (case report_failure ''redis'' (on_world (redis_ping net client)) s of
        (r, s') \<Rightarrow> (case on_world (redis_aclose net client) s' of
          (Inl e, s'') \<Rightarrow> (Inl e, s'') | (Inr u, s'') \<Rightarrow> (r, s''))) = (Inr result, s') \<and> check_result_ok result"
      by simp
  qed
qed

lemma redis_check_raises:
  "redis_from_url net (REDIS_URL settings) READINESS_TIMEOUT_SECONDS = Inl e \<Longrightarrow>
    build_redis_check net settings s = (Inl e, s)"
  by (simp add: build_redis_check_def bind_lift_Inl)

lemma litellm_check_raises:
  "liveness_url net (LITELLM_BASE_URL settings) (py ''/health/liveliness'') = Inl e \<Longrightarrow>
    build_litellm_check net settings s = (Inl e, s)"
  by (simp add: build_litellm_check_def bind_lift_Inl del: py_simps)

lemma always_reportsD:
  "always_reports check \<Longrightarrow> check s = (r, s') \<Longrightarrow> \<exists>result. r = Inr result \<and> check_result_ok result"
  unfolding always_reports_def by (metis prod.inject)

lemma redis_check_outcome:
  assumes "clients_raise_Exceptions net" and "aclose_returns net"
    and run: "build_redis_check net settings t = (r, t')"
  shows "case redis_from_url net (REDIS_URL settings) READINESS_TIMEOUT_SECONDS of
     Inl e \<Rightarrow> r = Inl e | Inr client \<Rightarrow> \<exists>result. r = Inr result \<and> check_result_ok result"
proof (cases "redis_from_url net (REDIS_URL settings) READINESS_TIMEOUT_SECONDS")
  case (Inl e)
  with run show ?thesis by (simp add: redis_check_raises)
next
  case (Inr client)
  from always_reportsD [OF redis_check_reports [OF assms(1,2) Inr] run] Inr show ?thesis by simp
qed

lemma litellm_check_outcome:
  assumes "clients_raise_Exceptions net" and run: "build_litellm_check net settings t = (r, t')"
  shows "case liveness_url net (LITELLM_BASE_URL settings) (py ''/health/liveliness'') of
     Inl e \<Rightarrow> r = Inl e | Inr url \<Rightarrow> \<exists>result. r = Inr result \<and> check_result_ok result"
proof (cases "liveness_url net (LITELLM_BASE_URL settings) (py ''/health/liveliness'')")
  case (Inl e)
  with run show ?thesis by (simp add: litellm_check_raises del: py_simps)
next
  case (Inr url)
  from always_reportsD [OF litellm_check_reports [OF assms(1) Inr] run] Inr show ?thesis
    by (simp del: py_simps)
qed

lemma gather_three:
  assumes "gather schedule [a, b, c] s = (Inr results, s')"
    and "distinct schedule" and "set schedule = {0, 1, 2}"
  shows "\<exists>x y z. results = [x, y, z] \<and> (\<exists>t t'. a t = (Inr x, t')) \<and> (\<exists>t t'. b t = (Inr y, t')) \<and>
    (\<exists>t t'. c t = (Inr z, t'))"
proof -
  have set3: "set schedule = {..<length [a, b, c]}" using assms(3) by auto
  note all = gather_Inr [OF assms(1,2) set3]
  from all(1) have "length results = 3" by simp
  then obtain x y z where "results = [x, y, z]"
    by (auto simp: length_Suc_conv numeral_3_eq_3)
  with all(2) [of 0] all(2) [of 1] all(2) [of 2] show ?thesis by simp
qed

lemma gather_three_error:
  assumes "gather schedule [a, b, c] s = (Inl e, s')" and "set schedule = {0, 1, 2}"
  shows "\<exists>t t'. a t = (Inl e, t') \<or> b t = (Inl e, t') \<or> c t = (Inl e, t')"
proof -
  from gather_Inl [OF assms(1)] obtain i t t' where
    i: "i \<in> set schedule" and t: "([a, b, c] ! i) t = (Inl e, t')" by blast
  from i assms(2) have "i = 0 \<or> i = 1 \<or> i = 2" by simp
  with t have "a t = (Inl e, t') \<or> b t = (Inl e, t') \<or> c t = (Inl e, t')" by auto
  then show ?thesis by blast
qed

section \<open>Properties\<close>

text \<open>C25. The API-key dependency admits exactly the requests whose \<open>X-API-Key\<close> header is the
  configured key; the comparison loop, which never stops early, decides equality. A header or a
  configured key outside ASCII is a \<open>TypeError\<close>, not a 401; every other request is a 401.\<close>

theorem verify_api_key_exact:
  "(verify_api_key settings key = Inr () \<longleftrightarrow>
      key \<noteq> [] \<and> key = APP_API_KEY settings \<and> list_all is_ascii key) \<and>
   ((\<exists>m. verify_api_key settings key = Inl (TypeError m)) \<longleftrightarrow>
      key \<noteq> [] \<and> \<not> (list_all is_ascii key \<and> list_all is_ascii (APP_API_KEY settings))) \<and>
   ((\<exists>m. verify_api_key settings key = Inl (HTTPException 401 m)) \<longleftrightarrow>
      key = [] \<or> key \<noteq> APP_API_KEY settings \<and> list_all is_ascii (key @ APP_API_KEY settings))"
proof (cases "key = [] \<or> list_all is_ascii key \<and> list_all is_ascii (APP_API_KEY settings)")
  case True
  then show ?thesis
    by (auto simp: verify_api_key_def Let_def compare_digest_ascii simp del: py_simps split: if_splits)
next
  case False
  then obtain m where "compare_digest key (APP_API_KEY settings) = Inl (TypeError m)"
    using compare_digest_not_ascii by blast
  with False show ?thesis by (auto simp: verify_api_key_def Let_def simp del: py_simps)
qed

definition api_settings :: settings where
  "api_settings = projr (load_settings (\<lambda>_. None) [py ''APP_API_KEY'' \<mapsto> py ''secret''])"

theorem verify_api_key_exact_witness:
  "verify_api_key api_settings (py ''secret'') = Inr () \<and>
   (\<exists>m. verify_api_key api_settings [115, 233] = Inl (TypeError m)) \<and>
   (\<exists>m. verify_api_key api_settings (py ''secre'') = Inl (HTTPException 401 m))"
proof -
  have key: "APP_API_KEY api_settings = py ''secret''" by code_simp
  show ?thesis
    using verify_api_key_exact [of api_settings "py ''secret''"]
      verify_api_key_exact [of api_settings "[115, 233]"]
      verify_api_key_exact [of api_settings "py ''secre''"]
    by (simp add: key is_ascii_def)
qed

text \<open>What the gathered checks of the route give, in terms of the parsed URLs.\<close>

lemma gathered_error:
  assumes "clients_raise_Exceptions net" and "aclose_returns net" and "set schedule = {0, 1, 2}"
    and "gather schedule [build_postgres_check net settings, build_redis_check net settings,
      build_litellm_check net settings] s = (Inl e, s')"
  shows "redis_from_url net (REDIS_URL settings) READINESS_TIMEOUT_SECONDS = Inl e \<or>
    liveness_url net (LITELLM_BASE_URL settings) (py ''/health/liveliness'') = Inl e"
proof -
  let ?p = "build_postgres_check net settings" and ?r = "build_redis_check net settings"
    and ?l = "build_litellm_check net settings"
  obtain t t' where "?p t = (Inl e, t') \<or> ?r t = (Inl e, t') \<or> ?l t = (Inl e, t')"
    using gather_three_error [OF assms(4,3)] by blast
  then consider "?p t = (Inl e, t')" | "?r t = (Inl e, t')" | "?l t = (Inl e, t')" by blast
  then show ?thesis
  proof cases
    case 1
    from always_reportsD [OF postgres_check_reports [OF assms(1)] 1] show ?thesis by simp
  next
    case 2
    from redis_check_outcome [OF assms(1,2) 2] show ?thesis by (simp split: sum.splits)
  next
    case 3
    from litellm_check_outcome [OF assms(1) 3] show ?thesis by (simp del: py_simps split: sum.splits)
  qed
qed

lemma checks_succeed:
  assumes "clients_raise_Exceptions net" and "aclose_returns net"
  shows "build_postgres_check net settings t = (Inr x, t') \<Longrightarrow> check_result_ok x"
    and "build_redis_check net settings t = (Inr x, t') \<Longrightarrow>
      (\<exists>c. redis_from_url net (REDIS_URL settings) READINESS_TIMEOUT_SECONDS = Inr c) \<and> check_result_ok x"
    and "build_litellm_check net settings t = (Inr x, t') \<Longrightarrow>
      (\<exists>u. liveness_url net (LITELLM_BASE_URL settings) (py ''/health/liveliness'') = Inr u) \<and> check_result_ok x"
proof -
  show "check_result_ok x" if "build_postgres_check net settings t = (Inr x, t')"
    using always_reportsD [OF postgres_check_reports [OF assms(1)] that] by simp
  show "(\<exists>c. redis_from_url net (REDIS_URL settings) READINESS_TIMEOUT_SECONDS = Inr c) \<and> check_result_ok x"
    if "build_redis_check net settings t = (Inr x, t')"
    using redis_check_outcome [OF assms that] by (simp split: sum.splits)
  show "(\<exists>u. liveness_url net (LITELLM_BASE_URL settings) (py ''/health/liveliness'') = Inr u) \<and> check_result_ok x"
    if "build_litellm_check net settings t = (Inr x, t')"
    using litellm_check_outcome [OF assms(1) that] by (simp del: py_simps split: sum.splits)
qed

text \<open>C29. As long as the clients fail only with an \<open>Exception\<close> and the Redis client can be
  closed, \<open>GET /health/ready\<close>, whatever the order its checks run in, answers unless one of the
  two URLs is malformed (these are parsed outside the \<open>try\<close>); then that error leaves the route.
  Its answer names the three checks in order, each with the outcome of that very check, one of
  three fixed details with \<open>ok\<close> exactly when the check succeeded, and is 200 exactly when all are ok.\<close>

theorem ready_reports:
  assumes "clients_raise_Exceptions net" and "aclose_returns net"
    and "distinct schedule" and "set schedule = {0, 1, 2}"
  shows "case fst (ready schedule net settings s) of
     Inl e \<Rightarrow> redis_from_url net (REDIS_URL settings) READINESS_TIMEOUT_SECONDS = Inl e \<or>
       liveness_url net (LITELLM_BASE_URL settings) (py ''/health/liveliness'') = Inl e
   | Inr response \<Rightarrow>
       (\<exists>client. redis_from_url net (REDIS_URL settings) READINESS_TIMEOUT_SECONDS = Inr client) \<and>
       (\<exists>url. liveness_url net (LITELLM_BASE_URL settings) (py ''/health/liveliness'') = Inr url) \<and>
       (\<exists>postgres redis litellm.
          rr_checks response =
            [(py ''postgres'', postgres), (py ''redis'', redis), (py ''litellm'', litellm)] \<and>
          (\<exists>t t'. build_postgres_check net settings t = (Inr postgres, t')) \<and>
          (\<exists>t t'. build_redis_check net settings t = (Inr redis, t')) \<and>
          (\<exists>t t'. build_litellm_check net settings t = (Inr litellm, t')) \<and>
          check_result_ok postgres \<and> check_result_ok redis \<and> check_result_ok litellm \<and>
          rr_status response = (if fst postgres \<and> fst redis \<and> fst litellm then 200 else 503))"
proof -
  let ?p = "build_postgres_check net settings" and ?r = "build_redis_check net settings"
    and ?l = "build_litellm_check net settings"
  obtain g s' where g: "gather schedule [?p, ?r, ?l] s = (g, s')"
    by (cases "gather schedule [?p, ?r, ?l] s")
  show ?thesis
  proof (cases g)
    case (Inl e)
    from gathered_error [OF assms(1,2,4) g [unfolded Inl]] g Inl show ?thesis
      by (simp add: ready_def readiness_def bind_p_simps(1) del: py_simps)
  next
    case (Inr results)
    from gather_three [OF g [unfolded Inr] assms(3,4)] obtain x y z t1 t2 t3 u1 u2 u3 where
      results: "results = [x, y, z]" and p: "?p t1 = (Inr x, u1)" and r: "?r t2 = (Inr y, u2)"
      and l: "?l t3 = (Inr z, u3)" by blast
    note x = checks_succeed(1) [OF assms(1,2) p] and y = checks_succeed(2) [OF assms(1,2) r]
      and z = checks_succeed(3) [OF assms(1,2) l]
    have response: "fst (ready schedule net settings s) =
        Inr \<lparr>rr_status = (if fst x \<and> fst y \<and> fst z then 200 else 503),
          rr_checks = [(py ''postgres'', x), (py ''redis'', y), (py ''litellm'', z)]\<rparr>"
      using g Inr results
      by (simp add: ready_def readiness_def bind_p_simps(2) return_p_def del: py_simps)
    show ?thesis
      unfolding response sum.case readiness_response.simps
      by (intro conjI exI [of _ x] exI [of _ y] exI [of _ z] refl x
          conjunct1 [OF y] conjunct2 [OF y] conjunct1 [OF z] conjunct2 [OF z]) (use p r l in blast)+
  qed
qed

text \<open>A deployment in which Redis refuses connections and the gateway answers too late.\<close>

definition example_network :: "(nat, unit, int) network" where
  "example_network =
     \<lparr>pg_connect = (\<lambda>dsn t w. (Inr (), w + 1)), pg_close = (\<lambda>c w. (Inr (), w)),
      redis_from_url = (\<lambda>url t. Inr ()),
      redis_ping = (\<lambda>c w. (Inl (OtherException (py ''ConnectionError'') []), w)),
      redis_aclose = (\<lambda>c w. (Inr (), w)),
      liveness_url = (\<lambda>base path. Inr path),
      http_get = (\<lambda>url t w. (Inl (TimeoutError []), w)),
      raise_for_status = (\<lambda>r. Inr ())\<rparr>"

theorem ready_reports_witness:
  "(\<exists>response. fst (ready [2, 0, 1] example_network api_settings (0, [])) = Inr response \<and>
     rr_status response = 503) \<and>
   clients_raise_Exceptions example_network \<and> aclose_returns example_network"
proof -
  have ok: "clients_raise_Exceptions example_network" "aclose_returns example_network"
    by (auto simp: clients_raise_Exceptions_def aclose_returns_def raises_only_Exceptions_def
        example_network_def)
  have "distinct [2, 0, 1::nat]" and "set [2, 0, 1::nat] = {0, 1, 2}" by auto
  note ready = ready_reports [OF ok this, of api_settings "(0, [])"]
  have redis: "\<not> fst x" if "build_redis_check example_network settings t = (Inr x, t')" for settings t t' x
    using that by (auto simp: build_redis_check_def example_network_def bind_lift_Inr
        report_failure_def on_world_def split: prod.splits)
  show ?thesis
  proof (cases "fst (ready [2, 0, 1] example_network api_settings (0, []))")
    case (Inl e)
    with ready show ?thesis by (simp add: example_network_def)
  next
    case (Inr response)
    with ready redis ok show ?thesis by (fastforce simp del: py_simps)
  qed
qed

end
