(* ===== verification/Codecs.thy ===== *)
theory Codecs
  imports PyText
begin

text \<open>
  The two codecs of the standard library that the telemetry setup uses: \<open>str.encode()\<close> (UTF-8)
  and \<open>base64.b64encode\<close>. A byte is an integer from 0 to 255, as in Python's \<open>bytes\<close>.

  \<open>utf8_decode\<close> and \<open>b64decode\<close> are readers of the two formats; the lemmas show that they
  recover what was encoded.
\<close>

section \<open>UTF-8\<close>

definition is_byte :: "int \<Rightarrow> bool" where
  "is_byte b \<longleftrightarrow> 0 \<le> b \<and> b < 256"

text \<open>A code point that is not a surrogate.\<close>

definition is_scalar :: "pychar \<Rightarrow> bool" where
  "is_scalar c \<longleftrightarrow> 0 \<le> c \<and> c < 1114112 \<and> \<not> (55296 \<le> c \<and> c < 57344)"

definition utf8_char :: "pychar \<Rightarrow> int list" where
  "utf8_char c =
     (if c < 128 then [c]
      else if c < 2048 then [192 + c div 64, 128 + c mod 64]
      else if c < 65536 then [224 + c div 4096, 128 + c div 64 mod 64, 128 + c mod 64]
      else [240 + c div 262144, 128 + c div 4096 mod 64, 128 + c div 64 mod 64, 128 + c mod 64])"

definition utf8_encode :: "pystr \<Rightarrow> exn + int list" where
  "utf8_encode s =
     (if list_all is_scalar s then Inr (concat (map utf8_char s))
      else Inl (OtherException (py ''UnicodeEncodeError'') (py ''surrogates not allowed'')))"

fun utf8_decode :: "int list \<Rightarrow> pystr" where
  "utf8_decode [] = []"
| "utf8_decode (b # bs) =
     (if b < 192 then b # utf8_decode bs
      else if b < 224 then (case bs of
          x # r \<Rightarrow> ((b - 192) * 64 + (x - 128)) # utf8_decode r | _ \<Rightarrow> [])
      else if b < 240 then (case bs of
          x # y # r \<Rightarrow> ((b - 224) * 4096 + (x - 128) * 64 + (y - 128)) # utf8_decode r | _ \<Rightarrow> [])
      else (case bs of
          x # y # z # r \<Rightarrow>
            ((b - 240) * 262144 + (x - 128) * 4096 + (y - 128) * 64 + (z - 128)) # utf8_decode r
        | _ \<Rightarrow> []))"

text \<open>Quotients and remainders of bounded numbers.\<close>

lemmas div_bounds = div_less_iff_less_mult pos_imp_zdiv_nonneg_iff

lemma mod_bounds: "0 < k \<Longrightarrow> 0 \<le> (c :: int) mod k \<and> c mod k < k"
  by simp

lemma mod_64: "0 \<le> (c :: int) mod 64 \<and> c mod 64 < 64"
  by simp

lemma utf8_char_bytes: "is_scalar c \<Longrightarrow> list_all is_byte (utf8_char c)"
  using mod_64 [of c] mod_64 [of "c div 64"] mod_64 [of "c div 4096"]
  by (auto simp: utf8_char_def is_scalar_def is_byte_def div_bounds)

lemma split_64: "(c :: int) div 64 * 64 + c mod 64 = c"
  by simp

lemma split_4096: "(c :: int) div 4096 * 4096 + c div 64 mod 64 * 64 + c mod 64 = c"
proof -
  have "c div 4096 = c div 64 div 64" using zdiv_zmult2_eq [of 64 c 64] by simp
  with split_64 [of c] split_64 [of "c div 64"] show ?thesis by linarith
qed

lemma split_262144:
  "(c :: int) div 262144 * 262144 + c div 4096 mod 64 * 4096 + c div 64 mod 64 * 64 + c mod 64 = c"
proof -
  have "c div 262144 = c div 4096 div 64" using zdiv_zmult2_eq [of 64 c 4096] by simp
  with split_4096 [of c] split_64 [of "c div 4096"] show ?thesis by linarith
qed

lemma utf8_decode_lead:
  "0 \<le> h \<Longrightarrow> h < 32 \<Longrightarrow>
    utf8_decode ((192 + h) # (128 + x) # bs) = (h * 64 + x) # utf8_decode bs"
  "0 \<le> h \<Longrightarrow> h < 16 \<Longrightarrow>
    utf8_decode ((224 + h) # (128 + x) # (128 + y) # bs) = (h * 4096 + x * 64 + y) # utf8_decode bs"
  "0 \<le> h \<Longrightarrow>
    utf8_decode ((240 + h) # (128 + x) # (128 + y) # (128 + z) # bs) =
      (h * 262144 + x * 4096 + y * 64 + z) # utf8_decode bs"
  by simp_all

lemma utf8_decode_char:
  assumes "is_scalar c"
  shows "utf8_decode (utf8_char c @ bs) = c # utf8_decode bs"
proof -
  from assms have c: "0 \<le> c" "c < 1114112" by (simp_all add: is_scalar_def)
  consider "c < 128" | "\<not> c < 128" "c < 2048" | "\<not> c < 2048" "c < 65536" | "\<not> c < 65536" by linarith
  then show ?thesis
  proof cases
    case 1
    then show ?thesis by (simp add: utf8_char_def)
  next
    case 2
    with c have h: "0 \<le> c div 64" "c div 64 < 32" by (simp_all add: div_bounds)
    from 2 have "utf8_char c = [192 + c div 64, 128 + c mod 64]" by (simp add: utf8_char_def)
    then show ?thesis by (simp only: append.simps utf8_decode_lead(1) [OF h] split_64)
  next
    case 3
    with c have h: "0 \<le> c div 4096" "c div 4096 < 16" by (simp_all add: div_bounds)
    from 3 have "utf8_char c = [224 + c div 4096, 128 + c div 64 mod 64, 128 + c mod 64]"
      unfolding utf8_char_def by simp
    then show ?thesis by (simp only: append.simps utf8_decode_lead(2) [OF h] split_4096)
  next
    case 4
    with c have h: "0 \<le> c div 262144" by (simp add: div_bounds)
    from 4 have "utf8_char c =
        [240 + c div 262144, 128 + c div 4096 mod 64, 128 + c div 64 mod 64, 128 + c mod 64]"
      unfolding utf8_char_def by simp
    then show ?thesis by (simp only: append.simps utf8_decode_lead(3) [OF h] split_262144)
  qed
qed

lemma utf8_decode_encode: "utf8_encode s = Inr bs \<Longrightarrow> utf8_decode bs = s"
proof (induction s arbitrary: bs)
  case Nil
  then show ?case by (simp add: utf8_encode_def)
next
  case (Cons c s)
  then show ?case by (auto simp: utf8_encode_def utf8_decode_char split: if_splits)
qed

lemma utf8_encode_bytes: "utf8_encode s = Inr bs \<Longrightarrow> list_all is_byte bs"
  by (fastforce simp: utf8_encode_def list_all_iff split: if_splits dest: utf8_char_bytes)

section \<open>Base64\<close>

definition b64char :: "int \<Rightarrow> pychar" where
  "b64char i =
     (if i < 26 then 65 + i else if i < 52 then 71 + i else if i < 62 then i - 4
      else if i = 62 then 43 else 47)"

fun b64encode :: "int list \<Rightarrow> pystr" where
  "b64encode [] = []"
| "b64encode [a] = [b64char (a div 4), b64char (a mod 4 * 16), 61, 61]"
| "b64encode [a, b] =
     [b64char (a div 4), b64char (a mod 4 * 16 + b div 16), b64char (b mod 16 * 4), 61]"
| "b64encode (a # b # c # bs) =
     b64char (a div 4) # b64char (a mod 4 * 16 + b div 16) # b64char (b mod 16 * 4 + c div 64) #
     b64char (c mod 64) # b64encode bs"

definition b64value :: "pychar \<Rightarrow> int" where
  "b64value c =
     (if 97 \<le> c then c - 71 else if 65 \<le> c then c - 65 else if 48 \<le> c then c + 4
      else if c = 43 then 62 else 63)"

fun b64decode :: "pystr \<Rightarrow> int list" where
  "b64decode (p # q # r # s # cs) =
     (let a = b64value p * 4 + b64value q div 16;
          b = b64value q mod 16 * 16 + b64value r div 4;
          c = b64value r mod 4 * 64 + b64value s in
      if r = 61 then [a] else if s = 61 then [a, b] else a # b # c # b64decode cs)"
| "b64decode cs = []"

lemma b64value_char: "0 \<le> i \<Longrightarrow> i < 64 \<Longrightarrow> b64value (b64char i) = i"
  by (auto simp: b64value_def b64char_def)

lemma b64char_not_pad: "0 \<le> i \<Longrightarrow> i < 64 \<Longrightarrow> b64char i \<noteq> 61"
  by (auto simp: b64char_def)

text \<open>The characters base64 is written in.\<close>

definition is_b64 :: "pychar \<Rightarrow> bool" where
  "is_b64 c \<longleftrightarrow> (65 \<le> c \<and> c \<le> 90) \<or> (97 \<le> c \<and> c \<le> 122) \<or> (48 \<le> c \<and> c \<le> 57) \<or> c \<in> {43, 47, 61}"

lemma b64char_is_b64: "0 \<le> i \<Longrightarrow> i < 64 \<Longrightarrow> is_b64 (b64char i)"
  by (auto simp: b64char_def is_b64_def)

text \<open>The sextets of three bytes, and the bytes they stand for.\<close>

lemma byte_parts:
  assumes "is_byte a"
  shows "0 \<le> a div 4" "a div 4 < 64" "0 \<le> a div 16" "a div 16 < 16" "0 \<le> a div 64" "a div 64 < 4"
    "0 \<le> a mod 4" "a mod 4 < 4" "0 \<le> a mod 16" "a mod 16 < 16"
  using assms by (auto simp: is_byte_def div_bounds)

lemma sextet_bounds:
  "0 \<le> x \<Longrightarrow> x < 4 \<Longrightarrow> 0 \<le> x * 16 \<and> x * 16 < (64 :: int)"
  "0 \<le> x \<Longrightarrow> x < 4 \<Longrightarrow> 0 \<le> t \<Longrightarrow> t < 16 \<Longrightarrow> 0 \<le> x * 16 + t \<and> x * 16 + t < (64 :: int)"
  "0 \<le> x \<Longrightarrow> x < 16 \<Longrightarrow> 0 \<le> x * 4 \<and> x * 4 < (64 :: int)"
  "0 \<le> x \<Longrightarrow> x < 16 \<Longrightarrow> 0 \<le> t \<Longrightarrow> t < 4 \<Longrightarrow> 0 \<le> x * 4 + t \<and> x * 4 + t < (64 :: int)"
  by linarith+

lemma sextets:
  assumes "is_byte a" and "is_byte b" and "is_byte c"
  shows "0 \<le> a div 4" "a div 4 < 64" "0 \<le> a mod 4 * 16" "a mod 4 * 16 < 64"
    "0 \<le> a mod 4 * 16 + b div 16" "a mod 4 * 16 + b div 16 < 64"
    "0 \<le> b mod 16 * 4" "b mod 16 * 4 < 64"
    "0 \<le> b mod 16 * 4 + c div 64" "b mod 16 * 4 + c div 64 < 64"
    "0 \<le> c mod 64" "c mod 64 < 64"
proof -
  note A = byte_parts [OF assms(1)] and B = byte_parts [OF assms(2)] and C = byte_parts [OF assms(3)]
  show "0 \<le> a div 4" "a div 4 < 64" by (fact A)+
  show "0 \<le> a mod 4 * 16" "a mod 4 * 16 < 64" using sextet_bounds(1) [OF A(7,8)] by blast+
  show "0 \<le> a mod 4 * 16 + b div 16" "a mod 4 * 16 + b div 16 < 64"
    using sextet_bounds(2) [OF A(7,8) B(3,4)] by blast+
  show "0 \<le> b mod 16 * 4" "b mod 16 * 4 < 64" using sextet_bounds(3) [OF B(9,10)] by blast+
  show "0 \<le> b mod 16 * 4 + c div 64" "b mod 16 * 4 + c div 64 < 64"
    using sextet_bounds(4) [OF B(9,10) C(5,6)] by blast+
  show "0 \<le> c mod 64" "c mod 64 < 64" using mod_64 [of c] by blast+
qed

lemma split_16: "0 \<le> t \<Longrightarrow> t < 16 \<Longrightarrow> (x * 16 + t) div 16 = (x :: int) \<and> (x * 16 + t) mod 16 = t"
  by simp

lemma split_4: "0 \<le> t \<Longrightarrow> t < 4 \<Longrightarrow> (x * 4 + t) div 4 = (x :: int) \<and> (x * 4 + t) mod 4 = t"
  by simp

lemma bytes_of_sextets:
  assumes "is_byte a" and "is_byte b" and "is_byte c"
  shows "a div 4 * 4 + a mod 4 * 16 div 16 = a"
    "a div 4 * 4 + (a mod 4 * 16 + b div 16) div 16 = a"
    "(a mod 4 * 16 + b div 16) mod 16 * 16 + b mod 16 * 4 div 4 = b"
    "(a mod 4 * 16 + b div 16) mod 16 * 16 + (b mod 16 * 4 + c div 64) div 4 = b"
    "(b mod 16 * 4 + c div 64) mod 4 * 64 + c mod 64 = c"
proof -
  note B = byte_parts [OF assms(2)] and C = byte_parts [OF assms(3)]
  note b = split_16 [OF B(3,4), of "a mod 4"] and c = split_4 [OF C(5,6), of "b mod 16"]
  show "a div 4 * 4 + a mod 4 * 16 div 16 = a" by simp
  show "a div 4 * 4 + (a mod 4 * 16 + b div 16) div 16 = a" by (simp only: b) simp
  show "(a mod 4 * 16 + b div 16) mod 16 * 16 + b mod 16 * 4 div 4 = b" by (simp only: b) simp
  show "(a mod 4 * 16 + b div 16) mod 16 * 16 + (b mod 16 * 4 + c div 64) div 4 = b"
    by (simp only: b c) simp
  show "(b mod 16 * 4 + c div 64) mod 4 * 64 + c mod 64 = c" by (simp only: c) simp
qed

text \<open>The symbols of three bytes decode to them.\<close>

lemma sextet_values:
  assumes "is_byte a" and "is_byte b" and "is_byte c"
  shows "b64value (b64char (a div 4)) = a div 4"
    "b64value (b64char (a mod 4 * 16)) = a mod 4 * 16"
    "b64value (b64char (a mod 4 * 16 + b div 16)) = a mod 4 * 16 + b div 16"
    "b64value (b64char (b mod 16 * 4)) = b mod 16 * 4"
    "b64value (b64char (b mod 16 * 4 + c div 64)) = b mod 16 * 4 + c div 64"
    "b64value (b64char (c mod 64)) = c mod 64"
    "b64char (b mod 16 * 4) \<noteq> 61" "b64char (b mod 16 * 4 + c div 64) \<noteq> 61" "b64char (c mod 64) \<noteq> 61"
  by (intro b64value_char b64char_not_pad sextets [OF assms])+

lemma sextet_chars:
  assumes "is_byte a" and "is_byte b" and "is_byte c"
  shows "is_b64 (b64char (a div 4))" "is_b64 (b64char (a mod 4 * 16))"
    "is_b64 (b64char (a mod 4 * 16 + b div 16))" "is_b64 (b64char (b mod 16 * 4))"
    "is_b64 (b64char (b mod 16 * 4 + c div 64))" "is_b64 (b64char (c mod 64))" "is_b64 61"
  using b64char_is_b64 sextets [OF assms] by (blast, blast, blast, blast, blast, blast) (simp add: is_b64_def)

lemma is_byte_0: "is_byte 0"
  by (simp add: is_byte_def)

lemma b64decode_encode: "list_all is_byte bs \<Longrightarrow> b64decode (b64encode bs) = bs"
proof (induction bs rule: b64encode.induct)
  case (2 a)
  then have "is_byte a" by simp
  note s = sextet_values [OF this is_byte_0 is_byte_0] bytes_of_sextets [OF this is_byte_0 is_byte_0]
  show ?case by (simp add: s Let_def)
next
  case (3 a b)
  then have "is_byte a" "is_byte b" by simp_all
  note s = sextet_values [OF this is_byte_0] bytes_of_sextets [OF this is_byte_0]
  show ?case by (simp only: b64encode.simps b64decode.simps s Let_def if_False if_True simp_thms)
next
  case (4 a b c bs)
  then have "is_byte a" "is_byte b" "is_byte c" by simp_all
  note s = sextet_values [OF this] bytes_of_sextets [OF this]
  from 4 show ?case
    by (simp only: b64encode.simps b64decode.simps s Let_def if_False list.pred_inject simp_thms)
qed simp

lemma b64encode_chars: "list_all is_byte bs \<Longrightarrow> list_all is_b64 (b64encode bs)"
proof (induction bs rule: b64encode.induct)
  case (2 a)
  then have "is_byte a" by simp
  from sextet_chars [OF this is_byte_0 is_byte_0] show ?case by simp
next
  case (3 a b)
  then have "is_byte a" "is_byte b" by simp_all
  from sextet_chars [OF this is_byte_0] show ?case by simp
next
  case (4 a b c bs)
  then have "is_byte a" "is_byte b" "is_byte c" by simp_all
  from sextet_chars [OF this] 4 show ?case by simp
qed simp

end
