(* ===== verification/Telemetry.thy ===== *)
theory Telemetry
  imports Config Codecs Deps
begin

text \<open>
  app/core/telemetry.py: tracing to Langfuse over OpenTelemetry.

  The OpenTelemetry SDK and the LangChain instrumentor are libraries: a record \<open>otel\<close> of the calls
  the module makes, over a world \<open>'w\<close> that holds their state (providers \<open>'p\<close>, exporters \<open>'e\<close>).
  The module's own state is \<open>_active_provider\<close>; \<open>telemetry\<close> puts it beside the world and the log.
  The locale \<open>otel_library\<close> states what the SDK documents: a new provider is open, the global
  provider can be set once, instrumenting twice changes nothing, shutdown closes a provider.
\<close>

section \<open>Endpoint and credentials\<close>

definition OTLP_TRACES_PATH :: pystr where
  "OTLP_TRACES_PATH = py ''/api/public/otel/v1/traces''"

definition rstrip_slash :: "pystr \<Rightarrow> pystr" where
  "rstrip_slash s = rev (dropWhile (\<lambda>c. c = 47) (rev s))"

definition otlp_traces_endpoint :: "pystr \<Rightarrow> pystr" where
  "otlp_traces_endpoint langfuse_host = rstrip_slash langfuse_host @ OTLP_TRACES_PATH"

definition basic_auth_header :: "pystr \<Rightarrow> pystr \<Rightarrow> exn + pystr" where
  "basic_auth_header public_key secret_key =
     bindE (utf8_encode (public_key @ py '':'' @ secret_key)) (\<lambda>token.
       Inr (py ''Basic '' @ b64encode token))"

section \<open>The libraries\<close>

record ('w, 'p, 'e) otel =
  tracer_provider :: "(pystr \<times> pystr) list \<Rightarrow> ('w, 'p) prog"
  span_exporter :: "pystr \<Rightarrow> (pystr \<times> pystr) list \<Rightarrow> ('w, 'e) prog"
  add_span_processor :: "'p \<Rightarrow> 'e \<Rightarrow> ('w, unit) prog"
  set_tracer_provider :: "'p \<Rightarrow> ('w, unit) prog"
  instrument :: "'p \<Rightarrow> ('w, unit) prog"
  is_instrumented :: "'w \<Rightarrow> bool"
  uninstrument :: "('w, unit) prog"
  provider_shutdown :: "'p \<Rightarrow> ('w, unit) prog"

record ('w, 'p) telemetry =
  active_provider :: "'p option"
  otel_world :: 'w
  tele_log :: "pystr list"

definition library :: "('w, 'a) prog \<Rightarrow> (('w, 'p) telemetry, 'a) prog" where
  "library m t = (case m (otel_world t) of (r, w) \<Rightarrow> (r, t\<lparr>otel_world := w\<rparr>))"

definition log_event :: "string \<Rightarrow> (('w, 'p) telemetry, unit) prog" where
  "log_event e t = (Inr (), t\<lparr>tele_log := tele_log t @ [py e]\<rparr>)"

definition set_active :: "'p option \<Rightarrow> (('w, 'p) telemetry, unit) prog" where
  "set_active p t = (Inr (), t\<lparr>active_provider := p\<rparr>)"

text \<open>
  What can be observed of the SDK's state: the providers there are, those shut down, the global
  one, and the one LangChain is instrumented with.
\<close>

record 'p otel_view =
  ov_providers :: "'p set"
  ov_closed :: "'p set"
  ov_global :: "'p option"
  ov_patched :: "'p option"

definition first_wins :: "'p option \<Rightarrow> 'p \<Rightarrow> 'p option" where
  "first_wins old p = (case old of None \<Rightarrow> Some p | Some q \<Rightarrow> Some q)"

lemma first_wins_simps [simp]: "first_wins None p = Some p" "first_wins (Some q) p = Some q"
  by (simp_all add: first_wins_def)

locale otel_library =
  fixes ot :: "('w, 'p, 'e) otel"
    and view :: "'w \<Rightarrow> 'p otel_view"
  assumes new_provider: "\<exists>p w'. tracer_provider ot attributes w = (Inr p, w') \<and>
      p \<notin> ov_providers (view w) \<and> view w' = (view w)\<lparr>ov_providers := insert p (ov_providers (view w))\<rparr>"
    and new_exporter: "\<exists>e w'. span_exporter ot endpoint headers w = (Inr e, w') \<and> view w' = view w"
    and add_processor: "\<exists>w'. add_span_processor ot p e w = (Inr (), w') \<and> view w' = view w"
    and set_global: "\<exists>w'. set_tracer_provider ot p w = (Inr (), w') \<and>
      view w' = (view w)\<lparr>ov_global := first_wins (ov_global (view w)) p\<rparr>"
    and instruments: "\<exists>w'. instrument ot p w = (Inr (), w') \<and>
      view w' = (view w)\<lparr>ov_patched := first_wins (ov_patched (view w)) p\<rparr>"
    and instrumented: "is_instrumented ot w \<longleftrightarrow> ov_patched (view w) \<noteq> None"
    and uninstruments: "\<exists>w'. uninstrument ot w = (Inr (), w') \<and> view w' = (view w)\<lparr>ov_patched := None\<rparr>"
    and shuts_down: "\<exists>w'. provider_shutdown ot p w = (Inr (), w') \<and>
      view w' = (view w)\<lparr>ov_closed := insert p (ov_closed (view w))\<rparr>"

section \<open>Setup and shutdown\<close>

definition build_tracer_provider :: "('w, 'p, 'e) otel \<Rightarrow> settings \<Rightarrow> ('w, 'p) prog" where
  "build_tracer_provider ot settings =
     tracer_provider ot
       [(py ''service.name'', py ''llm-platform''), (py ''service.version'', VERSION),
        (py ''deployment.environment'', APP_ENV settings)]"

text \<open>The provider of the real path: built, given an exporter to Langfuse, made the global one.\<close>

definition langfuse_provider :: "('w, 'p, 'e) otel \<Rightarrow> settings \<Rightarrow> (('w, 'p) telemetry, 'p) prog" where
  "langfuse_provider ot settings =
     bind_p (library (build_tracer_provider ot settings)) (\<lambda>provider.
     bind_p (lift_result (basic_auth_header (LANGFUSE_PUBLIC_KEY settings) (LANGFUSE_SECRET_KEY settings)))
       (\<lambda>authorization.
     bind_p (library (span_exporter ot (otlp_traces_endpoint (LANGFUSE_HOST settings))
         [(py ''Authorization'', authorization)])) (\<lambda>exporter.
     bind_p (library (add_span_processor ot provider exporter)) (\<lambda>_.
     bind_p (library (set_tracer_provider ot provider)) (\<lambda>_.
     return_p provider)))))"

definition setup_telemetry ::
  "('w, 'p, 'e) otel \<Rightarrow> settings \<Rightarrow> 'p option \<Rightarrow> (('w, 'p) telemetry, unit) prog" where
  "setup_telemetry ot settings injected t =
     (if LANGFUSE_PUBLIC_KEY settings = [] \<or> LANGFUSE_SECRET_KEY settings = []
      then log_event ''telemetry_disabled'' t
      else if injected = None \<and> active_provider t \<noteq> None
      then log_event ''telemetry_already_configured'' t
      else bind_p (case injected of Some p \<Rightarrow> return_p p | None \<Rightarrow> langfuse_provider ot settings)
        (\<lambda>provider.
          bind_p (library (instrument ot provider)) (\<lambda>_.
          bind_p (set_active (Some provider)) (\<lambda>_.
          log_event ''telemetry_enabled''))) t)"

definition shutdown_telemetry :: "('w, 'p, 'e) otel \<Rightarrow> (('w, 'p) telemetry, unit) prog" where
  "shutdown_telemetry ot =
     bind_p (\<lambda>t. if is_instrumented ot (otel_world t) then library (uninstrument ot) t else (Inr (), t))
       (\<lambda>_ t. case active_provider t of
          None \<Rightarrow> (Inr (), t)
        | Some p \<Rightarrow> bind_p (library (provider_shutdown ot p)) (\<lambda>_. set_active None) t)"

text \<open>A history of the process: the calls the program and its tests make.\<close>

datatype 'p tele_op = Setup settings "'p option" | Shutdown

fun tele_step :: "('w, 'p, 'e) otel \<Rightarrow> 'p tele_op \<Rightarrow> (('w, 'p) telemetry, unit) prog" where
  "tele_step ot (Setup settings injected) = setup_telemetry ot settings injected"
| "tele_step ot Shutdown = shutdown_telemetry ot"

fun tele_run :: "('w, 'p, 'e) otel \<Rightarrow> 'p tele_op list \<Rightarrow> (('w, 'p) telemetry, unit) prog" where
  "tele_run ot [] = return_p ()"
| "tele_run ot (op # ops) = bind_p (tele_step ot op) (\<lambda>_. tele_run ot ops)"

section \<open>Endpoint and header\<close>

lemma dropWhile_slashes:
  "dropWhile (\<lambda>c. c = 47) (replicate n 47 @ s) = dropWhile (\<lambda>c. c = 47) (s :: pystr)"
  by (induction n) simp_all

lemma otlp_traces_endpoint_slashes:
  "otlp_traces_endpoint (host @ replicate n 47) = otlp_traces_endpoint host"
  by (simp add: otlp_traces_endpoint_def rstrip_slash_def dropWhile_slashes)

text \<open>The client side of the header (RFC 7617): decode, and split at the first colon.\<close>

definition basic_credentials :: "pystr \<Rightarrow> pystr \<times> pystr" where
  "basic_credentials header =
     (let token = utf8_decode (b64decode (drop 6 header)) in
      (takeWhile (\<lambda>c. c \<noteq> 58) token, drop 1 (dropWhile (\<lambda>c. c \<noteq> 58) token)))"

lemma split_at_colon:
  "58 \<notin> set p \<Longrightarrow> takeWhile (\<lambda>c. c \<noteq> 58) (p @ 58 # s) = p \<and>
    drop 1 (dropWhile (\<lambda>c. c \<noteq> 58) (p @ 58 # s)) = (s :: pystr)"
  by (induction p) auto

lemma basic_auth_header_reads:
  assumes "basic_auth_header public secret = Inr header" and "58 \<notin> set public"
  shows "basic_credentials header = (public, secret)"
proof -
  from assms(1) obtain token where t: "utf8_encode (public @ py '':'' @ secret) = Inr token"
    and header: "header = py ''Basic '' @ b64encode token"
    by (auto simp: basic_auth_header_def bindE_eq_Inr_iff)
  have "drop 6 header = b64encode token" by (simp add: header)
  with t split_at_colon [OF assms(2), of secret] show ?thesis
    by (simp add: basic_credentials_def b64decode_encode utf8_encode_bytes utf8_decode_encode [OF t])
qed

section \<open>The real path keeps the books right\<close>

text \<open>
  The state between two calls: without an active provider LangChain is not instrumented and
  every provider is shut down; an active provider is the instrumented one and the only one open.
\<close>

definition books_ok :: "('w \<Rightarrow> 'p otel_view) \<Rightarrow> ('w, 'p) telemetry \<Rightarrow> bool" where
  "books_ok view t \<longleftrightarrow>
     (let v = view (otel_world t) in
       ov_patched v = active_provider t \<and>
       ov_closed v = ov_providers v - set_option (active_provider t) \<and>
       set_option (active_provider t) \<subseteq> ov_providers v \<and>
       set_option (ov_global v) \<subseteq> ov_providers v \<and>
       (ov_global v = None \<longrightarrow> ov_providers v = {}))"

definition telemetry_enabled :: "settings \<Rightarrow> bool" where
  "telemetry_enabled settings \<longleftrightarrow>
     LANGFUSE_PUBLIC_KEY settings \<noteq> [] \<and> LANGFUSE_SECRET_KEY settings \<noteq> []"

text \<open>The keys are text that can be encoded (no lone surrogates).\<close>

definition keys_encodable :: "settings \<Rightarrow> bool" where
  "keys_encodable settings \<longleftrightarrow>
     list_all is_scalar (LANGFUSE_PUBLIC_KEY settings @ LANGFUSE_SECRET_KEY settings)"

lemma keys_encodable_header:
  "keys_encodable settings \<Longrightarrow>
    \<exists>h. basic_auth_header (LANGFUSE_PUBLIC_KEY settings) (LANGFUSE_SECRET_KEY settings) = Inr h"
  by (simp add: keys_encodable_def basic_auth_header_def utf8_encode_def is_scalar_def)

text \<open>The calls the program makes: no injected provider.\<close>

fun real_op :: "'p tele_op \<Rightarrow> bool" where
  "real_op (Setup settings injected) \<longleftrightarrow> injected = None \<and> keys_encodable settings"
| "real_op Shutdown \<longleftrightarrow> True"

lemma library_eq: "m (otel_world t) = (r, w) \<Longrightarrow> library m t = (r, t\<lparr>otel_world := w\<rparr>)"
  by (simp add: library_def)

context otel_library
begin

lemma langfuse_provider_returns:
  assumes "keys_encodable settings"
  shows "\<exists>p w. langfuse_provider ot settings t = (Inr p, t\<lparr>otel_world := w\<rparr>) \<and>
    p \<notin> ov_providers (view (otel_world t)) \<and>
    view w = (view (otel_world t))\<lparr>ov_providers := insert p (ov_providers (view (otel_world t))),
      ov_global := first_wins (ov_global (view (otel_world t))) p\<rparr>"
proof -
  obtain p w1 where 1: "build_tracer_provider ot settings (otel_world t) = (Inr p, w1)"
      "p \<notin> ov_providers (view (otel_world t))"
      "view w1 = (view (otel_world t))\<lparr>ov_providers := insert p (ov_providers (view (otel_world t)))\<rparr>"
    unfolding build_tracer_provider_def using new_provider by blast
  obtain h where h: "basic_auth_header (LANGFUSE_PUBLIC_KEY settings) (LANGFUSE_SECRET_KEY settings) = Inr h"
    using keys_encodable_header [OF assms] by blast
  obtain e w2 where 2: "span_exporter ot (otlp_traces_endpoint (LANGFUSE_HOST settings))
      [(py ''Authorization'', h)] w1 = (Inr e, w2)" "view w2 = view w1" using new_exporter by blast
  obtain w3 where 3: "add_span_processor ot p e w2 = (Inr (), w3)" "view w3 = view w2"
    using add_processor by blast
  obtain w4 where 4: "set_tracer_provider ot p w3 = (Inr (), w4)"
      "view w4 = (view w3)\<lparr>ov_global := first_wins (ov_global (view w3)) p\<rparr>" using set_global by blast
  have "langfuse_provider ot settings t = (Inr p, t\<lparr>otel_world := w4\<rparr>)"
    using 1(1) h 2(1) 3(1) 4(1)
    by (simp add: langfuse_provider_def bind_p_def library_def lift_result_def return_p_def del: py_simps)
  with 1 2 3 4 show ?thesis by (intro exI [of _ p] exI [of _ w4]) simp
qed

lemma setup_enabled:
  assumes "telemetry_enabled settings" "keys_encodable settings" "active_provider t = None"
  shows "\<exists>p t'. setup_telemetry ot settings None t = (Inr (), t') \<and> active_provider t' = Some p \<and>
    p \<notin> ov_providers (view (otel_world t)) \<and>
    view (otel_world t') =
      (view (otel_world t))\<lparr>ov_providers := insert p (ov_providers (view (otel_world t))),
        ov_global := first_wins (ov_global (view (otel_world t))) p,
        ov_patched := first_wins (ov_patched (view (otel_world t))) p\<rparr>"
proof -
  obtain p w where 1: "langfuse_provider ot settings t = (Inr p, t\<lparr>otel_world := w\<rparr>)"
      "p \<notin> ov_providers (view (otel_world t))"
      "view w = (view (otel_world t))\<lparr>ov_providers := insert p (ov_providers (view (otel_world t))),
        ov_global := first_wins (ov_global (view (otel_world t))) p\<rparr>"
    using langfuse_provider_returns [OF assms(2)] by blast
  obtain w' where 2: "instrument ot p w = (Inr (), w')"
      "view w' = (view w)\<lparr>ov_patched := first_wins (ov_patched (view w)) p\<rparr>" using instruments by blast
  let ?t = "\<lparr>active_provider = Some p, otel_world = w', tele_log = tele_log t @ [py ''telemetry_enabled'']\<rparr>"
  from assms(1,3) 1(1) 2(1) have "setup_telemetry ot settings None t = (Inr (), ?t)"
    by (simp add: setup_telemetry_def telemetry_enabled_def bind_p_def library_def set_active_def
        log_event_def del: py_simps)
  with 1 2 show ?thesis by (intro exI [of _ p] exI [of _ ?t]) (simp del: py_simps)
qed

lemma setup_ignored:
  assumes "\<not> telemetry_enabled settings \<or> active_provider t \<noteq> None"
  shows "\<exists>t'. setup_telemetry ot settings None t = (Inr (), t') \<and>
    active_provider t' = active_provider t \<and> otel_world t' = otel_world t"
  using assms by (auto simp: setup_telemetry_def telemetry_enabled_def log_event_def)

lemma shutdown_closes:
  "\<exists>t'. shutdown_telemetry ot t = (Inr (), t') \<and> active_provider t' = None \<and>
    view (otel_world t') = (view (otel_world t))\<lparr>ov_patched := None,
      ov_closed := set_option (active_provider t) \<union> ov_closed (view (otel_world t))\<rparr>"
proof -
  have un: "\<exists>w'. (if is_instrumented ot (otel_world t) then library (uninstrument ot) t else (Inr (), t)) =
      (Inr (), t\<lparr>otel_world := w'\<rparr>) \<and> view w' = (view (otel_world t))\<lparr>ov_patched := None\<rparr>"
  proof (cases "is_instrumented ot (otel_world t)")
    case True
    with uninstruments [of "otel_world t"] show ?thesis by (auto simp: library_def)
  next
    case False
    then show ?thesis using instrumented [of "otel_world t"] by (intro exI [of _ "otel_world t"]) simp
  qed
  then obtain w' where w': "(if is_instrumented ot (otel_world t) then library (uninstrument ot) t else (Inr (), t)) =
      (Inr (), t\<lparr>otel_world := w'\<rparr>)" "view w' = (view (otel_world t))\<lparr>ov_patched := None\<rparr>" by blast
  show ?thesis
  proof (cases "active_provider t")
    case None
    with w' show ?thesis by (simp add: shutdown_telemetry_def bind_p_def)
  next
    case (Some p)
    obtain w2 where "provider_shutdown ot p w' = (Inr (), w2)"
        "view w2 = (view w')\<lparr>ov_closed := insert p (ov_closed (view w'))\<rparr>" using shuts_down by blast
    with w' Some show ?thesis by (simp add: shutdown_telemetry_def bind_p_def library_def set_active_def)
  qed
qed

text \<open>One step from a consistent state: it returns, stays consistent, and forgets nothing.\<close>

definition extends :: "('w, 'p) telemetry \<Rightarrow> ('w, 'p) telemetry \<Rightarrow> bool" where
  "extends t t' \<longleftrightarrow>
     ov_closed (view (otel_world t)) \<subseteq> ov_closed (view (otel_world t')) \<and>
     (\<forall>g. ov_global (view (otel_world t)) = Some g \<longrightarrow> ov_global (view (otel_world t')) = Some g)"

lemma real_step:
  assumes "real_op op" and ok: "books_ok view t"
  shows "\<exists>t'. tele_step ot op t = (Inr (), t') \<and> books_ok view t' \<and> extends t t'"
proof (cases op)
  case Shutdown
  with shutdown_closes [of t] obtain t' where "tele_step ot op t = (Inr (), t')"
    "active_provider t' = None"
    "view (otel_world t') = (view (otel_world t))\<lparr>ov_patched := None,
      ov_closed := set_option (active_provider t) \<union> ov_closed (view (otel_world t))\<rparr>" by auto
  with ok show ?thesis
    by (intro exI [of _ t']) (auto simp: books_ok_def extends_def Let_def)
next
  case (Setup settings injected)
  with assms(1) have [simp]: "injected = None" and enc: "keys_encodable settings" by simp_all
  show ?thesis
  proof (cases "telemetry_enabled settings \<and> active_provider t = None")
    case True
    from setup_enabled [OF conjunct1 [OF True] enc conjunct2 [OF True]] obtain p t' where
      "setup_telemetry ot settings None t = (Inr (), t')" "active_provider t' = Some p"
      "p \<notin> ov_providers (view (otel_world t))"
      "view (otel_world t') =
        (view (otel_world t))\<lparr>ov_providers := insert p (ov_providers (view (otel_world t))),
          ov_global := first_wins (ov_global (view (otel_world t))) p,
          ov_patched := first_wins (ov_patched (view (otel_world t))) p\<rparr>" by blast
    with ok True Setup show ?thesis
      by (intro exI [of _ t'])
        (cases "ov_global (view (otel_world t))"; auto simp: books_ok_def extends_def Let_def)
  next
    case False
    with setup_ignored [of settings t] Setup obtain t' where
      "tele_step ot op t = (Inr (), t')" "active_provider t' = active_provider t"
      "otel_world t' = otel_world t" by auto
    with ok show ?thesis by (intro exI [of _ t']) (simp add: books_ok_def extends_def)
  qed
qed

lemma extends_trans: "extends t u \<Longrightarrow> extends u v \<Longrightarrow> extends t v"
  by (auto simp: extends_def)

lemma real_run:
  "list_all real_op ops \<Longrightarrow> books_ok view t \<Longrightarrow>
    \<exists>t'. tele_run ot ops t = (Inr (), t') \<and> books_ok view t' \<and> extends t t'"
proof (induction ops arbitrary: t)
  case Nil
  then show ?case by (simp add: return_p_def extends_def)
next
  case (Cons op ops)
  then obtain u where u: "tele_step ot op t = (Inr (), u)" "books_ok view u" "extends t u"
    using real_step [of op t] by auto
  with Cons obtain t' where "tele_run ot ops u = (Inr (), t')" "books_ok view t'" "extends u t'"
    by auto
  with u show ?case by (auto simp: bind_p_def intro: extends_trans)
qed

lemma global_stays_closed:
  assumes "list_all real_op ops" "list_all real_op later" "books_ok view t"
    and run: "tele_run ot ops t = (Inr (), u)" and active: "active_provider u \<noteq> None"
  shows "\<exists>v g. tele_run ot (Shutdown # later) u = (Inr (), v) \<and> books_ok view v \<and>
    ov_global (view (otel_world v)) = Some g \<and> g \<in> ov_closed (view (otel_world v)) \<and>
    active_provider v \<noteq> Some g"
proof -
  from real_run [OF assms(1,3)] run have u: "books_ok view u" by simp
  obtain t1 where t1: "shutdown_telemetry ot u = (Inr (), t1)" "active_provider t1 = None"
    "view (otel_world t1) = (view (otel_world u))\<lparr>ov_patched := None,
      ov_closed := set_option (active_provider u) \<union> ov_closed (view (otel_world u))\<rparr>"
    using shutdown_closes by blast
  obtain p where p: "active_provider u = Some p" using active by auto
  with u have "ov_providers (view (otel_world u)) \<noteq> {}" by (auto simp: books_ok_def Let_def)
  with u obtain g where g: "ov_global (view (otel_world u)) = Some g"
    by (cases "ov_global (view (otel_world u))") (auto simp: books_ok_def Let_def)
  have ok1: "books_ok view t1" using u t1 by (auto simp: books_ok_def Let_def)
  from real_run [OF assms(2) this] obtain v where v: "tele_run ot later t1 = (Inr (), v)"
    "books_ok view v" "extends t1 v" by blast
  have "g \<in> ov_closed (view (otel_world t1))"
    using u t1 g by (auto simp: books_ok_def Let_def)
  with v(3) t1 g have gc: "ov_global (view (otel_world v)) = Some g" "g \<in> ov_closed (view (otel_world v))"
    by (auto simp: extends_def)
  with v(2) have "active_provider v \<noteq> Some g" by (auto simp: books_ok_def Let_def)
  with v t1 gc show ?thesis by (auto simp: bind_p_def)
qed

end

section \<open>A library with this contract\<close>

text \<open>Providers are numbered; the exporters built are recorded with their endpoint and headers.\<close>

record sdk_state =
  sdk_count :: nat
  sdk_closed :: "nat list"
  sdk_global :: "nat option"
  sdk_patched :: "nat option"
  sdk_exporters :: "(nat \<times> pystr \<times> (pystr \<times> pystr) list) list"

definition sdk_view :: "sdk_state \<Rightarrow> nat otel_view" where
  "sdk_view w = \<lparr>ov_providers = {..<sdk_count w}, ov_closed = set (sdk_closed w),
     ov_global = sdk_global w, ov_patched = sdk_patched w\<rparr>"

definition sdk :: "(sdk_state, nat, pystr \<times> (pystr \<times> pystr) list) otel" where
  "sdk = \<lparr>tracer_provider = (\<lambda>attributes w. (Inr (sdk_count w), w\<lparr>sdk_count := sdk_count w + 1\<rparr>)),
     span_exporter = (\<lambda>endpoint headers w. (Inr (endpoint, headers), w)),
     add_span_processor = (\<lambda>p e w. (Inr (), w\<lparr>sdk_exporters := sdk_exporters w @ [(p, e)]\<rparr>)),
     set_tracer_provider = (\<lambda>p w. (Inr (), w\<lparr>sdk_global := first_wins (sdk_global w) p\<rparr>)),
     instrument = (\<lambda>p w. (Inr (), w\<lparr>sdk_patched := first_wins (sdk_patched w) p\<rparr>)),
     is_instrumented = (\<lambda>w. sdk_patched w \<noteq> None),
     uninstrument = (\<lambda>w. (Inr (), w\<lparr>sdk_patched := None\<rparr>)),
     provider_shutdown = (\<lambda>p w. (Inr (), w\<lparr>sdk_closed := p # sdk_closed w\<rparr>))\<rparr>"

interpretation sdk: otel_library sdk sdk_view
  by unfold_locales (auto simp: sdk_def sdk_view_def)

definition sdk_start :: "(sdk_state, nat) telemetry" where
  "sdk_start = \<lparr>active_provider = None,
     otel_world = \<lparr>sdk_count = 0, sdk_closed = [], sdk_global = None, sdk_patched = None, sdk_exporters = []\<rparr>,
     tele_log = []\<rparr>"

definition traced_settings :: settings where
  "traced_settings = api_settings\<lparr>LANGFUSE_PUBLIC_KEY := py ''pk'', LANGFUSE_SECRET_KEY := py ''sk''\<rparr>"

lemma traced_settings: "telemetry_enabled traced_settings" "keys_encodable traced_settings"
  by (simp_all add: traced_settings_def telemetry_enabled_def keys_encodable_def is_scalar_def)

text \<open>A process before its first telemetry call.\<close>

definition fresh_process :: "('w \<Rightarrow> 'p otel_view) \<Rightarrow> ('w, 'p) telemetry \<Rightarrow> bool" where
  "fresh_process view t \<longleftrightarrow> active_provider t = None \<and>
     view (otel_world t) = \<lparr>ov_providers = {}, ov_closed = {}, ov_global = None, ov_patched = None\<rparr>"

lemma fresh_books: "fresh_process view t \<Longrightarrow> books_ok view t"
  by (simp add: fresh_process_def books_ok_def)

lemma fresh_sdk: "fresh_process sdk_view sdk_start"
  by (auto simp: fresh_process_def sdk_start_def sdk_view_def)

section \<open>Properties\<close>

text \<open>C27. Whatever calls of \<open>setup_telemetry(settings)\<close> and \<open>shutdown_telemetry()\<close> a process makes,
  with tracing enabled or not, none raises, and after each the active provider is the one LangChain
  is instrumented with and the only one still open: no second provider is ever left orphaned, and
  with no active provider nothing is instrumented and every provider has been flushed and closed.\<close>

theorem telemetry_books_consistent:
  assumes "otel_library ot view" and "fresh_process view t" and "list_all real_op ops"
  shows "\<exists>u. tele_run ot ops t = (Inr (), u) \<and>
    ov_patched (view (otel_world u)) = active_provider u \<and>
    ov_closed (view (otel_world u)) =
      ov_providers (view (otel_world u)) - set_option (active_provider u) \<and>
    set_option (active_provider u) \<subseteq> ov_providers (view (otel_world u))"
  using otel_library.real_run [OF assms(1,3) fresh_books [OF assms(2)]]
  by (auto simp: books_ok_def Let_def)

theorem telemetry_books_consistent_witness:
  "\<exists>u. tele_run sdk [Setup traced_settings None, Setup traced_settings None, Shutdown,
       Setup traced_settings None] sdk_start = (Inr (), u) \<and>
     ov_closed (sdk_view (otel_world u)) = {0} \<and> active_provider u = Some 1"
proof -
  let ?ops = "[Setup traced_settings None, Setup traced_settings None, Shutdown, Setup traced_settings None]"
  have "list_all real_op ?ops" by (simp add: traced_settings)
  from telemetry_books_consistent [OF sdk.otel_library_axioms fresh_sdk this] obtain u where
    run: "tele_run sdk ?ops sdk_start = (Inr (), u)"
    and books: "ov_closed (sdk_view (otel_world u)) =
      ov_providers (sdk_view (otel_world u)) - set_option (active_provider u)" by blast
  have "active_provider (snd (tele_run sdk ?ops sdk_start)) = Some 1 \<and>
      sdk_count (otel_world (snd (tele_run sdk ?ops sdk_start))) = 2" by code_simp
  then have u: "active_provider u = Some 1" "sdk_count (otel_world u) = 2" unfolding run snd_conv by blast+
  then have "{..<sdk_count (otel_world u)} - {1} = {0}" by auto
  with books u have "ov_closed (sdk_view (otel_world u)) = {0}" by (simp add: sdk_view_def)
  with run u show ?thesis by blast
qed

text \<open>C28. The advice to call \<open>shutdown_telemetry()\<close> "to allow a fresh setup" does not give the
  process back its tracing: the first provider stays the global one for good, so after one effective
  setup and shutdown every later setup leaves the global provider (the one \<open>trace.get_tracer\<close>
  users such as the chat route get) closed and different from the active one.\<close>

theorem reconfigured_global_is_closed:
  assumes "otel_library ot view" and "fresh_process view t"
    and "list_all real_op ops" and "list_all real_op later"
    and "tele_run ot ops t = (Inr (), u)" and "active_provider u \<noteq> None"
  shows "\<exists>v g. tele_run ot (Shutdown # later) u = (Inr (), v) \<and>
    ov_global (view (otel_world v)) = Some g \<and> g \<in> ov_closed (view (otel_world v)) \<and>
    active_provider v \<noteq> Some g"
  using otel_library.global_stays_closed [OF assms(1,3,4) fresh_books [OF assms(2)] assms(5,6)] by blast

theorem reconfigured_global_is_closed_witness:
  "\<exists>v g. tele_run sdk [Shutdown, Setup traced_settings None]
      (snd (tele_run sdk [Setup traced_settings None] sdk_start)) = (Inr (), v) \<and>
     sdk_global (otel_world v) = Some g \<and> g \<in> set (sdk_closed (otel_world v)) \<and>
     active_provider v \<noteq> Some g"
proof -
  let ?u = "snd (tele_run sdk [Setup traced_settings None] sdk_start)"
  have ops: "list_all real_op [Setup traced_settings None :: nat tele_op]" by (simp add: traced_settings)
  have "isl (fst (tele_run sdk [Setup traced_settings None] sdk_start)) = False \<and>
      active_provider ?u \<noteq> None" by code_simp
  then have run: "tele_run sdk [Setup traced_settings None] sdk_start = (Inr (), ?u)"
    and "active_provider ?u \<noteq> None"
    by (cases "tele_run sdk [Setup traced_settings None] sdk_start";
      cases "fst (tele_run sdk [Setup traced_settings None] sdk_start)"; simp)+
  from reconfigured_global_is_closed [OF sdk.otel_library_axioms fresh_sdk ops ops this]
  show ?thesis by (simp add: sdk_view_def)
qed

text \<open>C33. For keys made of Unicode scalar values, the public one without a colon, the \<open>Authorization\<close>
  header is \<open>Basic\<close> and base64 characters, and a server that decodes it as HTTP Basic credentials gets
  back both keys exactly.\<close>

theorem basic_auth_roundtrip:
  assumes "58 \<notin> set public_key" and "list_all is_scalar (public_key @ secret_key)"
  shows "\<exists>header. basic_auth_header public_key secret_key = Inr header \<and>
    basic_credentials header = (public_key, secret_key) \<and>
    (\<exists>token. header = py ''Basic '' @ token \<and> list_all is_b64 token)"
proof -
  from assms(2) obtain token where
    t: "utf8_encode (public_key @ py '':'' @ secret_key) = Inr token"
    by (simp add: utf8_encode_def is_scalar_def)
  then have h: "basic_auth_header public_key secret_key = Inr (py ''Basic '' @ b64encode token)"
    by (simp add: basic_auth_header_def)
  with basic_auth_header_reads [OF h assms(1)] b64encode_chars [OF utf8_encode_bytes [OF t]]
  show ?thesis by blast
qed

theorem basic_auth_roundtrip_witness:
  "basic_auth_header (py ''pk'') [115, 233, 8364, 128512] = Inr (py ''Basic cGs6c8Op4oKs8J+YgA=='') \<and>
   basic_credentials (py ''Basic cGs6c8Op4oKs8J+YgA=='') = (py ''pk'', [115, 233, 8364, 128512])"
proof -
  have "basic_auth_header (py ''pk'') [115, 233, 8364, 128512] = Inr (py ''Basic cGs6c8Op4oKs8J+YgA=='')"
    by code_simp
  then show ?thesis
    using basic_auth_roundtrip [of "py ''pk''" "[115, 233, 8364, 128512]"]
    by (auto simp: is_scalar_def simp del: py_simps(4))
qed

end
