(* ===== verification/CommitMsg.thy ===== *)
theory CommitMsg
  imports PyRegex
begin

text \<open>
  scripts/check_commit_msg.py: the commit-msg hook. The file system is a parameter: \<open>read_text\<close>
  gives the text of a file, decoded and with newlines translated, or the exception of \<open>open\<close>;
  \<open>repr\<close> is Python's. What \<open>main\<close> prints to stderr is returned beside its exit code.
\<close>

section \<open>The hook\<close>

definition COMMIT_TYPES :: "pystr list" where
  "COMMIT_TYPES = [py ''feat'', py ''fix'', py ''chore'', py ''docs'', py ''style'', py ''refactor'',
     py ''perf'', py ''test'', py ''build'', py ''ci'', py ''revert'']"

definition SCOPE_CHAR :: cset where
  "SCOPE_CHAR = SetC [(97, 122), (48, 57), (46, 46), (47, 47), (95, 95), (45, 45)]"

definition CONVENTIONAL_COMMIT_RE :: re where
  "CONVENTIONAL_COMMIT_RE =
     cats [Bol, Cap 1 (alts (map lits COMMIT_TYPES)),
       Opt (Cap 2 (cats [Chr (Lit 40), Plus (Chr SCOPE_CHAR), Chr (Lit 41)])),
       Opt (Chr (Lit 33)), lits (py '': ''), Plus (Chr AnyC)]"

definition EXEMPT_PREFIXES :: "pystr list" where
  "EXEMPT_PREFIXES = [py ''Merge '', py ''fixup!'', py ''squash!'', py ''Revert \"'']"

text \<open>\<open>handle.readline()\<close>\<close>

definition readline :: "pystr \<Rightarrow> pystr" where
  "readline s = takeWhile (\<lambda>c. c \<noteq> 10) s @ take 1 (dropWhile (\<lambda>c. c \<noteq> 10) s)"

definition check_commit_main ::
  "unidb \<Rightarrow> (pystr \<Rightarrow> pystr) \<Rightarrow> (pystr \<Rightarrow> exn + pystr) \<Rightarrow> pystr list \<Rightarrow> exn + int \<times> pystr" where
  "check_commit_main U repr read_text argv =
     (if length argv < 2
      then Inr (1, py ''check_commit_msg: missing commit message file argument'' @ [10])
      else bindE (read_text (argv ! 1)) (\<lambda>text.
        let first_line = py_strip (readline text) in
        if first_line = [] \<or> list_ex (startswith first_line) EXEMPT_PREFIXES then Inr (0, [])
        else if re_match U False CONVENTIONAL_COMMIT_RE first_line \<noteq> None then Inr (0, [])
        else Inr (1, py ''check_commit_msg: commit message must follow Conventional Commits '' @
          py ''(e.g. \"feat(agent): add search_aids tool\").'' @ [10] @
          py ''Got: '' @ repr first_line @ [10])))"

lemma conventional_commit_source:
  "re_source CONVENTIONAL_COMMIT_RE =
     py ''^(feat|fix|chore|docs|style|refactor|perf|test|build|ci|revert)'' @
     py [CHR 0x28, CHR 0x5C, CHR 0x28] @ py ''[a-z0-9./_-]+'' @ py [CHR 0x5C, CHR 0x29] @ py '')?!?: .+''"
  by code_simp

section \<open>The shape a pattern describes\<close>

text \<open>A pattern whose groups nobody reads: which texts it matches, wherever it stands.\<close>

definition shape :: "unidb \<Rightarrow> re \<Rightarrow> (pystr \<Rightarrow> bool) \<Rightarrow> bool" where
  "shape U r P \<longleftrightarrow> (\<forall>p g w q. (\<exists>g'. matches U False r p g w q g') \<longleftrightarrow> P w)"

lemma shapeD: "shape U r P \<Longrightarrow> (\<exists>g'. matches U False r p g w q g') \<longleftrightarrow> P w"
  by (simp add: shape_def)

lemma shape_simple: "simple U False r P \<Longrightarrow> shape U r P"
  by (simp add: shape_def simple_def)

lemma shape_cap:
  assumes "shape U r P"
  shows "shape U (Cap n r) P"
proof -
  have "(\<exists>g'. matches U False (Cap n r) p g w q g') \<longleftrightarrow> (\<exists>g'. matches U False r p g w q g')" for p g w q
    by (auto simp: matches_simps(8))
  then show ?thesis by (simp add: shape_def shapeD [OF assms])
qed

lemma shape_alt:
  assumes "shape U r P" and "shape U s Q"
  shows "shape U (Alt r s) (\<lambda>w. P w \<or> Q w)"
  unfolding shape_def matches_simps(6) ex_disj_distrib shapeD [OF assms(1)] shapeD [OF assms(2)]
  by simp

lemma shape_cat:
  assumes "shape U r P" and "shape U s Q"
  shows "shape U (Cat r s) (\<lambda>w. \<exists>u v. w = u @ v \<and> P u \<and> Q v)"
proof -
  have "(\<exists>g'. matches U False (Cat r s) p g w q g') \<longleftrightarrow> (\<exists>u v. w = u @ v \<and> P u \<and> Q v)" for p g w q
  proof
    assume "\<exists>g'. matches U False (Cat r s) p g w q g'"
    then obtain u v g1 g' where "w = u @ v" and m: "matches U False r p g u (v @ q) g1"
      "matches U False s (after p u) g1 v q g'" by (auto simp: matches_simps(5))
    moreover have "P u" using m(1) shapeD [OF assms(1)] by blast
    moreover have "Q v" using m(2) shapeD [OF assms(2)] by blast
    ultimately show "\<exists>u v. w = u @ v \<and> P u \<and> Q v" by blast
  next
    assume "\<exists>u v. w = u @ v \<and> P u \<and> Q v"
    then obtain u v where w: "w = u @ v" and "P u" "Q v" by blast
    then obtain g1 where 1: "matches U False r p g u (v @ q) g1" using shapeD [OF assms(1)] by blast
    obtain g' where "matches U False s (after p u) g1 v q g'"
      using \<open>Q v\<close> shapeD [OF assms(2)] by blast
    with 1 w show "\<exists>g'. matches U False (Cat r s) p g w q g'" by (blast intro: m_cat)
  qed
  then show ?thesis by (simp add: shape_def)
qed

lemma shape_opt:
  assumes "shape U r P"
  shows "shape U (Opt r) (\<lambda>w. w = [] \<or> P w)"
proof -
  have "(\<exists>g'. matches U False (Rep r 0 (Some (Suc 0))) p g w q g') \<longleftrightarrow> w = [] \<or> P w" for p g w q
    using shapeD [OF assms, of p g w q] by (auto simp: matches_simps)
  then show ?thesis by (simp add: shape_def)
qed

lemma shape_lits: "shape U (lits u) (\<lambda>w. w = u)"
proof -
  have "list_all2 (\<lambda>c. cset_ok U False (Lit c)) u w \<longleftrightarrow> w = u" for w
    by (induction u w rule: list_induct2') (auto simp: list_all2_Cons1)
  then show ?thesis using shape_simple [OF simple_lits [of U False u]] by simp
qed

lemma shape_chr: "shape U (Chr (Lit c)) (\<lambda>w. w = [c])"
  using shape_simple [OF simple_chr [of U False "Lit c"]] by simp

lemma shape_alts_lits: "us \<noteq> [] \<Longrightarrow> shape U (alts (map lits us)) (\<lambda>w. w \<in> set us)"
proof (induction us rule: induct_list012)
  case (2 u)
  then show ?case using shape_lits [of U u] by simp
next
  case (3 u v us)
  then show ?case using shape_alt [OF shape_lits [of U u], of "alts (map lits (v # us))"] by simp
qed simp

section \<open>The structure of a conventional commit\<close>

definition scope_char :: "pychar \<Rightarrow> bool" where
  "scope_char c \<longleftrightarrow> (97 \<le> c \<and> c \<le> 122) \<or> (48 \<le> c \<and> c \<le> 57) \<or> c \<in> {45, 46, 47, 95}"

definition scope_text :: "pystr \<Rightarrow> bool" where
  "scope_text w \<longleftrightarrow> w = [] \<or> (\<exists>name. w = py ''('' @ name @ py '')'' \<and> name \<noteq> [] \<and> list_all scope_char name)"

text \<open>\<open>type(scope)!: description\<close>, scope and exclamation mark optional.\<close>

definition conventional :: "pystr \<Rightarrow> bool" where
  "conventional s \<longleftrightarrow>
     (\<exists>kind scope bang description. s = kind @ scope @ bang @ py '': '' @ description \<and>
       kind \<in> set COMMIT_TYPES \<and> scope_text scope \<and> bang \<in> {[], py ''!''} \<and> description \<noteq> [])"

lemma scope_char_ok: "cset_ok U False SCOPE_CHAR c \<longleftrightarrow> scope_char c"
  by (auto simp: SCOPE_CHAR_def scope_char_def)

lemma shape_scope:
  "shape U (Cap 2 (cats [Chr (Lit 40), Plus (Chr SCOPE_CHAR), Chr (Lit 41)]))
     (\<lambda>w. \<exists>name. w = py ''('' @ name @ py '')'' \<and> name \<noteq> [] \<and> list_all scope_char name)"
proof -
  have plus: "shape U (Plus (Chr SCOPE_CHAR)) (\<lambda>w. w \<noteq> [] \<and> list_all scope_char w)"
    using shape_simple [OF simple_plus_chr [of U False SCOPE_CHAR]]
    by (simp only: scope_char_ok list_all_iff)
  have eq: "(\<lambda>w. \<exists>name. w = py ''('' @ name @ py '')'' \<and> name \<noteq> [] \<and> list_all scope_char name) =
      (\<lambda>w. \<exists>u v. w = u @ v \<and> u = [40] \<and>
        (\<exists>u' v'. v = u' @ v' \<and> (u' \<noteq> [] \<and> list_all scope_char u') \<and> v' = [41]))"
    by (rule ext) auto
  show ?thesis
    unfolding eq cats.simps by (intro shape_cap shape_cat shape_chr plus)
qed

lemma shape_any: "shape U (Plus (Chr AnyC)) (\<lambda>w. w \<noteq> [] \<and> 10 \<notin> set w)"
proof -
  have eq: "(\<lambda>w. w \<noteq> [] \<and> (\<forall>x \<in> set w. cset_ok U False AnyC x)) = (\<lambda>w. w \<noteq> [] \<and> 10 \<notin> set w)"
    by (rule ext) auto
  show ?thesis using shape_simple [OF simple_plus_chr [of U False AnyC]] unfolding eq .
qed

text \<open>The pattern after \<open>^\<close>.\<close>

definition commit_body :: re where
  "commit_body =
     Cat (Cap 1 (alts (map lits COMMIT_TYPES)))
       (Cat (Opt (Cap 2 (cats [Chr (Lit 40), Plus (Chr SCOPE_CHAR), Chr (Lit 41)])))
         (Cat (Opt (Chr (Lit 33))) (Cat (lits (py '': '')) (Plus (Chr AnyC)))))"

definition commit_shape :: "pystr \<Rightarrow> bool" where
  "commit_shape w \<longleftrightarrow>
     (\<exists>kind r1. w = kind @ r1 \<and> kind \<in> set COMMIT_TYPES \<and>
       (\<exists>scope r2. r1 = scope @ r2 \<and> scope_text scope \<and>
       (\<exists>bang r3. r2 = bang @ r3 \<and> (bang = [] \<or> bang = [33]) \<and>
       (\<exists>colon description. r3 = colon @ description \<and> colon = py '': '' \<and>
          description \<noteq> [] \<and> 10 \<notin> set description))))"

lemma shape_commit: "shape U commit_body commit_shape"
proof -
  have ts: "shape U (alts (map lits COMMIT_TYPES)) (\<lambda>w. w \<in> set COMMIT_TYPES)"
    by (rule shape_alts_lits) (simp add: COMMIT_TYPES_def)
  show ?thesis
    unfolding commit_body_def commit_shape_def [abs_def] scope_text_def
    by (intro shape_cat shape_cap [OF ts] shape_opt shape_scope shape_chr shape_lits shape_any)
qed

lemma commit_re_body: "CONVENTIONAL_COMMIT_RE = Cat Bol commit_body"
  unfolding CONVENTIONAL_COMMIT_RE_def commit_body_def by simp

lemma matches_bol: "matches U ic (Cat Bol r) None g w q g' \<longleftrightarrow> matches U ic r None g w q g'"
  by (simp add: matches_simps(2,5))

lemma commit_shapeE:
  assumes "commit_shape w"
  obtains kind scope bang description where "w = kind @ scope @ bang @ py '': '' @ description"
    "kind \<in> set COMMIT_TYPES" "scope_text scope" "bang \<in> {[], py ''!''}" "description \<noteq> []"
proof -
  from assms obtain kind scope bang description where
    "w = kind @ (scope @ (bang @ (py '': '' @ description)))" "kind \<in> set COMMIT_TYPES"
    "scope_text scope" "bang = [] \<or> bang = [33]" "description \<noteq> []"
    unfolding commit_shape_def by blast
  then show ?thesis by (intro that [of kind scope bang description]) simp_all
qed

lemma conventional_commit_re_iff:
  assumes "10 \<notin> set s"
  shows "re_match U False CONVENTIONAL_COMMIT_RE s \<noteq> None \<longleftrightarrow> conventional s"
proof -
  have "re_match U False CONVENTIONAL_COMMIT_RE s \<noteq> None \<longleftrightarrow>
      (\<exists>w q. s = w @ q \<and> (\<exists>g'. matches U False commit_body None [] w q g'))"
    unfolding re_match_iff commit_re_body matches_bol by blast
  also have "\<dots> \<longleftrightarrow> (\<exists>w q. s = w @ q \<and> commit_shape w)"
    unfolding shapeD [OF shape_commit] ..
  also have "\<dots> \<longleftrightarrow> conventional s"
  proof
    assume "conventional s"
    then obtain kind scope bang description where
      c: "s = kind @ scope @ bang @ py '': '' @ description" "kind \<in> set COMMIT_TYPES"
      "scope_text scope" "bang = [] \<or> bang = [33]" "description \<noteq> []" by (auto simp: conventional_def)
    moreover from c(1) assms have "10 \<notin> set description" by auto
    ultimately have "commit_shape s" unfolding commit_shape_def by blast
    then show "\<exists>w q. s = w @ q \<and> commit_shape w" by (intro exI [of _ s] exI [of _ "[]"]) simp
  next
    assume "\<exists>w q. s = w @ q \<and> commit_shape w"
    then obtain w q where s: "s = w @ q" and w: "commit_shape w" by blast
    from w obtain kind scope bang description where
      "w = kind @ scope @ bang @ py '': '' @ description" "kind \<in> set COMMIT_TYPES"
      "scope_text scope" "bang \<in> {[], py ''!''}" "description \<noteq> []" by (rule commit_shapeE)
    with s show "conventional s"
      unfolding conventional_def
      by (intro exI [of _ kind] exI [of _ scope] exI [of _ bang] exI [of _ "description @ q"]) simp
  qed
  finally show ?thesis .
qed

lemma first_line_one_line:
  assumes "c \<in> set (py_strip (readline s))"
  shows "c \<noteq> 10"
proof -
  let ?l = "takeWhile (\<lambda>c. c \<noteq> 10) s"
  obtain t where r: "readline s = ?l @ t" "t = [] \<or> t = [10]"
  proof (cases "dropWhile (\<lambda>c. c \<noteq> 10) s")
    case Nil
    then show ?thesis using that [of "[]"] by (simp add: readline_def)
  next
    case (Cons d r)
    then have "d = 10" by (metis (mono_tags, lifting) dropWhile_eq_Cons_conv)
    with Cons show ?thesis using that [of "[10]"] by (simp add: readline_def)
  qed
  have no: "10 \<notin> set ?l" by (metis (mono_tags, lifting) set_takeWhileD)
  have strip: "py_rstrip (u @ [10]) = py_rstrip u" for u
    by (simp add: py_rstrip_def is_space_def)
  have sub: "set (py_rstrip u) \<subseteq> set u" for u
  proof -
    obtain v where "u = py_rstrip u @ v" using py_rstrip_prefix [of u] by blast
    from arg_cong [OF this, of set] show ?thesis unfolding set_append by blast
  qed
  have lsub: "set (py_lstrip u) \<subseteq> set u" for u by (auto simp: py_lstrip_def dest: set_dropWhileD)
  show ?thesis
  proof (cases "\<forall>d \<in> set ?l. is_space d")
    case True
    then have "py_lstrip (?l @ t) = py_lstrip t" unfolding py_lstrip_def by (blast intro: dropWhile_append2)
    also have "\<dots> = []" using r(2) by (auto simp: py_lstrip_def is_space_def)
    finally have "py_strip (readline s) = []" by (simp add: r(1) py_strip_def py_rstrip_def)
    with assms show ?thesis by simp
  next
    case False
    then have "py_lstrip (?l @ t) = py_lstrip ?l @ t"
      unfolding py_lstrip_def using dropWhile_append1 [of _ ?l is_space t] by blast
    with r(2) strip have line: "py_strip (readline s) = py_rstrip (py_lstrip ?l)"
      unfolding py_strip_def r(1) by auto
    have "c \<in> set (py_lstrip ?l)" using assms sub [of "py_lstrip ?l"] unfolding line by blast
    with lsub [of ?l] no show ?thesis by blast
  qed
qed

section \<open>Properties\<close>

text \<open>C40. Run on a message file that can be read, the hook exits with 0 exactly when the first line,
  stripped, is empty, starts with one of the exempt prefixes, or is a conventional commit
  (a known type, an optional scope in parentheses, an optional exclamation mark, a colon and a
  space, and a description); otherwise with 1 and a message. Without argument it exits with 1;
  an unreadable file is the exception of \<open>open\<close>.\<close>

theorem check_commit_main_exact:
  "check_commit_main U repr read_text argv =
     (if length argv < 2 then Inr (1, py ''check_commit_msg: missing commit message file argument'' @ [10])
      else case read_text (argv ! 1) of
        Inl e \<Rightarrow> Inl e
      | Inr text \<Rightarrow>
          let line = py_strip (readline text) in
          if line = [] \<or> (\<exists>prefix \<in> set EXEMPT_PREFIXES. \<exists>rest. line = prefix @ rest) \<or> conventional line
          then Inr (0, [])
          else Inr (1, py ''check_commit_msg: commit message must follow Conventional Commits '' @
            py ''(e.g. \"feat(agent): add search_aids tool\").'' @ [10] @
            py ''Got: '' @ repr line @ [10]))"
proof -
  have "re_match U False CONVENTIONAL_COMMIT_RE (py_strip (readline s)) \<noteq> None \<longleftrightarrow>
      conventional (py_strip (readline s))" for s
    using conventional_commit_re_iff first_line_one_line by blast
  then show ?thesis
    by (simp add: check_commit_main_def bindE_def Let_def list_ex_iff startswith_iff
        del: py_simps split: sum.split)
qed

theorem check_commit_main_exact_witness:
  "check_commit_main latin1_db (\<lambda>s. s)
     (\<lambda>path. Inr (py ''feat(agent)!: add search_aids tool'' @ [10] @ py ''body'' @ [10]))
     [py ''check_commit_msg.py'', py ''MSG''] = Inr (0, []) \<and>
   \<not> conventional (py ''feature: add a tool'')"
proof -
  have "check_commit_main latin1_db (\<lambda>s. s) (\<lambda>path. Inr (py ''feature: add a tool''))
     [py ''check_commit_msg.py'', py ''MSG''] \<noteq> Inr (0, [])" by code_simp
  moreover have "py_strip (readline (py ''feature: add a tool'')) = py ''feature: add a tool''" by code_simp
  ultimately have "\<not> conventional (py ''feature: add a tool'')"
    using check_commit_main_exact [of latin1_db "\<lambda>s. s" "\<lambda>path. Inr (py ''feature: add a tool'')"
        "[py ''check_commit_msg.py'', py ''MSG'']"]
    by (intro notI) (simp add: Let_def del: py_simps)
  moreover have "check_commit_main latin1_db (\<lambda>s. s)
     (\<lambda>path. Inr (py ''feat(agent)!: add search_aids tool'' @ [10] @ py ''body'' @ [10]))
     [py ''check_commit_msg.py'', py ''MSG''] = Inr (0, [])" by code_simp
  ultimately show ?thesis by blast
qed

end
