(* ===== verification/Main_App.thy ===== *)
theory Main_App
  imports Telemetry Logging AgentGraph
begin

text \<open>
  app/main.py: the application object and its lifespan, with \<open>get_agent_graph\<close> of app/api/deps.py.

  The process is the cache of \<open>get_settings\<close>, the logging configuration, the telemetry of
  Telemetry.thy and \<open>app.state.agent_graph\<close>. \<open>build\<close> is \<open>build_graph\<close> with the process's
  checkpointer, over the settings cache; \<open>serve\<close> is the time between the two halves of the
  lifespan: it may never end, and ends with an exception when one is thrown into the generator.
\<close>

record ('w, 'p, 'g) process =
  settings_cache :: "settings option"
  logging_config :: "log_config option"
  process_telemetry :: "('w, 'p) telemetry"
  state_agent_graph :: "'g option"

definition get_agent_graph :: "('w, 'p, 'g) process \<Rightarrow> exn + 'g" where
  "get_agent_graph app =
     (case state_agent_graph app of
        None \<Rightarrow> Inl (OtherException (py ''AttributeError'') (py ''agent_graph''))
      | Some g \<Rightarrow> Inr g)"

text \<open>\<open>finally: shutdown_telemetry()\<close>: an exception of it replaces the outcome.\<close>

definition finally_shutdown ::
  "('w, 'p, 'e) otel \<Rightarrow> (exn + unit) \<times> ('w, 'p, 'g) process \<Rightarrow> (exn + unit) \<times> ('w, 'p, 'g) process" where
  "finally_shutdown ot rs =
     (case rs of (r, s) \<Rightarrow>
       (case shutdown_telemetry ot (process_telemetry s) of
          (Inl e, t) \<Rightarrow> (Inl e, s\<lparr>process_telemetry := t\<rparr>)
        | (Inr u, t) \<Rightarrow> (r, s\<lparr>process_telemetry := t\<rparr>)))"

text \<open>The body of the \<open>try\<close>.\<close>

definition build_and_serve ::
  "(settings option, 'g) prog \<Rightarrow> ('g \<Rightarrow> (('w, 'p, 'g) process, unit) block) \<Rightarrow>
     (('w, 'p, 'g) process, unit) block" where
  "build_and_serve build serve s =
     (case build (settings_cache s) of
        (Inl e, c) \<Rightarrow> Some (Inl e, s\<lparr>settings_cache := c\<rparr>)
      | (Inr g, c) \<Rightarrow> serve g (s\<lparr>settings_cache := c, state_agent_graph := Some g\<rparr>))"

definition lifespan ::
  "('w, 'p, 'e) otel \<Rightarrow> (pystr \<Rightarrow> rat option) \<Rightarrow> environ \<Rightarrow> (pystr \<Rightarrow> pystr) \<Rightarrow>
     (settings option, 'g) prog \<Rightarrow> ('g \<Rightarrow> (('w, 'p, 'g) process, unit) block) \<Rightarrow>
     (('w, 'p, 'g) process, unit) block" where
  "lifespan ot parse_float env upper build serve s =
     (case get_settings parse_float env (settings_cache s) of
        (Inl e, c) \<Rightarrow> Some (Inl e, s\<lparr>settings_cache := c\<rparr>)
      | (Inr settings, c) \<Rightarrow>
          let s1 = s\<lparr>settings_cache := c, logging_config := Some (configure_logging upper settings)\<rparr> in
          (case setup_telemetry ot settings None (process_telemetry s1) of
             (Inl e, t) \<Rightarrow> Some (Inl e, s1\<lparr>process_telemetry := t\<rparr>)
           | (Inr u, t) \<Rightarrow>
               map_option (finally_shutdown ot) (build_and_serve build serve (s1\<lparr>process_telemetry := t\<rparr>))))"

text \<open>The lifespan of the application: \<open>build_graph(checkpointer=InMemorySaver())\<close>, no model injected.\<close>

definition app_lifespan ::
  "unidb \<Rightarrow> (agent_state \<Rightarrow> exn + pystr) \<Rightarrow> (agent_state \<Rightarrow> ('v llm_state, message list) prog) \<Rightarrow>
     ('v llm_state, message) retry_runner \<Rightarrow> 'v gateway \<Rightarrow> (message_like list \<Rightarrow> message list) \<Rightarrow>
     ('w, 'p, 'e) otel \<Rightarrow> (pystr \<Rightarrow> rat option) \<Rightarrow> environ \<Rightarrow> (pystr \<Rightarrow> pystr) \<Rightarrow>
     ('v llm_state graph \<Rightarrow> (('w, 'p, 'v llm_state graph) process, unit) block) \<Rightarrow>
     (('w, 'p, 'v llm_state graph) process, unit) block" where
  "app_lifespan U tools_condition tool_node R gateway convert ot parse_float env upper serve =
     lifespan ot parse_float env upper
       (build_graph U tools_condition tool_node R gateway convert parse_float env None) serve"

text \<open>\<open>create_app()\<close>: what the application is made of; it reads no settings.\<close>

record fastapi =
  fa_title :: pystr
  fa_version :: pystr
  fa_routers :: "pystr list"

definition create_app :: fastapi where
  "create_app = \<lparr>fa_title = py ''llm-platform-template'', fa_version = VERSION,
     fa_routers = [py ''health'', py ''chat'']\<rparr>"

section \<open>Properties\<close>

text \<open>Telemetry is off: nothing is instrumented, every provider there ever was is closed.\<close>

definition telemetry_off :: "('w \<Rightarrow> 'p otel_view) \<Rightarrow> ('w, 'p) telemetry \<Rightarrow> bool" where
  "telemetry_off view t \<longleftrightarrow> books_ok view t \<and> active_provider t = None"

definition keeps_telemetry :: "('g \<Rightarrow> (('w, 'p, 'g) process, unit) block) \<Rightarrow> bool" where
  "keeps_telemetry serve \<longleftrightarrow>
     (\<forall>g s r s'. serve g s = Some (r, s') \<longrightarrow> process_telemetry s' = process_telemetry s)"

lemma telemetry_off_unfold:
  "telemetry_off view t \<Longrightarrow> active_provider t = None \<and> ov_patched (view (otel_world t)) = None \<and>
    ov_closed (view (otel_world t)) = ov_providers (view (otel_world t))"
  by (simp add: telemetry_off_def books_ok_def Let_def)

lemma shutdown_turns_off:
  assumes "otel_library ot view" and "books_ok view t"
  shows "\<exists>t'. shutdown_telemetry ot t = (Inr (), t') \<and> telemetry_off view t'"
proof -
  obtain t' where s: "tele_step ot Shutdown t = (Inr (), t')" "books_ok view t'"
    using otel_library.real_step [OF assms(1), of Shutdown t] assms(2) by auto
  moreover have "active_provider t' = None"
    using otel_library.shutdown_closes [OF assms(1), of t] s(1) by auto
  ultimately show ?thesis by (auto simp: telemetry_off_def)
qed

lemma finally_shutdown_off:
  assumes "otel_library ot view" and "books_ok view (process_telemetry s)"
  shows "\<exists>t'. finally_shutdown ot (r, s) = (r, s\<lparr>process_telemetry := t'\<rparr>) \<and> telemetry_off view t'"
  using shutdown_turns_off [OF assms] by (auto simp: finally_shutdown_def)

lemma setup_books:
  assumes "otel_library ot view" and "telemetry_off view t" and "keys_encodable settings"
  shows "\<exists>t'. setup_telemetry ot settings None t = (Inr (), t') \<and> books_ok view t' \<and>
    (telemetry_enabled settings \<longrightarrow> active_provider t' \<noteq> None)"
proof -
  obtain t' where t': "setup_telemetry ot settings None t = (Inr (), t')" "books_ok view t'"
    using otel_library.real_step [OF assms(1), of "Setup settings None" t] assms(2,3)
    by (auto simp: telemetry_off_def)
  moreover have "telemetry_enabled settings \<longrightarrow> active_provider t' \<noteq> None"
    using otel_library.setup_enabled [OF assms(1) _ assms(3), of t] assms(2) t'(1)
    by (auto simp: telemetry_off_def)
  ultimately show ?thesis by blast
qed

text \<open>C26. However a lifespan ends (the settings do not load, the graph does not build, the served
  part is over or is left by an exception), telemetry is off afterwards: nothing stays instrumented
  and every provider is flushed and closed, so the process can go through another lifespan. The
  outcome is that of the first thing to fail; the served part sees the built graph through
  \<open>get_agent_graph\<close>, with tracing active whenever the settings enable it. This is under the contract
  of the OpenTelemetry library, for a process whose telemetry is off before, Langfuse keys that can be
  encoded in UTF-8 (\<open>keys_encodable\<close>) and a served part that leaves telemetry alone (\<open>keeps_telemetry\<close>).\<close>

theorem lifespan_leaves_telemetry_off:
  assumes "otel_library ot view" and "telemetry_off view (process_telemetry s)"
    and "\<forall>settings c. get_settings pf env (settings_cache s) = (Inr settings, c) \<longrightarrow> keys_encodable settings"
    and "keeps_telemetry serve"
    and "lifespan ot pf env upper build serve s = Some (r, s')"
  shows "active_provider (process_telemetry s') = None \<and>
    ov_patched (view (otel_world (process_telemetry s'))) = None \<and>
    ov_closed (view (otel_world (process_telemetry s'))) =
      ov_providers (view (otel_world (process_telemetry s'))) \<and>
    (case get_settings pf env (settings_cache s) of
       (Inl e, c) \<Rightarrow> r = Inl e \<and> state_agent_graph s' = state_agent_graph s
     | (Inr settings, c) \<Rightarrow> (case build c of
           (Inl e, c') \<Rightarrow> r = Inl e \<and> state_agent_graph s' = state_agent_graph s
         | (Inr g, c') \<Rightarrow> \<exists>during s2. serve g during = Some (r, s2) \<and>
             get_agent_graph during = Inr g \<and>
             (telemetry_enabled settings \<longrightarrow> active_provider (process_telemetry during) \<noteq> None)))"
proof (cases "get_settings pf env (settings_cache s)")
  case (Pair res c)
  show ?thesis
  proof (cases res)
    case (Inl e)
    with Pair assms(2,5) telemetry_off_unfold [OF assms(2)] show ?thesis
      by (auto simp: lifespan_def)
  next
    case (Inr settings)
    with Pair assms(3) have enc: "keys_encodable settings" by blast
    from setup_books [OF assms(1,2) enc] obtain t where
      t: "setup_telemetry ot settings None (process_telemetry s) = (Inr (), t)" "books_ok view t"
      and on: "telemetry_enabled settings \<longrightarrow> active_provider t \<noteq> None" by blast
    let ?s = "s\<lparr>settings_cache := c, logging_config := Some (configure_logging upper settings),
      process_telemetry := t\<rparr>"
    from assms(5) Pair Inr t(1) obtain r1 s1 where
      body: "build_and_serve build serve ?s = Some (r1, s1)" and
      fin: "finally_shutdown ot (r1, s1) = (r, s')" by (auto simp: lifespan_def)
    have tele: "process_telemetry s1 = t"
      using body assms(4) by (fastforce simp: build_and_serve_def keeps_telemetry_def split: prod.splits sum.splits)
    from finally_shutdown_off [OF assms(1), of s1 r1] t(2) tele fin obtain t' where
      r: "r = r1" "s' = s1\<lparr>process_telemetry := t'\<rparr>" and off: "telemetry_off view t'" by auto
    show ?thesis
      using telemetry_off_unfold [OF off] Pair Inr body on
      by (auto simp: r build_and_serve_def get_agent_graph_def split: prod.splits sum.splits)
  qed
qed

text \<open>A traced process whose server is cancelled.\<close>

definition traced_environ :: environ where
  "traced_environ = [py ''APP_API_KEY'' \<mapsto> py ''secret'', py ''LANGFUSE_PUBLIC_KEY'' \<mapsto> py ''pk'',
     py ''LANGFUSE_SECRET_KEY'' \<mapsto> py ''sk'']"

definition process_start :: "(sdk_state, nat, 'g) process" where
  "process_start = \<lparr>settings_cache = None, logging_config = None, process_telemetry = sdk_start,
     state_agent_graph = None\<rparr>"

definition cancelled_server :: "'g \<Rightarrow> ((sdk_state, nat, 'g) process, unit) block" where
  "cancelled_server g s = Some (Inl (OtherBaseException (py ''CancelledError'') []), s)"

lemma traced_lifespan_run:
  "case app_lifespan latin1_db tools_condition_ref quiet_tools retry_ref sovereign_down keep_messages
      sdk (\<lambda>_. None) traced_environ (\<lambda>s. s) cancelled_server process_start of
     None \<Rightarrow> False | Some (r, s') \<Rightarrow> sdk_count (otel_world (process_telemetry s')) = 1"
  by code_simp

theorem lifespan_leaves_telemetry_off_witness:
  "\<exists>r s'. app_lifespan latin1_db tools_condition_ref quiet_tools retry_ref sovereign_down keep_messages
      sdk (\<lambda>_. None) traced_environ (\<lambda>s. s) cancelled_server process_start = Some (r, s') \<and>
     active_provider (process_telemetry s') = None \<and>
     sdk_patched (otel_world (process_telemetry s')) = None \<and>
     set (sdk_closed (otel_world (process_telemetry s'))) = {0}"
proof -
  let ?build = "build_graph latin1_db tools_condition_ref quiet_tools retry_ref sovereign_down
      keep_messages (\<lambda>_. None) traced_environ None"
  let ?run = "lifespan sdk (\<lambda>_. None) traced_environ (\<lambda>s. s) ?build cancelled_server process_start"
  have off: "telemetry_off sdk_view (process_telemetry process_start)"
    using fresh_books [OF fresh_sdk] by (simp add: telemetry_off_def process_start_def sdk_start_def)
  have "case load_settings (\<lambda>_. None) traced_environ of Inl e \<Rightarrow> True | Inr st \<Rightarrow>
      list_all is_scalar (LANGFUSE_PUBLIC_KEY st @ LANGFUSE_SECRET_KEY st)" by code_simp
  then have enc: "\<forall>settings c. get_settings (\<lambda>_. None) traced_environ (settings_cache process_start) =
      (Inr settings, c) \<longrightarrow> keys_encodable settings"
    by (auto simp: get_settings_def process_start_def keys_encodable_def split: sum.splits)
  have keeps: "keeps_telemetry cancelled_server" by (simp add: keeps_telemetry_def cancelled_server_def)
  obtain r s' where run: "?run = Some (r, s')" and count: "sdk_count (otel_world (process_telemetry s')) = 1"
    using traced_lifespan_run unfolding app_lifespan_def by (auto split: option.splits)
  from lifespan_leaves_telemetry_off [OF sdk.otel_library_axioms off enc keeps run]
  have "active_provider (process_telemetry s') = None"
    "sdk_patched (otel_world (process_telemetry s')) = None"
    "set (sdk_closed (otel_world (process_telemetry s'))) = {..<1}"
    by (simp_all add: sdk_view_def count)
  moreover have "{..<1} = {0::nat}" by auto
  ultimately show ?thesis using run unfolding app_lifespan_def by auto
qed

end
