(* ===== verification/Request.thy ===== *)
theory Request
  imports Turn Deps Main_App
begin

text \<open>
  \<open>POST /v1/chat\<close> as the application serves it: the settings, the API-key dependency of the router,
  the graph of the lifespan, the validation of the body and the endpoint, in the order FastAPI
  resolves them: first the dependencies, the router's before the endpoint's own, then the body.
\<close>

definition post_chat ::
  "('g \<Rightarrow> update \<Rightarrow> run_config \<Rightarrow> 'v server) \<Rightarrow> (pystr \<Rightarrow> pystr) \<Rightarrow> int option \<Rightarrow> int \<Rightarrow>
     (pystr \<Rightarrow> rat option) \<Rightarrow> environ \<Rightarrow> unidb \<Rightarrow> pystr \<Rightarrow> chat_request \<Rightarrow>
     (('w, 'p, 'g) process, (log_context \<times> 'v stream, unit) block) prog" where
  "post_chat open_stream sha256_hex span_id fresh parse_float env U x_api_key body app =
     (case get_settings parse_float env (settings_cache app) of
        (Inl e, c) \<Rightarrow> (Inl e, app\<lparr>settings_cache := c\<rparr>)
      | (Inr settings, c) \<Rightarrow>
          (bindE (verify_api_key settings x_api_key) (\<lambda>_.
           bindE (get_agent_graph app) (\<lambda>graph.
           bindE (validate_request U body) (\<lambda>valid.
             Inr (chat (open_stream graph) sha256_hex span_id fresh settings valid)))),
           app\<lparr>settings_cache := c\<rparr>))"

definition authorised :: "settings \<Rightarrow> pystr \<Rightarrow> bool" where
  "authorised settings key \<longleftrightarrow> key \<noteq> [] \<and> key = APP_API_KEY settings \<and> list_all is_ascii key"

lemma verify_api_key_ok: "verify_api_key settings key = Inr u \<longleftrightarrow> authorised settings key"
proof (cases "list_all is_ascii key \<and> list_all is_ascii (APP_API_KEY settings)")
  case True
  then show ?thesis
    by (auto simp: authorised_def verify_api_key_def Let_def compare_digest_ascii simp del: py_simps split: if_splits)
next
  case False
  then obtain m where "compare_digest key (APP_API_KEY settings) = Inl (TypeError m)"
    using compare_digest_not_ascii by blast
  with False show ?thesis by (auto simp: authorised_def verify_api_key_def Let_def simp del: py_simps)
qed

lemma get_agent_graph_ok: "get_agent_graph app = Inr g \<longleftrightarrow> state_agent_graph app = Some g"
  by (simp add: get_agent_graph_def split: option.split)

lemma validate_request_ok:
  "validate_request U body = Inr valid \<longleftrightarrow> valid = body \<and> cr_message body \<noteq> [] \<and>
     (\<forall>t. cr_thread_id body = Some t \<longrightarrow> (\<exists>n. uuid_of U t = Inr n))"
  by (cases "cr_thread_id body")
    (auto simp: validate_request_def thread_id_must_be_a_valid_uuid_def split: sum.splits)

lemma validate_request_fails:
  "validate_request U body = Inl e \<Longrightarrow> \<exists>m. e = HTTPException 422 m"
  by (auto simp: validate_request_def thread_id_must_be_a_valid_uuid_def
      split: if_splits sum.splits option.splits)

lemma uuid_of_Nil: "uuid_of U [] = Inl (ValueError (py ''badly formed hexadecimal UUID string''))"
  by (simp add: uuid_of_def Let_def strip_chars_def replace_all.simps)

text \<open>The thread and the user of a valid request.\<close>

definition thread_of :: "int \<Rightarrow> chat_request \<Rightarrow> pystr" where
  "thread_of fresh body = (case cr_thread_id body of Some t \<Rightarrow> t | None \<Rightarrow> uuid_text fresh)"

definition user_of :: "chat_request \<Rightarrow> pystr" where
  "user_of body = (case cr_user_id body of
     Some u \<Rightarrow> if u \<noteq> [] then u else DEFAULT_USER_ID | None \<Rightarrow> DEFAULT_USER_ID)"

lemma user_of_nonempty: "user_of body \<noteq> []"
  by (simp add: user_of_def DEFAULT_USER_ID_def split: option.split)

lemma chat_of_valid:
  assumes "validate_request U body = Inr body"
  shows "chat (open_stream g) sha256_hex span_id fresh settings body =
    stream_chat_events (open_stream g) sha256_hex span_id (cr_message body) (thread_of fresh body) (user_of body)
      (CHAT_STREAM_TIMEOUT_SECONDS settings)"
  using assms uuid_of_Nil [of U]
  by (cases "cr_thread_id body"; cases "cr_user_id body")
    (auto simp: validate_request_ok chat_def Let_def thread_of_def user_of_def)

lemma post_chat_opens:
  assumes "get_settings parse_float env (settings_cache app) = (Inr settings, c)"
    and "authorised settings x_api_key" and "state_agent_graph app = Some g"
    and "validate_request U body = Inr body"
  shows "fst (post_chat open_stream sha256_hex span_id fresh parse_float env U x_api_key body app) =
    Inr (stream_chat_events (open_stream g) sha256_hex span_id (cr_message body) (thread_of fresh body)
      (user_of body) (CHAT_STREAM_TIMEOUT_SECONDS settings))"
proof -
  have "verify_api_key settings x_api_key = Inr ()" using assms(2) verify_api_key_ok by blast
  with assms show ?thesis by (simp add: post_chat_def get_agent_graph_def chat_of_valid [OF assms(4)])
qed

section \<open>Properties\<close>

text \<open>C24. The gate of \<open>POST /v1/chat\<close>: a request opens a stream exactly if its key is the configured one, the
  lifespan has built the graph, the message is not empty and the thread id, if there is one, is a
  UUID; every other request changes nothing but the settings cache, and its body is only looked at
  (422) when the key is right. The stream it opens runs the graph of the lifespan on the text of the
  message, within the configured time, on a thread whose id is a UUID (the one of the request, or
  the generated one), for a user whose name is not empty.\<close>

theorem post_chat_gate:
  assumes "unicode_db U" and "0 \<le> fresh" and "fresh < 2 ^ 128"
    and "get_settings parse_float env (settings_cache app) = (Inr settings, c)"
    and "post_chat open_stream sha256_hex span_id fresh parse_float env U x_api_key body app = (r, app')"
  shows "app' = app\<lparr>settings_cache := c\<rparr> \<and>
    ((\<exists>stream. r = Inr stream) \<longleftrightarrow> authorised settings x_api_key \<and> state_agent_graph app \<noteq> None \<and> cr_message body \<noteq> [] \<and>
      (\<forall>t. cr_thread_id body = Some t \<longrightarrow> (\<exists>n. uuid_of U t = Inr n))) \<and>
    (\<not> authorised settings x_api_key \<longrightarrow> (\<exists>e. verify_api_key settings x_api_key = Inl e \<and> r = Inl e)) \<and>
    (\<forall>e. r = Inl e \<longrightarrow> authorised settings x_api_key \<longrightarrow> state_agent_graph app \<noteq> None \<longrightarrow> (\<exists>m. e = HTTPException 422 m)) \<and>
    (\<forall>stream. r = Inr stream \<longrightarrow> (\<exists>g tid uid n. state_agent_graph app = Some g \<and>
      uuid_of U tid = Inr n \<and> uid \<noteq> [] \<and>
      tid = (case cr_thread_id body of Some t \<Rightarrow> t | None \<Rightarrow> uuid_text fresh) \<and>
      stream = stream_chat_events (open_stream g) sha256_hex span_id (cr_message body) tid uid
        (CHAT_STREAM_TIMEOUT_SECONDS settings)))"
proof -
  have auth: "authorised settings x_api_key \<longleftrightarrow> verify_api_key settings x_api_key = Inr ()"
    by (simp add: verify_api_key_ok)
  have r: "r = bindE (verify_api_key settings x_api_key) (\<lambda>_.
           bindE (get_agent_graph app) (\<lambda>graph.
           bindE (validate_request U body) (\<lambda>valid.
             Inr (chat (open_stream graph) sha256_hex span_id fresh settings valid))))"
    and app': "app' = app\<lparr>settings_cache := c\<rparr>"
    using assms(5) by (simp_all add: post_chat_def assms(4))
  have chosen: "\<exists>tid uid n. uuid_of U tid = Inr n \<and> uid \<noteq> [] \<and>
      tid = (case cr_thread_id body of Some t \<Rightarrow> t | None \<Rightarrow> uuid_text fresh) \<and>
      chat (open_stream g) sha256_hex span_id fresh settings body =
        stream_chat_events (open_stream g) sha256_hex span_id (cr_message body) tid uid
          (CHAT_STREAM_TIMEOUT_SECONDS settings)"
    if "validate_request U body = Inr body" for g
    using that unicode_db.uuid_of_text [OF assms(1-3)] user_of_nonempty [of body] chat_of_valid [OF that]
    by (intro exI [of _ "thread_of fresh body"] exI [of _ "user_of body"])
      (auto simp: validate_request_ok thread_of_def split: option.split)
  show ?thesis
  proof (cases "authorised settings x_api_key \<and> (\<exists>g. state_agent_graph app = Some g)")
    case True
    then obtain g where g: "state_agent_graph app = Some g" by blast
    from True g auth have r2: "r = bindE (validate_request U body) (\<lambda>valid.
        Inr (chat (open_stream g) sha256_hex span_id fresh settings valid))"
      by (simp add: r get_agent_graph_def)
    show ?thesis
    proof (cases "validate_request U body")
      case (Inl e)
      with validate_request_fails [OF Inl] validate_request_ok [of U body body] app' True g r2
      show ?thesis by auto
    next
      case (Inr valid)
      with validate_request_ok [of U body valid] have "valid = body" by simp
      with Inr chosen [of g] validate_request_ok [of U body body] app' True g r2 show ?thesis by auto
    qed
  next
    case False
    with auth app' show ?thesis unfolding r
      by (cases "verify_api_key settings x_api_key") (auto simp: get_agent_graph_def)
  qed
qed


text \<open>A process whose lifespan has built the graph, with the keys of \<open>api_settings\<close>.\<close>

definition serving_process :: "(sdk_state, nat, unit) process" where
  "serving_process = process_start\<lparr>settings_cache := Some api_settings, state_agent_graph := Some ()\<rparr>"

definition example_body :: chat_request where
  "example_body = \<lparr>cr_message = py ''q'', cr_thread_id = None, cr_user_id = None\<rparr>"

theorem post_chat_gate_witness:
  "(\<exists>stream. fst (post_chat (\<lambda>_ _ _. example_server) (\<lambda>x. x) None 42 (\<lambda>_. None) (\<lambda>_. None) latin1_db
       (py ''secret'') example_body serving_process) = Inr stream) \<and>
   \<not> (\<exists>stream. fst (post_chat (\<lambda>_ _ _. example_server) (\<lambda>x. x) None 42 (\<lambda>_. None) (\<lambda>_. None) latin1_db
       (py ''secre'') example_body serving_process) = Inr stream)"
proof -
  have key: "APP_API_KEY api_settings = py ''secret''" by code_simp
  have st: "get_settings (\<lambda>_. None) (\<lambda>_. None) (settings_cache serving_process) =
      (Inr api_settings, Some api_settings)"
    by (simp add: serving_process_def get_settings_def)
  note gate = post_chat_gate [OF latin1.unicode_db_axioms _ _ st surjective_pairing, of 42]
  have "authorised api_settings (py ''secret'')" "\<not> authorised api_settings (py ''secre'')"
    unfolding authorised_def key by (simp_all add: is_ascii_def)
  moreover have "state_agent_graph serving_process \<noteq> None" "cr_message example_body \<noteq> []"
    "cr_thread_id example_body = None"
    by (simp_all add: serving_process_def example_body_def)
  ultimately show ?thesis
    using gate [of "\<lambda>_ _ _. example_server" "\<lambda>x. x" None "py ''secret''" example_body]
      gate [of "\<lambda>_ _ _. example_server" "\<lambda>x. x" None "py ''secre''" example_body]
    by (simp del: py_simps)
qed

end
