(* ===== verification/Spec2Isabelle.thy ===== *)
theory Spec2Isabelle
  imports InputGuards GuardPipeline Config Llm Gateway AgentGraph SearchAids Chat Threads Tools Turn Shared Corpus Deps Telemetry CommitMsg Main_App Request
begin

text \<open>
  Verification of the LLM platform template under \<open>app/\<close>: a FastAPI service whose chat endpoint runs
  a LangGraph agent (guardrails, a language model with a sovereignty cascade, one search tool) and
  streams the answer as server-sent events, and of its commit hook \<open>scripts/check_commit_msg.py\<close>.

  \<^bold>\<open>How the program is put together.\<close> \<open>main.py\<close> boots the process: settings, logging, telemetry, the
  compiled graph; at the end telemetry is shut down. \<open>POST /v1/chat\<close> (\<open>routes/chat.py\<close>), behind the
  API key (\<open>deps.py\<close>), validates the body and returns a generator. The generator invokes the graph
  (\<open>graph.py\<close>) on the thread's checkpoint with the new message, forwards the model's tokens within
  one deadline and ends with a \<open>done\<close> or an \<open>error\<close> event. The graph first runs the input guardrails
  (\<open>guardrails/\<close>), then alternates between the model (\<open>llm.py\<close>: the cascade over the gateway's model
  groups) and the tools (\<open>tools/search_aids.py\<close>), at most \<open>MAX_TOOL_ROUNDS\<close> times.

  \<^bold>\<open>Theories, in the order they build on each other.\<close>
    \<^item> Prelude: Python text as a list of code points, the exceptions the code raises or inspects, the
      result type \<open>exn + 'a\<close>, state-passing programs \<open>('s, 'a) prog\<close>, \<open>ModelGroup\<close>.
    \<^item> PyText, PyRegex: the text functions of Python the code uses, over a character database given as
      a record (interface \<open>unicode_db\<close>, instance \<open>latin1_db\<close>), and its regular expressions: the
      backtracking matcher \<open>rmatch\<close>, shown equivalent to the relation \<open>matches\<close>.
    \<^item> InputGuards, GuardPipeline (\<open>agent/guardrails/input.py\<close>, \<open>pipeline.py\<close>): \<open>check_length\<close>,
      \<open>check_injection\<close>, \<open>check_pii\<close> with the code's patterns as syntax trees, and \<open>run_input_guardrails\<close>.
      Lemmas: exactly which texts are rejected or flagged, and when \<open>check_pii\<close> raises.
    \<^item> Config (\<open>core/config.py\<close>): \<open>Settings\<close>, its validation and the cache of \<open>get_settings\<close>.
    \<^item> Messages, Llm (\<open>agent/llm.py\<close>): \<open>get_llm\<close>, \<open>_is_transient\<close>, \<open>_invoke_group\<close>,
      \<open>ainvoke_with_fallback\<close>. The state is the gateway's world and the trace of attempts and log
      lines. The retry library is the interface \<open>retrying\<close>. Lemmas: which groups are contacted, in
      which order, how often, and what the result is.
    \<^item> Gateway (\<open>gateway/litellm.config.yaml\<close>, \<open>litellm.ci.yaml\<close>): the deployments behind the groups and
      the router's fallbacks; the router is the interface \<open>litellm_router\<close> with its spend log, extended
      by \<open>litellm_failover\<close>. Lemmas: who answers a call of the cascade.
    \<^item> AgentGraph (\<open>agent/graph.py\<close>, \<open>state.py\<close>, \<open>prompts.py\<close>): the nodes and routers, \<open>build_graph\<close>,
      supersteps as a relation, the runtime as the interface \<open>langgraph\<close>. \<open>agent_turn\<close> is the abstract
      specification of the agent loop (messages added, rounds used, how it ends); \<open>agent_refines\<close> shows
      that the graph implements it.
    \<^item> SearchAids (\<open>agent/tools/search_aids.py\<close>): normalisation, scoring, ranking, snippets.
    \<^item> Logging (\<open>core/logging.py\<close>), Sse and Chat (\<open>api/routes/chat.py\<close>): the three events and their
      encoding with \<open>json.dumps\<close>; the request, the generator with its deadline, its error handling.
    \<^item> Threads: a conversation thread over its life. \<open>thread_run\<close> is the thread over whole turns;
      \<open>life_step\<close> goes superstep by superstep and lets a turn be given up between any two. \<open>life_ok\<close> is
      the invariant, \<open>run_progress\<close> its preservation together with progress.
    \<^item> Json, Corpus (\<open>data/aids_sample.json\<close>, \<open>_load_corpus\<close>): \<open>json.loads\<close> on a document with its inverse, the
      search over the unchecked values it makes (\<open>search_raw\<close>, with every access that may raise, shown to
      refine the search over records), and the committed corpus as records and as the lines of its file.
    \<^item> Tools: the search tool behind \<open>ToolNode\<close> (interface \<open>tool_executor\<close>, instance \<open>tool_node_ref\<close>);
      \<open>grounded\<close> is what the tool messages of a thread are worth.
    \<^item> Turn: the graph behind the generator. \<open>event_stream\<close> is the interface of LangGraph's event stream
      over \<open>langgraph\<close> for a request alone on its thread, \<open>shared_event_stream\<close> the more general one where
      others may take turns before the state is read, \<open>host_server\<close> a runtime; \<open>told\<close> is what the
      client must be told.
    \<^item> Shared: a request that shares its thread, with the runtime \<open>busy_server\<close>; whose outcome is told.
    \<^item> Deps (\<open>api/deps.py\<close>, \<open>routes/health.py\<close>): the API key, the readiness checks over a record of
      clients, \<open>asyncio.gather\<close> for every order of its tasks.
    \<^item> Codecs, Telemetry (\<open>core/telemetry.py\<close>): UTF-8 and base64 for the credentials; setup and shutdown
      over the interface \<open>otel_library\<close>, with the module's \<open>_active_provider\<close> as state.
    \<^item> Main_App (\<open>main.py\<close>): the lifespan and the application object.
    \<^item> Request (the router of \<open>routes/chat.py\<close>): \<open>post_chat\<close>, from the header to the stream.
    \<^item> CommitMsg (\<open>scripts/check_commit_msg.py\<close>).
    \<^item> This theory: \<open>request_is_answered\<close>, from the header of a request to what its client reads, and two
      consequences for whole turns, \<open>stream_reports_the_turn\<close> for any graph server that reads the state
      an invocation left, and \<open>thread_tool_budget\<close>.

  \<^bold>\<open>What the properties show.\<close> An authorised request is answered, in time, with the outcome of its message
  (\<open>request_is_answered\<close>), if it is alone on its thread; if others take turns before its final state is read,
  its client is told the outcome of the latest of them. The turn that refuses a message leaves the model alone and the client is
  told the refusal and nothing else; requests go only to permitted groups, in cascade order and within
  the retry budget; a thread stays well formed wherever its turns are given up; every invocation ends
  within its bounds, every stream with at most one terminal event, and every turn is answered before
  the timeout if the runtime keeps its times; what the client decodes is what was sent; search results
  are the top of a stable ranking; the key check decides equality and nothing is opened without the
  key; telemetry leaves no provider open. Several properties are exact descriptions that show where
  the code does not do what its comments say (a refused message is sent to the model one turn later,
  calls of an abandoned turn are never answered, the router leads a locked call to the frontier, and
  others); these are the findings listed in the manifest.

  \<^bold>\<open>Bounds and fuel.\<close> No definition has fuel. The graph's runtime has LangGraph's recursion limit: an
  invocation needs at most 13 supersteps (the guard, two per tool round for five rounds, the last
  model call and the budget node), and the default limit is 25. The stream's loop is a partial
  function, shown to end (\<open>stream_terminates\<close>). Timeouts are rational numbers. The bytes compared by
  \<open>compare_digest\<close> are 8-bit words; all other numbers are Python integers, which are unbounded.

  \<^bold>\<open>Parameters.\<close> What is not under \<open>app/\<close> is an argument of the definitions: the gateway and the retry
  runner, LangGraph's runtime with \<open>tools_condition\<close>, \<open>add_messages\<close> and \<open>ToolNode\<close>, the clients of
  Postgres, Redis and HTTP, OpenTelemetry, the character database, SHA-256, pydantic's conversion to
  float. Where a property needs a law of one of these it is a hypothesis (a locale of that name), and
  a reference instance in the same theory shows that it can hold.

  \<^bold>\<open>Not modelled.\<close> The text of log lines beyond their event (it reaches no result); reading the bytes of
  the corpus file (a parameter of the search), Python's limits on nesting and on digits in
  \<open>json.loads\<close>; FastAPI's routing and dependency injection, except for the order of calls they lead
  to; runs on one thread that interleave superstep by superstep (what a checkpointer makes of them is
  LangGraph's matter; whole turns between the end of a run and the reading of its state are in Shared);
  interleavings inside one superstep of the graph, which the runtime commits as a whole, or inside one
  readiness check, which runs as a unit in some order with the others; the router's cache, load balancing and connections; the tests and the
  deployment descriptions, which contain no program logic.
\<close>

section \<open>Whole turns\<close>

text \<open>The whole way of a message: when the guardrails, the graph and the stream work together and
  neither the model nor the tools raise, a generator that returns has as its last line either one of
  the three error events or the \<open>done\<close> event of this very turn: the refusal if the guardrails refuse
  the message, otherwise the final answer of the model or the budget message. A refused message is
  never answered, an admitted one never refused.\<close>

theorem stream_reports_the_turn:
  assumes "langgraph invoke limit add tc" and "13 \<le> limit" and "0 \<le> rounds st"
    and "run_input_guardrails U message MAX_INPUT_LENGTH = Inr verdict"
    and "agent_parts (\<lambda>m. is_ai m \<and> says m) answers (\<lambda>_. False) llm tn"
    and "reads_invocation (stream_server open_stream sha256_hex message tid uid)
      (invoke (agent_graph U tc tn llm) (initial_state message uid)) (st, w)"
    and "stops_by_base_exceptions (stream_server open_stream sha256_hex message tid uid)"
    and "stream_chat_events open_stream sha256_hex span_id message tid uid tmo (ctx, s) = Some (Inr (), (ctx', s'))"
  shows "(\<exists>ev \<in> error_events. last (lines s') = format_sse_event ev) \<or>
    (\<exists>text. last (lines s') = format_sse_event (build_done_event tid text) \<and>
       (if gr_ok verdict
        then text = BUDGET_EXCEEDED_MESSAGE_FR \<or>
          (\<exists>m. says m \<and> tool_calls m = [] \<and> text = content_text (msg_content m))
        else text = REFUSAL_MESSAGE_FR))"
proof -
  let ?srv = "stream_server open_stream sha256_hex message tid uid"
  from stream_outcome [OF assms(7,8)] obtain ts ev where
    lines: "lines s' = lines s @ map token_line ts @ [format_sse_event ev]" and
    ev: "ev \<in> done_events ?srv tid \<union> error_events" by auto
  from lines have last_line: "last (lines s') = format_sse_event ev" by simp
  show ?thesis
  proof (cases "ev \<in> error_events")
    case True
    with last_line show ?thesis by blast
  next
    case False
    with ev obtain ms w1 d w2 where done_ev: "ev = build_done_event tid (extract_final_text ms)"
      and "sv_state ?srv w1 = (d, Inr ms, w2)" by (auto simp: done_events_def)
    with assms(6) have "ms = messages (fst (snd (invoke (agent_graph U tc tn llm) (initial_state message uid) (st, w))))"
      unfolding reads_invocation_def by blast
    with invocation_final_text [OF assms(1-5), of uid w] done_ev last_line show ?thesis by auto
  qed
qed

text \<open>A server whose thread has just refused a message.\<close>

definition refusing_server :: "nat server" where
  "refusing_server =
     \<lparr>sv_pull = (\<lambda>w. (1, Inr None, w)),
      sv_state = (\<lambda>w. (1, Inr [HumanMessage (StrContent (py ''jailbreak'')), ai_text REFUSAL_MESSAGE_FR], w)),
      sv_deliver = (\<lambda>line w. (0, None, w)), sv_abandon = (\<lambda>t w. w)\<rparr>"

lemma refusing_run:
  "\<exists>s'. stream_chat_events (\<lambda>_ _. refusing_server) (\<lambda>s. s) None (py ''jailbreak'') (py ''t'') (py ''u'') 120
     (\<lambda>_. None, example_stream) = Some (Inr (), (\<lambda>_. None, s'))"
proof -
  let ?s = "request_span (\<lambda>s. s) (py ''t'') (py ''u'') example_stream"
  have "consume refusing_server 120 ?s = Some (Inr (), ?s\<lparr>clock := 1, outside := 0\<rparr>)"
    by (subst consume.simps)
      (simp add: wait_for_def refusing_server_def example_stream_def open_span_def del: py_simps)
  then show ?thesis
    by (simp add: stream_chat_events_def guarded_body_def in_span_def handle_failure_def stream_body_def
        finish_stream_def bind_p_def wait_for_def yield_line_def refusing_server_def example_stream_def
        open_span_def end_span_def Let_def del: py_simps)
qed

lemma jailbreak_refused:
  "case run_input_guardrails latin1_db (py ''jailbreak'') MAX_INPUT_LENGTH of
     Inl e \<Rightarrow> False | Inr r \<Rightarrow> \<not> gr_ok r"
  by code_simp

theorem stream_reports_the_turn_witness:
  "\<exists>s'. stream_chat_events (\<lambda>_ _. refusing_server) (\<lambda>s. s) None (py ''jailbreak'') (py ''t'') (py ''u'') 120
     (\<lambda>_. None, example_stream) = Some (Inr (), (\<lambda>_. None, s')) \<and>
   ((\<exists>ev \<in> error_events. last (lines s') = format_sse_event ev) \<or>
    last (lines s') = format_sse_event (build_done_event (py ''t'') REFUSAL_MESSAGE_FR))"
proof -
  let ?srv = "stream_server (\<lambda>_ _. refusing_server) (\<lambda>s. s) (py ''jailbreak'') (py ''t'') (py ''u'')"
  let ?run = "invoke_ref 25 (@) (agent_graph latin1_db tools_condition_ref example_tools insisting_model)
    (initial_state (py ''jailbreak'') (py ''u''))"
  obtain verdict where v: "run_input_guardrails latin1_db (py ''jailbreak'') MAX_INPUT_LENGTH = Inr verdict"
    and refused: "\<not> gr_ok verdict" using sum_case_Inr [OF jailbreak_refused] by blast
  note lang = lg.langgraph_axioms [of 25]
  have parts: "agent_parts (\<lambda>m. is_ai m \<and> True) (\<lambda>_ _. True) (\<lambda>_. False) insisting_model example_tools"
    by (auto simp: agent_parts_def insisting_model_def example_tools_def)
  have msgs: "messages (fst (snd (?run (empty_channels, 0)))) =
      [HumanMessage (StrContent (py ''jailbreak'')), ai_text REFUSAL_MESSAGE_FR]"
    using langgraph.invoke_blocked [OF lang, of latin1_db "initial_state (py ''jailbreak'') (py ''u'')"
        empty_channels verdict example_tools insisting_model 0] v refused
      latest_text_applied [OF lang, of "py ''jailbreak''" "py ''u''" empty_channels]
      initial_state_applied [OF lang, of "py ''jailbreak''" "py ''u''" empty_channels]
    by (simp add: Let_def empty_channels_def del: py_simps)
  have reads: "reads_invocation ?srv ?run (empty_channels, 0)"
    unfolding reads_invocation_def msgs by (simp add: stream_server_def refusing_server_def del: py_simps)
  have base: "stops_by_base_exceptions ?srv"
    by (simp add: stream_server_def refusing_server_def stops_by_base_exceptions_def)
  have nn: "0 \<le> rounds empty_channels" by (simp add: empty_channels_def rounds_def)
  obtain s' where run: "stream_chat_events (\<lambda>_ _. refusing_server) (\<lambda>s. s) None (py ''jailbreak'') (py ''t'')
      (py ''u'') 120 (\<lambda>_. None, example_stream) = Some (Inr (), (\<lambda>_. None, s'))" using refusing_run by blast
  from stream_reports_the_turn [OF lang _ nn v parts reads base run] refused run show ?thesis by auto
qed

text \<open>Tools over the life of a thread: whatever number of turns a thread takes, and whatever the
  messages, the model and the tools do, its tool-round counter stays between 0 and
  \<open>MAX_TOOL_ROUNDS\<close>, so with a model that asks for at most \<open>k\<close> calls at a time the thread never
  holds more than \<open>5 * k\<close> tool results: the "hard cap per invocation" is one for the whole thread.\<close>

theorem thread_tool_budget:
  assumes "langgraph invoke limit add tc" and "13 \<le> limit"
    and "agent_parts (calls_at_most k) answers_calls fails llm tn"
    and "thread_run invoke (agent_graph U tc tn llm) turns (empty_channels, w) = (rs, (st, w'))"
  shows "0 \<le> rounds st \<and> rounds st \<le> MAX_TOOL_ROUNDS \<and> tool_results (messages st) \<le> 5 * k"
proof -
  have "within_budget k empty_channels"
    by (simp add: within_budget_def empty_channels_def rounds_def MAX_TOOL_ROUNDS_def)
  from thread_within_budget [OF assms(1-3) this assms(4)] have w: "within_budget k st" .
  then have "int (tool_results (messages st)) \<le> int k * rounds st" "rounds st \<le> 5"
    by (simp_all add: within_budget_def MAX_TOOL_ROUNDS_def)
  moreover from this(2) have "int k * rounds st \<le> int k * 5" by (intro mult_left_mono) simp_all
  ultimately have "int (tool_results (messages st)) \<le> int (5 * k)" by linarith
  with w show ?thesis by (simp add: within_budget_def del: of_nat_mult)
qed

theorem thread_tool_budget_witness:
  "\<exists>rs st w'. thread_run (invoke_ref 25 (@))
      (agent_graph latin1_db tools_condition_ref example_tools insisting_model)
      [(py ''bonjour'', py ''u''), (py ''encore'', py ''u'')] (empty_channels, 0) = (rs, (st, w')) \<and>
    tool_results (messages st) \<le> 5"
proof -
  let ?g = "agent_graph latin1_db tools_condition_ref example_tools insisting_model"
  obtain rs st w' where run: "thread_run (invoke_ref 25 (@)) ?g
      [(py ''bonjour'', py ''u''), (py ''encore'', py ''u'')] (empty_channels, 0) = (rs, (st, w'))"
    by (metis prod.collapse)
  have "agent_parts (calls_at_most 1) answers_calls (\<lambda>_. False) insisting_model example_tools"
    by (simp add: agent_parts_def insisting_model_def example_tools_def calls_at_most_def
        answers_calls_def list_all2_conv_all_nth)
  from thread_tool_budget [OF lg.langgraph_axioms [of 25] _ this run] run show ?thesis by auto
qed

section \<open>A request, from the header to what the client reads\<close>

lemma sse_decode_line:
  assumes "scalar_event ev"
  shows "sse_decode (format_sse_event ev) = Some [ev]"
  using sse_decode_step [OF assms, of "[]"] by (simp add: sse_decode.simps [of "[]"])

lemma fixed_texts_scalar:
  "list_all scalar REFUSAL_MESSAGE_FR" "list_all scalar BUDGET_EXCEEDED_MESSAGE_FR"
  "list_all scalar CASCADE_EXHAUSTED_MESSAGE" "list_all scalar TIMEOUT_MESSAGE"
  "list_all scalar INTERNAL_ERROR_MESSAGE"
  by code_simp+

lemma event_keys_scalar:
  "list_all scalar (py ''type'')" "list_all scalar (py ''done'')" "list_all scalar (py ''error'')"
  "list_all scalar (py ''thread_id'')" "list_all scalar (py ''content'')" "list_all scalar (py ''message'')"
  by code_simp+

lemma classify_error_scalar: "list_all scalar (classify_error e)"
  by (cases e) (simp_all add: fixed_texts_scalar)

lemma last_event_scalar:
  assumes "answered U says fails message outcome" and "list_all scalar tid"
    and "\<And>m. says m \<Longrightarrow> list_all scalar (content_text (msg_content m))"
  shows "scalar_event (last_event tid outcome)"
proof (cases outcome)
  case (Inl e)
  then show ?thesis
    by (simp add: last_event_def build_error_event_def scalar_event_def event_keys_scalar classify_error_scalar
        del: py_simps)
next
  case (Inr answer)
  with assms have "list_all scalar answer"
    by (auto simp: answered_def told_def fixed_texts_scalar split: sum.splits if_splits)
  with Inr assms(2) show ?thesis
    by (simp add: last_event_def build_done_event_def scalar_event_def event_keys_scalar del: py_simps)
qed

text \<open>C3. The whole way of a request. When the key is the configured one, the lifespan has built the graph and the
  body is valid, \<open>POST /v1/chat\<close> opens a stream; on a runtime that keeps its times, with a thread at
  rest and a consumer that takes each line within \<open>c\<close>, the stream is over before
  \<open>CHAT_STREAM_TIMEOUT_SECONDS\<close> and the last line: token lines, then one line from which an SSE client
  reads exactly the event of this request, the outcome of its own message (refusal, failure, budget
  message or the final answer of the model).\<close>

theorem request_is_answered:
  fixes open_stream :: "'w graph \<Rightarrow> update \<Rightarrow> run_config \<Rightarrow> 'v server"
    and app :: "('x, 'p, 'w graph) process"
  assumes "event_stream invoke limit add tc open_stream thread at_rest turn_time read_time tokens"
    and "13 \<le> limit" and "unicode_db U"
    and "agent_parts (\<lambda>m. is_ai m \<and> says m) answers fails llm tn" and "\<forall>e. fails e \<longrightarrow> is_Exception e"
    and "get_settings parse_float env (settings_cache app) = (Inr settings, s0)"
    and "authorised settings key" and "state_agent_graph app = Some (agent_graph U tc tn llm)"
    and "validate_request U body = Inr body"
    and "tid = thread_of fresh body" and "cfg = run_config_of sha256_hex tid (user_of body)"
    and "at_rest (outside s)" and "0 \<le> rounds (fst (thread cfg (outside s)))"
    and "reads_within c (open_stream (agent_graph U tc tn llm) (initial_state (cr_message body) (user_of body)) cfg)"
    and "turn_time + read_time + of_nat tokens * c < CHAT_STREAM_TIMEOUT_SECONDS settings"
    and "list_all scalar tid" and "\<And>m. says m \<Longrightarrow> list_all scalar (content_text (msg_content m))"
  shows "\<exists>stream ts outcome ctx' s'.
    fst (post_chat open_stream sha256_hex span_id fresh parse_float env U key body app) = Inr stream \<and>
    stream (ctx, s) = Some (Inr (), (ctx', s')) \<and>
    lines s' = lines s @ map token_line ts @ [format_sse_event (last_event tid outcome)] \<and>
    sse_decode (last (lines s')) = Some [last_event tid outcome] \<and>
    answered U says fails (cr_message body) outcome \<and>
    clock s' < clock s + CHAT_STREAM_TIMEOUT_SECONDS settings + c"
proof -
  from turn_is_answered_in_time [OF assms(1-5) assms(11,12,13,14,15), of span_id ctx] obtain ts outcome ctx' s' where
    run: "stream_chat_events (open_stream (agent_graph U tc tn llm)) sha256_hex span_id (cr_message body) tid
      (user_of body) (CHAT_STREAM_TIMEOUT_SECONDS settings) (ctx, s) = Some (Inr (), (ctx', s'))"
      "lines s' = lines s @ map token_line ts @ [format_sse_event (last_event tid outcome)]"
      "clock s' \<le> clock s + turn_time + read_time + of_nat (Suc tokens) * c" and
    told: "answered U says fails (cr_message body) outcome" unfolding answered_def by blast
  have "clock s' < clock s + CHAT_STREAM_TIMEOUT_SECONDS settings + c"
    using run(3) assms(15) by (simp add: algebra_simps)
  moreover from last_event_scalar [OF told assms(16,17)] have
    "sse_decode (last (lines s')) = Some [last_event tid outcome]" by (simp add: run(2) sse_decode_line)
  moreover note post_chat_opens [OF assms(6-9), of open_stream sha256_hex span_id fresh, folded assms(10)]
  ultimately show ?thesis using run(1,2) told by blast
qed

text \<open>The example runtime behind the application, asked to ignore its instructions.\<close>

definition host_process :: "(sdk_state, nat, nat graph) process" where
  "host_process = process_start\<lparr>settings_cache := Some api_settings, state_agent_graph := Some answering_graph\<rparr>"

definition jailbreak_body :: chat_request where
  "jailbreak_body = \<lparr>cr_message = py ''jailbreak'', cr_thread_id = None, cr_user_id = None\<rparr>"

theorem request_is_answered_witness:
  "\<exists>stream ctx' s'. fst (post_chat (host_server 25 (@) 1 0 one_event) (\<lambda>x. x) None 42 (\<lambda>_. None) (\<lambda>_. None)
      latin1_db (py ''secret'') jailbreak_body host_process) = Inr stream \<and>
    stream (\<lambda>_. None, host_start) = Some (Inr (), (ctx', s')) \<and>
    sse_decode (last (lines s')) = Some [build_done_event (uuid_text 42) REFUSAL_MESSAGE_FR] \<and>
    clock s' < 121"
proof -
  let ?tid = "thread_of 42 jailbreak_body" and ?uid = "user_of jailbreak_body"
  let ?cfg = "run_config_of (\<lambda>x. x) ?tid ?uid"
  obtain r r' where "run_input_guardrails latin1_db (py ''bonjour'') MAX_INPUT_LENGTH = Inr r" "gr_ok r"
    and no: "run_input_guardrails latin1_db (py ''jailbreak'') MAX_INPUT_LENGTH = Inr r'" "\<not> gr_ok r'"
    by (rule example_verdicts)
  have key: "APP_API_KEY api_settings = py ''secret''" and tmo: "CHAT_STREAM_TIMEOUT_SECONDS api_settings = 120"
    by code_simp+
  have st: "get_settings (\<lambda>_. None) (\<lambda>_. None) (settings_cache host_process) = (Inr api_settings, Some api_settings)"
    by (simp add: host_process_def get_settings_def)
  have auth: "authorised api_settings (py ''secret'')" unfolding authorised_def key by (simp add: is_ascii_def)
  have graph: "state_agent_graph host_process = Some answering_graph" by (simp add: host_process_def)
  have valid: "validate_request latin1_db jailbreak_body = Inr jailbreak_body"
    by (simp add: validate_request_ok jailbreak_body_def)
  have tid: "?tid = uuid_text 42" by (simp add: thread_of_def jailbreak_body_def)
  have scalar: "list_all scalar ?tid" unfolding tid by code_simp
  have parts: "agent_parts (\<lambda>m. is_ai m \<and> m = ai_text (py ''oui'')) answers_calls (\<lambda>_. False) answering_model example_tools"
    by (rule agent_parts_mono [OF answering_parts]) (simp_all add: calls_at_most_def)
  have rest: "live (outside host_start) = None" by (simp add: host_start_def)
  have nn: "0 \<le> rounds (fst (host_thread ?cfg (outside host_start)))"
    by (simp add: host_thread_def host_start_def empty_channels_def rounds_def)
  have cons: "reads_within 1 (host_server 25 (@) 1 0 one_event answering_graph
      (initial_state (cr_message jailbreak_body) ?uid) ?cfg)"
    by (simp add: reads_within_def host_server_def)
  have time: "of_nat (25 * 1) + of_nat 1 + of_nat (25 * Suc 0) * 1 < CHAT_STREAM_TIMEOUT_SECONDS api_settings"
    unfolding tmo by simp
  have says: "list_all scalar (content_text (msg_content m))" if "m = ai_text (py ''oui'')" for m
    unfolding that by code_simp
  from request_is_answered [OF host.event_stream_axioms [of 25 1 0 one_event] _ latin1.unicode_db_axioms
      parts _ st auth graph valid refl refl rest nn cons time scalar says, of None "\<lambda>_. None"]
  obtain stream ts outcome ctx' s' where
    "fst (post_chat (host_server 25 (@) 1 0 one_event) (\<lambda>x. x) None 42 (\<lambda>_. None) (\<lambda>_. None)
      latin1_db (py ''secret'') jailbreak_body host_process) = Inr stream"
    "stream (\<lambda>_. None, host_start) = Some (Inr (), (ctx', s'))"
    "sse_decode (last (lines s')) = Some [last_event ?tid outcome]"
    "answered latin1_db (\<lambda>m. m = ai_text (py ''oui'')) (\<lambda>_. False) (cr_message jailbreak_body) outcome"
    "clock s' < clock host_start + CHAT_STREAM_TIMEOUT_SECONDS api_settings + 1" by auto
  moreover from this(4) no have "outcome = Inr REFUSAL_MESSAGE_FR"
    by (simp add: answered_def told_def jailbreak_body_def del: py_simps)
  ultimately show ?thesis
    by (intro exI [of _ stream] exI [of _ ctx'] exI [of _ s'])
      (simp add: tid tmo last_event_def host_start_def del: py_simps)
qed

end
